(* ===== verification/Kernel_Prelude.thy ===== *)
theory Kernel_Prelude
  imports Main "HOL-Library.Word" "HOL-Library.Multiset"
begin

text \<open>
  Types, constants and generic lemmas shared by the component theories.

  The kernel is built for a 32-bit ARM core (\<open>arch/arm/configs/bcm21553_totoro_05_defconfig\<close>):
  \<open>unsigned int\<close>, \<open>unsigned long\<close>, \<open>size_t\<close>, pointers and, since \<open>CONFIG_LBDAF\<close> is not set,
  \<open>sector_t\<close> are 32 bits wide and wrap around.  A C \<open>int\<close> result (a byte count or a negated
  error number) is an \<^typ>\<open>int\<close>.  Pointers are naturals with \<open>0\<close> as the null pointer.
\<close>

unbundle bit_operations_syntax

type_synonym u8 = "8 word"
type_synonym u16 = "16 word"
type_synonym u32 = "32 word"
type_synonym u64 = "64 word"
type_synonym ulong = "32 word"
type_synonym size = "32 word"
type_synonym sector = "32 word"
type_synonym ptr = nat

abbreviation (input) NULL :: ptr where
  "NULL \<equiv> 0"

named_theorems kdefs \<open>defining equations of the small accessors and macros\<close>
named_theorems heap_simps \<open>reading and framing pointer heaps\<close>

section \<open>Error numbers\<close>

definition EPERM :: int where "EPERM = 1"
definition EINTR :: int where "EINTR = 4"
definition EBADF :: int where "EBADF = 9"
definition EAGAIN :: int where "EAGAIN = 11"
definition ENOMEM :: int where "ENOMEM = 12"
definition EFAULT :: int where "EFAULT = 14"
definition ENODEV :: int where "ENODEV = 19"
definition EINVAL :: int where "EINVAL = 22"
definition ENOTTY :: int where "ENOTTY = 25"

lemmas errno_defs [kdefs] = EPERM_def EINTR_def EBADF_def EAGAIN_def ENOMEM_def EFAULT_def
  ENODEV_def EINVAL_def ENOTTY_def

section \<open>Limits of a C \<open>int\<close>\<close>

definition INT_MAX :: int where "INT_MAX = 2 ^ 31 - 1"
definition INT_MIN :: int where "INT_MIN = - (2 ^ 31)"

section \<open>Jiffies: time comparison modulo wrap-around\<close>

text \<open>\<open>include/linux/jiffies.h\<close>: the difference of two tick counts is read as a signed long.\<close>

definition time_after :: "ulong \<Rightarrow> ulong \<Rightarrow> bool" where
  "time_after a b \<longleftrightarrow> sint (b - a) < 0"

definition time_before :: "ulong \<Rightarrow> ulong \<Rightarrow> bool" where
  "time_before a b \<longleftrightarrow> time_after b a"

definition time_after_eq :: "ulong \<Rightarrow> ulong \<Rightarrow> bool" where
  "time_after_eq a b \<longleftrightarrow> 0 \<le> sint (a - b)"

definition time_before_eq :: "ulong \<Rightarrow> ulong \<Rightarrow> bool" where
  "time_before_eq a b \<longleftrightarrow> time_after_eq b a"

definition HZ :: nat where "HZ = 256"

lemma time_after_irrefl [simp]: "\<not> time_after a a"
  by (simp add: time_after_def)

section \<open>Lists and words\<close>

lemma sint_word:
  "sint (w :: 'a :: len word) =
     (if uint w < 2 ^ (LENGTH('a) - 1) then uint w else uint w - 2 ^ LENGTH('a))"
proof -
  obtain n where n: "LENGTH('a) = Suc n" by (metis len_gt_0 not0_implies_Suc less_numeral_extra(3))
  have w: "0 \<le> uint w" "uint w < 2 ^ Suc n" using uint_bounded [of w] n by auto
  show ?thesis
  proof (cases "uint w < 2 ^ n")
    case True
    then have "signed_take_bit n (uint w) = uint w"
      using w by (intro signed_take_bit_int_eq_self) (simp_all add: order_trans [of _ 0])
    then show ?thesis using True by (simp add: sint_uint n)
  next
    case False
    have "signed_take_bit n (uint w) = signed_take_bit n (uint w - 2 ^ Suc n)"
      by (rule signed_take_bit_eq_iff_take_bit_eq [THEN iffD2]) (simp add: take_bit_eq_mod mod_diff_eq)
    also have "\<dots> = uint w - 2 ^ Suc n"
      using w False by (intro signed_take_bit_int_eq_self) simp_all
    finally show ?thesis using False by (simp add: sint_uint n)
  qed
qed

lemma sint_u32: "sint (w :: u32) = (if uint w < 2 ^ 31 then uint w else uint w - 2 ^ 32)"
  by (simp add: sint_word)

lemma sint_u64: "sint (w :: u64) = (if uint w < 2 ^ 63 then uint w else uint w - 2 ^ 64)"
  by (simp add: sint_word)

lemma sint_u32_nonneg: "0 \<le> sint (w :: u32) \<longleftrightarrow> uint w < 2 ^ 31"
  using uint_bounded [of w] by (auto simp: sint_u32)

lemma uint_of_int_u32: "0 \<le> i \<Longrightarrow> i < 2 ^ 32 \<Longrightarrow> uint (of_int i :: u32) = i"
  by (simp add: uint_word_of_int take_bit_int_eq_self)

lemma sint_of_int_u32: "- (2 ^ 31) \<le> i \<Longrightarrow> i < 2 ^ 31 \<Longrightarrow> sint (of_int i :: u32) = i"
  by (simp add: signed_of_int signed_take_bit_int_eq_self)

lemma unat_push_bit:
  "unat (x :: 'a :: len word) * 2 ^ k < 2 ^ LENGTH('a) \<Longrightarrow> unat (push_bit k x) = unat x * 2 ^ k"
  unfolding unsigned_push_bit_eq by (simp add: push_bit_eq_mult take_bit_nat_eq_self)

lemma unat_drop_bit: "unat (drop_bit k x) = unat x div 2 ^ k"
  unfolding unsigned_drop_bit_eq by (simp add: drop_bit_eq_div take_bit_nat_eq_self [OF unsigned_less])

lemma unat_add_lt: "unat (x :: 'a :: len word) + unat y < 2 ^ LENGTH('a) \<Longrightarrow> unat (x + y) = unat x + unat y"
  by (simp add: unat_word_ariths)

lemma unat_sub_le: "unat y \<le> unat x \<Longrightarrow> unat (x - y) = unat x - unat y"
  by (simp add: unat_sub word_le_nat_alt)

lemma unat_mult_lt: "unat (x :: 'a :: len word) * unat y < 2 ^ LENGTH('a) \<Longrightarrow> unat (x * y) = unat x * unat y"
  by (simp add: unat_word_ariths)

lemma and_push_bit_1: "(x :: 'a :: len word) AND push_bit k 1 = (if bit x k then push_bit k 1 else 0)"
  by (rule bit_eqI) (auto simp: bit_simps)

lemma and_flag_eq_0: "k < LENGTH('a) \<Longrightarrow> (x :: 'a :: len word) AND push_bit k 1 = 0 \<longleftrightarrow> \<not> bit x k"
proof -
  assume "k < LENGTH('a)"
  then have "bit (push_bit k 1 :: 'a word) k" by (simp add: bit_simps)
  then have "(push_bit k 1 :: 'a word) \<noteq> 0" by (metis bit_0_eq bot_apply bot_bool_def)
  then show ?thesis unfolding and_push_bit_1 by (metis (full_types))
qed

lemma unat_plus1: "e < (f :: u32) \<Longrightarrow> unat (e + 1) = unat e + 1"
proof -
  assume "e < f"
  then have "unat e + 1 < 2 ^ 32" using unsigned_less [of f, where ?'a = nat] by (simp add: word_less_nat_alt)
  then show ?thesis by (subst unat_add_lt) simp_all
qed

lemma unat_minus1: "f < (s :: u32) \<Longrightarrow> unat (s - 1) = unat s - 1"
  by (subst unat_sub_le) (simp_all add: word_less_nat_alt)

lemma remove1_append_Cons_notin:
  "x \<notin> set as \<Longrightarrow> remove1 x (as @ x # bs) = as @ bs"
  by (simp add: remove1_append)

lemma count_mset_distinct: "distinct xs \<Longrightarrow> x \<in> set xs \<Longrightarrow> count (mset xs) x = 1"
  by (simp add: distinct_count_atmost_1)

lemma distinct_split_unique:
  assumes "as @ x # bs = cs @ x # ds" and "distinct (as @ x # bs)"
  shows "as = cs \<and> bs = ds"
proof -
  have "x \<notin> set as" "x \<notin> set cs"
    using assms by (auto simp: assms(1)[symmetric], metis assms distinct_append not_distinct_conv_prefix)
  then show ?thesis
    using assms(1) by (auto simp: append_eq_append_conv2 append_eq_Cons_conv Cons_eq_append_conv)
qed

end
