(* ===== verification/List_Head.thy ===== *)
theory List_Head
  imports Kernel_Prelude
begin

text \<open>
  The doubly linked lists of \<open>include/linux/list.h\<close>, on an explicit pointer heap.

  A \<open>struct list_head\<close> is an address with a \<open>next\<close> and a \<open>prev\<close> link; \<open>container_of\<close> is the
  identity, so an entry is named by the address of its link.  Every operation performs the writes
  of the source in their order.  \<open>dlist h hp xs\<close> says that the circular list at \<open>hp\<close> holds exactly
  the entries \<open>xs\<close>; the lemmas show what each operation does to that sequence and that it leaves
  every disjoint list alone.  The locale \<open>kernel_list\<close> is the contract the clients rely on.
\<close>

section \<open>The heap and the operations\<close>

record list_heap =
  nxt :: "ptr \<Rightarrow> ptr"
  prv :: "ptr \<Rightarrow> ptr"

definition set_next :: "ptr \<Rightarrow> ptr \<Rightarrow> list_heap \<Rightarrow> list_heap" where
  "set_next p v h = h\<lparr>nxt := (nxt h)(p := v)\<rparr>"

definition set_prev :: "ptr \<Rightarrow> ptr \<Rightarrow> list_heap \<Rightarrow> list_heap" where
  "set_prev p v h = h\<lparr>prv := (prv h)(p := v)\<rparr>"

definition LIST_POISON1 :: ptr where "LIST_POISON1 = 0x00100100"
definition LIST_POISON2 :: ptr where "LIST_POISON2 = 0x00200200"

definition INIT_LIST_HEAD :: "ptr \<Rightarrow> list_heap \<Rightarrow> list_heap" where
  "INIT_LIST_HEAD list h = set_prev list list (set_next list list h)"

definition list_add_between :: "ptr \<Rightarrow> ptr \<Rightarrow> ptr \<Rightarrow> list_heap \<Rightarrow> list_heap" where
  "list_add_between new prev next h =
     (let h = set_prev next new h;
          h = set_next new next h;
          h = set_prev new prev h
      in set_next prev new h)"

definition list_add :: "ptr \<Rightarrow> ptr \<Rightarrow> list_heap \<Rightarrow> list_heap" where
  "list_add new head h = list_add_between new head (nxt h head) h"

definition list_add_tail :: "ptr \<Rightarrow> ptr \<Rightarrow> list_heap \<Rightarrow> list_heap" where
  "list_add_tail new head h = list_add_between new (prv h head) head h"

definition list_del_between :: "ptr \<Rightarrow> ptr \<Rightarrow> list_heap \<Rightarrow> list_heap" where
  "list_del_between prev next h =
     (let h = set_prev next prev h
      in set_next prev next h)"

definition list_del :: "ptr \<Rightarrow> list_heap \<Rightarrow> list_heap" where
  "list_del entry h =
     (let h = list_del_between (prv h entry) (nxt h entry) h;
          h = set_next entry LIST_POISON1 h
      in set_prev entry LIST_POISON2 h)"

definition list_replace :: "ptr \<Rightarrow> ptr \<Rightarrow> list_heap \<Rightarrow> list_heap" where
  "list_replace old new h =
     (let h = set_next new (nxt h old) h;
          h = set_prev (nxt h new) new h;
          h = set_prev new (prv h old) h
      in set_next (prv h new) new h)"

definition list_replace_init :: "ptr \<Rightarrow> ptr \<Rightarrow> list_heap \<Rightarrow> list_heap" where
  "list_replace_init old new h = INIT_LIST_HEAD old (list_replace old new h)"

definition list_del_init :: "ptr \<Rightarrow> list_heap \<Rightarrow> list_heap" where
  "list_del_init entry h = INIT_LIST_HEAD entry (list_del_between (prv h entry) (nxt h entry) h)"

definition list_move :: "ptr \<Rightarrow> ptr \<Rightarrow> list_heap \<Rightarrow> list_heap" where
  "list_move list head h = list_add list head (list_del_between (prv h list) (nxt h list) h)"

definition list_move_tail :: "ptr \<Rightarrow> ptr \<Rightarrow> list_heap \<Rightarrow> list_heap" where
  "list_move_tail list head h =
     list_add_tail list head (list_del_between (prv h list) (nxt h list) h)"

definition list_is_last :: "ptr \<Rightarrow> ptr \<Rightarrow> list_heap \<Rightarrow> bool" where
  "list_is_last list head h \<longleftrightarrow> nxt h list = head"

definition list_empty :: "ptr \<Rightarrow> list_heap \<Rightarrow> bool" where
  "list_empty head h \<longleftrightarrow> nxt h head = head"

definition list_empty_careful :: "ptr \<Rightarrow> list_heap \<Rightarrow> bool" where
  "list_empty_careful head h \<longleftrightarrow> (let next = nxt h head in next = head \<and> next = prv h head)"

definition list_rotate_left :: "ptr \<Rightarrow> list_heap \<Rightarrow> list_heap" where
  "list_rotate_left head h =
     (if \<not> list_empty head h then list_move_tail (nxt h head) head h else h)"

definition list_is_singular :: "ptr \<Rightarrow> list_heap \<Rightarrow> bool" where
  "list_is_singular head h \<longleftrightarrow> \<not> list_empty head h \<and> nxt h head = prv h head"

definition list_cut_between :: "ptr \<Rightarrow> ptr \<Rightarrow> ptr \<Rightarrow> list_heap \<Rightarrow> list_heap" where
  "list_cut_between list head entry h =
     (let new_first = nxt h entry;
          h = set_next list (nxt h head) h;
          h = set_prev (nxt h list) list h;
          h = set_prev list entry h;
          h = set_next entry list h;
          h = set_next head new_first h
      in set_prev new_first head h)"

definition list_cut_position :: "ptr \<Rightarrow> ptr \<Rightarrow> ptr \<Rightarrow> list_heap \<Rightarrow> list_heap" where
  "list_cut_position list head entry h =
     (if list_empty head h then h
      else if list_is_singular head h \<and> (nxt h head \<noteq> entry \<and> head \<noteq> entry) then h
      else if entry = head then INIT_LIST_HEAD list h
      else list_cut_between list head entry h)"

definition list_splice_between :: "ptr \<Rightarrow> ptr \<Rightarrow> ptr \<Rightarrow> list_heap \<Rightarrow> list_heap" where
  "list_splice_between list prev next h =
     (let first = nxt h list;
          last = prv h list;
          h = set_prev first prev h;
          h = set_next prev first h;
          h = set_next last next h
      in set_prev next last h)"

definition list_splice :: "ptr \<Rightarrow> ptr \<Rightarrow> list_heap \<Rightarrow> list_heap" where
  "list_splice list head h =
     (if \<not> list_empty list h then list_splice_between list head (nxt h head) h else h)"

definition list_splice_tail :: "ptr \<Rightarrow> ptr \<Rightarrow> list_heap \<Rightarrow> list_heap" where
  "list_splice_tail list head h =
     (if \<not> list_empty list h then list_splice_between list (prv h head) head h else h)"

definition list_splice_init :: "ptr \<Rightarrow> ptr \<Rightarrow> list_heap \<Rightarrow> list_heap" where
  "list_splice_init list head h =
     (if \<not> list_empty list h
      then INIT_LIST_HEAD list (list_splice_between list head (nxt h head) h) else h)"

definition list_splice_tail_init :: "ptr \<Rightarrow> ptr \<Rightarrow> list_heap \<Rightarrow> list_heap" where
  "list_splice_tail_init list head h =
     (if \<not> list_empty list h
      then INIT_LIST_HEAD list (list_splice_between list (prv h head) head h) else h)"

text \<open>\<open>lib/list_debug.c\<close>: the checked variants, with the number of warnings they print.\<close>

definition list_add_between_debug :: "ptr \<Rightarrow> ptr \<Rightarrow> ptr \<Rightarrow> list_heap \<Rightarrow> nat \<times> list_heap" where
  "list_add_between_debug new prev next h =
     ((if prv h next \<noteq> prev then 1 else 0) + (if nxt h prev \<noteq> next then 1 else 0),
      let h = set_prev next new h;
          h = set_next new next h;
          h = set_prev new prev h
      in set_next prev new h)"

definition list_del_debug :: "ptr \<Rightarrow> list_heap \<Rightarrow> nat \<times> list_heap" where
  "list_del_debug entry h =
     ((if nxt h (prv h entry) \<noteq> entry then 1 else 0)
        + (if prv h (nxt h entry) \<noteq> entry then 1 else 0),
      let h = list_del_between (prv h entry) (nxt h entry) h;
          h = set_next entry LIST_POISON1 h
      in set_prev entry LIST_POISON2 h)"

lemmas list_op_defs = set_next_def set_prev_def INIT_LIST_HEAD_def list_add_between_def
  list_add_def list_add_tail_def list_del_between_def list_del_def list_replace_def
  list_replace_init_def list_del_init_def list_move_def list_move_tail_def Let_def

section \<open>Abstraction to sequences\<close>

fun fpath :: "(ptr \<Rightarrow> ptr) \<Rightarrow> ptr \<Rightarrow> ptr list \<Rightarrow> ptr \<Rightarrow> bool" where
  "fpath f x [] z \<longleftrightarrow> f x = z"
| "fpath f x (y # ys) z \<longleftrightarrow> f x = y \<and> fpath f y ys z"

definition dlist :: "list_heap \<Rightarrow> ptr \<Rightarrow> ptr list \<Rightarrow> bool" where
  "dlist h hp xs \<longleftrightarrow>
     distinct (hp # xs) \<and> fpath (nxt h) hp xs hp \<and> fpath (prv h) hp (rev xs) hp"

lemma fpath_append [simp]:
  "fpath f x (ys @ y # zs) z \<longleftrightarrow> fpath f x ys y \<and> fpath f y zs z"
  by (induction ys arbitrary: x) auto

lemma fpath_upd [simp]:
  "u \<notin> set (x # ys) \<Longrightarrow> fpath (f(u := v)) x ys z = fpath f x ys z"
  by (induction ys arbitrary: x) auto

lemma fpath_cong:
  "(\<And>p. p \<in> set (x # ys) \<Longrightarrow> f p = g p) \<Longrightarrow> fpath f x ys z = fpath g x ys z"
  by (induction ys arbitrary: x) auto

lemma fpath_last: "fpath f x (ys @ [y]) z \<Longrightarrow> f y = z"
  by simp

lemma fpath_det: "fpath f x ys z \<Longrightarrow> fpath f x zs z \<Longrightarrow> z \<notin> set ys \<Longrightarrow> z \<notin> set zs \<Longrightarrow> ys = zs"
proof (induction ys arbitrary: x zs)
  case Nil
  then show ?case by (cases zs) auto
next
  case (Cons y ys)
  then show ?case by (cases zs) auto
qed

lemma dlist_cong:
  assumes "dlist h hp xs"
    and "\<And>p. p \<in> set (hp # xs) \<Longrightarrow> nxt h' p = nxt h p \<and> prv h' p = prv h p"
  shows "dlist h' hp xs"
  using assms fpath_cong [of hp xs "nxt h'" "nxt h" hp] fpath_cong [of hp "rev xs" "prv h'" "prv h" hp]
  by (auto simp: dlist_def)

lemma dlist_distinct: "dlist h hp xs \<Longrightarrow> distinct xs \<and> hp \<notin> set xs"
  by (simp add: dlist_def)

lemma dlist_unique: "dlist h hp xs \<Longrightarrow> dlist h hp ys \<Longrightarrow> xs = ys"
  by (auto simp: dlist_def intro: fpath_det)

lemma dlist_Nil [simp]: "dlist h hp [] \<longleftrightarrow> nxt h hp = hp \<and> prv h hp = hp"
  by (auto simp: dlist_def)

lemma dlist_empty_iff: "dlist h hp xs \<Longrightarrow> list_empty hp h \<longleftrightarrow> xs = []"
  by (cases xs) (auto simp: dlist_def list_empty_def)

lemma dlist_first: "dlist h hp (x # xs) \<Longrightarrow> nxt h hp = x"
  by (simp add: dlist_def)

lemma dlist_last: "dlist h hp (xs @ [x]) \<Longrightarrow> prv h hp = x"
  by (simp add: dlist_def)

lemma dlist_nxt: "dlist h hp (as @ x # y # bs) \<Longrightarrow> nxt h x = y"
  by (simp add: dlist_def)

lemma dlist_nxt_last: "dlist h hp (as @ [x]) \<Longrightarrow> nxt h x = hp"
  by (simp add: dlist_def)

lemma dlist_prv: "dlist h hp (as @ x # y # bs) \<Longrightarrow> prv h y = x"
  by (simp add: dlist_def)

lemma dlist_prv_first: "dlist h hp (x # xs) \<Longrightarrow> prv h x = hp"
  by (simp add: dlist_def)

lemma dlist_nxt_head: "dlist h hp xs \<Longrightarrow> nxt h hp = List.hd (xs @ [hp])"
  by (cases xs) (auto simp: dlist_def)

lemma dlist_prv_head: "dlist h hp xs \<Longrightarrow> prv h hp = last (hp # xs)"
  by (cases xs rule: rev_cases) (auto simp: dlist_def)

lemma dlist_nxt_in: "dlist h hp xs \<Longrightarrow> p \<in> set (hp # xs) \<Longrightarrow> nxt h p \<in> set (hp # xs)"
proof -
  assume d: "dlist h hp xs" and p: "p \<in> set (hp # xs)"
  have "fpath f x ys z \<Longrightarrow> q \<in> set (x # ys) \<Longrightarrow> f q \<in> set (ys @ [z])" for f x ys z q
    by (induction ys arbitrary: x) auto
  from this [of "nxt h" hp xs hp p] d p show ?thesis by (auto simp: dlist_def)
qed

lemma dlist_prv_in: "dlist h hp xs \<Longrightarrow> p \<in> set (hp # xs) \<Longrightarrow> prv h p \<in> set (hp # xs)"
proof -
  assume d: "dlist h hp xs" and p: "p \<in> set (hp # xs)"
  have "fpath f x ys z \<Longrightarrow> q \<in> set (x # ys) \<Longrightarrow> f q \<in> set (ys @ [z])" for f x ys z q
    by (induction ys arbitrary: x) auto
  from this [of "prv h" hp "rev xs" hp p] d p show ?thesis by (auto simp: dlist_def)
qed

section \<open>What the operations do to the sequence\<close>

lemma dlist_add_between:
  assumes "dlist h hp (as @ bs)" and "new \<notin> set (hp # as @ bs)"
    and "p = last (hp # as)" and "q = List.hd (bs @ [hp])"
  shows "dlist (list_add_between new p q h) hp (as @ new # bs)"
proof (cases as rule: rev_cases)
  case Nil
  then show ?thesis
    using assms by (cases bs) (auto simp: dlist_def list_op_defs)
next
  case (snoc as' p')
  then show ?thesis
    using assms by (cases bs) (auto simp: dlist_def list_op_defs)
qed

lemma dlist_list_add:
  assumes "dlist h hp xs" and "x \<notin> set (hp # xs)"
  shows "dlist (list_add x hp h) hp (x # xs)"
proof -
  have "nxt h hp = List.hd (xs @ [hp])"
    using assms(1) by (rule dlist_nxt_head)
  then show ?thesis
    using dlist_add_between [of h hp "[]" xs x hp] assms by (simp add: list_add_def)
qed

lemma dlist_list_add_after:
  assumes "dlist h hp (as @ p # bs)" and "x \<notin> set (hp # as @ p # bs)"
  shows "dlist (list_add x p h) hp (as @ p # x # bs)"
proof -
  have "nxt h p = List.hd (bs @ [hp])"
    using assms(1) by (cases bs) (auto simp: dlist_def)
  then show ?thesis
    using dlist_add_between [of h hp "as @ [p]" bs x p] assms by (simp add: list_add_def)
qed

lemma dlist_list_add_tail:
  assumes "dlist h hp xs" and "x \<notin> set (hp # xs)"
  shows "dlist (list_add_tail x hp h) hp (xs @ [x])"
proof -
  have "prv h hp = last (hp # xs)"
    using assms(1) by (rule dlist_prv_head)
  then show ?thesis
    using dlist_add_between [of h hp xs "[]" x] assms by (simp add: list_add_tail_def)
qed

lemma dlist_list_add_before:
  assumes "dlist h hp (as @ q # bs)" and "x \<notin> set (hp # as @ q # bs)"
  shows "dlist (list_add_tail x q h) hp (as @ x # q # bs)"
proof -
  have "prv h q = last (hp # as)"
    using assms(1) by (cases as rule: rev_cases) (auto simp: dlist_def)
  then show ?thesis
    using dlist_add_between [of h hp as "q # bs" x] assms by (simp add: list_add_tail_def)
qed

lemma dlist_del_between:
  assumes "dlist h hp (as @ x # bs)"
  shows "dlist (list_del_between (prv h x) (nxt h x) h) hp (as @ bs)"
proof (cases as rule: rev_cases)
  case Nil
  then show ?thesis
    using assms by (cases bs) (auto simp: dlist_def list_op_defs)
next
  case (snoc as' p')
  then show ?thesis
    using assms by (cases bs) (auto simp: dlist_def list_op_defs)
qed

lemma dlist_touch_outside:
  assumes "dlist h hp xs" and "x \<notin> set (hp # xs)"
  shows "dlist (set_next x v h) hp xs" and "dlist (set_prev x v h) hp xs"
  using assms by (auto intro!: dlist_cong [OF assms(1)] simp: set_next_def set_prev_def)

lemma dlist_list_del:
  assumes "dlist h hp (as @ x # bs)"
  shows "dlist (list_del x h) hp (as @ bs)"
proof -
  have "x \<notin> set (hp # as @ bs)" using assms by (auto simp: dlist_def)
  then show ?thesis
    using dlist_del_between [OF assms] by (simp add: list_del_def Let_def dlist_touch_outside)
qed

lemma dlist_list_del_init:
  assumes "dlist h hp (as @ x # bs)"
  shows "dlist (list_del_init x h) hp (as @ bs)"
proof -
  have "x \<notin> set (hp # as @ bs)" using assms by (auto simp: dlist_def)
  then show ?thesis
    using dlist_del_between [OF assms]
    by (simp add: list_del_init_def INIT_LIST_HEAD_def dlist_touch_outside)
qed

lemma dlist_list_del_init_remove1:
  assumes "dlist h hp xs" and "x \<in> set xs"
  shows "dlist (list_del_init x h) hp (remove1 x xs)"
proof -
  obtain as bs where xs: "xs = as @ x # bs" and "x \<notin> set as"
    using split_list_first [OF assms(2)] by blast
  then show ?thesis
    using dlist_list_del_init assms(1) by (simp add: remove1_append_Cons_notin)
qed

lemma INIT_LIST_HEAD_dlist: "dlist (INIT_LIST_HEAD hp h) hp []"
  by (simp add: list_op_defs)

lemma list_del_init_self: "dlist (list_del_init x h) x []"
  by (simp add: list_del_init_def list_op_defs)

text \<open>\<open>list_move(x, p)\<close>: \<open>x\<close> leaves its place and goes right behind \<open>p\<close>.\<close>

lemma dlist_list_move_after:
  assumes "dlist h hp xs" and "x \<in> set xs" and "p \<in> set xs" and "p \<noteq> x"
    and "remove1 x xs = as @ p # bs"
  shows "dlist (list_move x p h) hp (as @ p # x # bs)"
proof -
  obtain cs ds where xs: "xs = cs @ x # ds" and n: "x \<notin> set cs"
    using split_list_first [OF assms(2)] by blast
  have "dlist (list_del_between (prv h x) (nxt h x) h) hp (cs @ ds)"
    using dlist_del_between assms(1) xs by simp
  moreover have "cs @ ds = as @ p # bs"
    using assms(5) xs n by (simp add: remove1_append_Cons_notin)
  moreover have "x \<notin> set (hp # cs @ ds)"
    using dlist_distinct [OF assms(1)] xs by auto
  ultimately show ?thesis
    unfolding list_move_def by (metis dlist_list_add_after)
qed

lemma dlist_list_move_tail:
  assumes "dlist h hp (as @ x # bs)"
  shows "dlist (list_move_tail x hp h) hp (as @ bs @ [x])"
proof -
  have "x \<notin> set (hp # as @ bs)" using assms by (auto simp: dlist_def)
  then show ?thesis
    using dlist_list_add_tail [OF dlist_del_between [OF assms]] by (simp add: list_move_tail_def)
qed

lemma dlist_list_rotate_left:
  assumes "dlist h hp xs"
  shows "dlist (list_rotate_left hp h) hp (rotate1 xs)"
proof (cases xs)
  case Nil
  then show ?thesis
    using assms dlist_empty_iff [OF assms] by (simp add: list_rotate_left_def)
next
  case (Cons x ys)
  then have "dlist h hp ([] @ x # ys)" using assms by simp
  from dlist_list_move_tail [OF this] show ?thesis
    using Cons assms dlist_empty_iff [OF assms] dlist_first
    by (simp add: list_rotate_left_def)
qed

lemma dlist_list_replace:
  assumes "dlist h hp (as @ old # bs)" and "new \<notin> set (hp # as @ old # bs)"
  shows "dlist (list_replace old new h) hp (as @ new # bs)"
proof (cases as rule: rev_cases)
  case Nil
  then show ?thesis
    using assms by (cases bs) (auto simp: dlist_def list_op_defs)
next
  case (snoc as' p')
  then show ?thesis
    using assms by (cases bs) (auto simp: dlist_def list_op_defs)
qed

lemma dlist_is_last:
  assumes "dlist h hp xs" and "x \<in> set xs"
  shows "list_is_last x hp h \<longleftrightarrow> last xs = x"
proof -
  obtain as bs where xs: "xs = as @ x # bs"
    using split_list [OF assms(2)] by blast
  show ?thesis
    using assms(1) xs by (cases bs) (auto simp: dlist_def list_is_last_def dest: last_in_set split: if_splits)
qed

lemma dlist_is_singular:
  assumes "dlist h hp xs"
  shows "list_is_singular hp h \<longleftrightarrow> length xs = 1"
proof (cases xs)
  case Nil
  then show ?thesis using assms by (simp add: list_is_singular_def list_empty_def)
next
  case (Cons x ys)
  then show ?thesis
    using assms by (cases ys rule: rev_cases) (auto simp: list_is_singular_def list_empty_def dlist_def)
qed

lemma fpath_redirect:
  "distinct (x # ys) \<Longrightarrow> fpath f x ys z \<Longrightarrow> fpath (f(last (x # ys) := w)) x ys w"
  by (induction ys arbitrary: x) auto

lemma fpath_append_iff:
  "fpath f x (as @ bs) z \<longleftrightarrow>
     fpath f x as (List.hd (bs @ [z])) \<and> (bs \<noteq> [] \<longrightarrow> fpath f (List.hd bs) (tl bs) z)"
  by (cases bs) auto

lemma fpath_splice:
  assumes "fpath f hp (as @ bs) hp" and "fpath f l ys l" and "ys \<noteq> []"
    and "distinct (hp # as @ bs)" and "distinct ys" and "set ys \<inter> set (hp # as @ bs) = {}"
  shows "fpath (f(last (hp # as) := List.hd ys, last ys := List.hd (bs @ [hp]))) hp (as @ ys @ bs) hp"
    (is "fpath ?g _ _ _")
proof -
  define p q where "p = last (hp # as)" and "q = last ys"
  obtain y ys' where ys: "ys = y # ys'" using assms(3) by (cases ys) auto
  have "p \<in> set (hp # as)" "q \<in> set ys"
    unfolding p_def q_def using assms(3) by (rule_tac last_in_set, simp)+
  then have p: "p \<notin> set (y # ys')" "p \<notin> set bs" "p \<noteq> q"
    and q: "q \<notin> set (hp # as)" "q \<notin> set bs"
    using assms(4,6) ys by auto
  have "fpath f hp as (List.hd (bs @ [hp]))"
    using assms(1) by (simp only: fpath_append_iff)
  then have "fpath (f(p := y)) hp as y"
    unfolding p_def using assms(4) by (intro fpath_redirect) auto
  then have 1: "fpath (f(p := y, q := List.hd (bs @ [hp]))) hp as y"
    by (simp only: fpath_upd [OF q(1)])
  have "fpath f y ys' l" using assms(2) ys by simp
  then have "fpath (f(q := List.hd (bs @ [hp]))) y ys' (List.hd (bs @ [hp]))"
    unfolding q_def ys using assms(5) ys by (intro fpath_redirect) auto
  then have 2: "fpath (f(p := y, q := List.hd (bs @ [hp]))) y ys' (List.hd (bs @ [hp]))"
    by (simp only: fun_upd_twist [OF p(3)] fpath_upd [OF p(1)])
  have "fpath f (List.hd bs) (tl bs) hp" if "bs \<noteq> []"
    using assms(1) that unfolding fpath_append_iff by blast
  then have 3: "fpath (f(p := y, q := List.hd (bs @ [hp]))) (List.hd bs) (tl bs) hp" if "bs \<noteq> []"
    using that p(2) q(2) by (cases bs) simp_all
  have "fpath (f(p := y, q := List.hd (bs @ [hp]))) y (ys' @ bs) hp"
    using 2 3 by (simp only: fpath_append_iff [of _ y]) blast
  then show ?thesis
    using 1 unfolding p_def [symmetric] q_def [symmetric] by (simp add: ys)
qed

lemma dlist_splice_between:
  assumes "dlist h l ys" and "ys \<noteq> []" and "dlist h hp (as @ bs)"
    and "set (l # ys) \<inter> set (hp # as @ bs) = {}"
    and "p = last (hp # as)" and "q = List.hd (bs @ [hp])"
  shows "dlist (list_splice_between l p q h) hp (as @ ys @ bs)"
proof -
  have first: "nxt h l = List.hd ys" and last: "prv h l = last ys"
    using dlist_nxt_head [OF assms(1)] dlist_prv_head [OF assms(1)] assms(2) by simp_all
  have p': "p = List.hd (rev as @ [hp])" and q': "q = last (hp # rev bs)"
    using assms(5,6) by (cases as rule: rev_cases; simp) (cases bs; simp add: assms)
  have "q \<in> set (bs @ [hp])"
    unfolding assms(6) by (rule hd_in_set) simp
  then have ne: "List.hd ys \<noteq> q"
    using assms(4) hd_in_set [OF assms(2)] by auto
  have nx: "nxt (list_splice_between l p q h) = (nxt h)(p := List.hd ys, last ys := q)"
    and pv: "prv (list_splice_between l p q h) = (prv h)(q := last ys, List.hd ys := p)"
    using first last fun_upd_twist [OF ne, of "prv h" p "last ys"]
    by (simp_all add: list_splice_between_def list_op_defs)
  have "fpath (nxt (list_splice_between l p q h)) hp (as @ ys @ bs) hp"
    unfolding nx unfolding assms(5,6)
    using assms(1-4) by (intro fpath_splice [where l = l]) (auto simp: dlist_def)
  moreover have "fpath (prv (list_splice_between l p q h)) hp (rev bs @ rev ys @ rev as) hp"
    unfolding pv
    using fpath_splice [of "prv h" hp "rev bs" "rev as" l "rev ys"] assms(1-4) p' q'
    by (simp add: dlist_def hd_rev last_rev Int_commute Un_commute disjoint_iff)
  ultimately show ?thesis
    using assms(1,3,4) by (auto simp: dlist_def)
qed

lemma dlist_list_splice:
  assumes "dlist h l ys" and "dlist h hp xs" and "set (l # ys) \<inter> set (hp # xs) = {}"
  shows "dlist (list_splice_init l hp h) hp (ys @ xs) \<and> dlist (list_splice_init l hp h) l []"
proof (cases "ys = []")
  case True
  then show ?thesis using assms by (simp add: list_splice_init_def list_empty_def)
next
  case False
  then have ne: "\<not> list_empty l h" using dlist_empty_iff [OF assms(1)] by simp
  have "nxt h hp = List.hd (xs @ [hp])"
    using assms(2) by (rule dlist_nxt_head)
  then have "dlist (list_splice_between l hp (nxt h hp) h) hp (ys @ xs)"
    using dlist_splice_between [OF assms(1) False, of hp "[]" xs] assms by simp
  then show ?thesis
    using ne assms dlist_distinct [OF assms(1)] INIT_LIST_HEAD_dlist
    by (simp add: list_splice_init_def INIT_LIST_HEAD_def dlist_touch_outside del: dlist_Nil)
qed

lemma dlist_list_splice_tail:
  assumes "dlist h l ys" and "dlist h hp xs" and "set (l # ys) \<inter> set (hp # xs) = {}"
  shows "dlist (list_splice_tail_init l hp h) hp (xs @ ys)
       \<and> dlist (list_splice_tail_init l hp h) l []"
proof (cases "ys = []")
  case True
  then show ?thesis using assms by (simp add: list_splice_tail_init_def list_empty_def)
next
  case False
  then have ne: "\<not> list_empty l h" using dlist_empty_iff [OF assms(1)] by simp
  have "prv h hp = last (hp # xs)"
    using assms(2) by (rule dlist_prv_head)
  then have "dlist (list_splice_between l (prv h hp) hp h) hp (xs @ ys)"
    using dlist_splice_between [OF assms(1) False, of hp xs "[]"] assms by simp
  then show ?thesis
    using ne assms dlist_distinct [OF assms(1)] INIT_LIST_HEAD_dlist
    by (simp add: list_splice_tail_init_def INIT_LIST_HEAD_def dlist_touch_outside del: dlist_Nil)
qed

lemma dlist_list_cut_position:
  assumes "dlist h hp (as @ e # bs)" and "l \<notin> set (hp # as @ e # bs)"
  shows "dlist (list_cut_position l hp e h) l (as @ [e]) \<and> dlist (list_cut_position l hp e h) hp bs"
proof -
  have "\<not> list_empty hp h" using dlist_empty_iff [OF assms(1)] by simp
  moreover have "\<not> (list_is_singular hp h \<and> nxt h hp \<noteq> e \<and> hp \<noteq> e)"
    using dlist_is_singular [OF assms(1)] assms(1) by (auto simp: dlist_def)
  moreover have "e \<noteq> hp" using assms(1) by (auto simp: dlist_def)
  ultimately have eq: "list_cut_position l hp e h = list_cut_between l hp e h"
    by (auto simp: list_cut_position_def)
  show ?thesis
    unfolding eq using assms
    by (cases as; cases bs) (auto simp: list_cut_between_def dlist_def list_op_defs)
qed

section \<open>Framing: other lists are untouched\<close>

lemma dlist_frame_add_between:
  assumes "dlist h hq ys" and "{new, p, q} \<inter> set (hq # ys) = {}"
  shows "dlist (list_add_between new p q h) hq ys"
  by (rule dlist_cong [OF assms(1)]) (use assms(2) in \<open>auto simp: list_op_defs\<close>)

lemma dlist_frame_list_add_tail:
  assumes "dlist h hq ys" and "dlist h hp xs" and "set (hp # xs) \<inter> set (hq # ys) = {}"
    and "x \<notin> set (hq # ys)"
  shows "dlist (list_add_tail x hp h) hq ys"
  using assms dlist_prv_in [OF assms(2), of hp]
  by (auto simp: list_add_tail_def intro!: dlist_frame_add_between)

lemma dlist_frame_list_add:
  assumes "dlist h hq ys" and "dlist h hp xs" and "set (hp # xs) \<inter> set (hq # ys) = {}"
    and "x \<notin> set (hq # ys)" and "p \<in> set (hp # xs)"
  shows "dlist (list_add x p h) hq ys"
  using assms dlist_nxt_in [OF assms(2,5)]
  by (auto simp: list_add_def intro!: dlist_frame_add_between)

lemma dlist_frame_del_between:
  assumes "dlist h hq ys" and "{p, q} \<inter> set (hq # ys) = {}"
  shows "dlist (list_del_between p q h) hq ys"
  by (rule dlist_cong [OF assms(1)]) (use assms(2) in \<open>auto simp: list_op_defs\<close>)

lemma dlist_frame_list_del_init:
  assumes "dlist h hq ys" and "dlist h hp xs" and "set (hp # xs) \<inter> set (hq # ys) = {}"
    and "x \<in> set xs"
  shows "dlist (list_del_init x h) hq ys"
proof -
  have *: "nxt h x \<in> set (hp # xs)" "prv h x \<in> set (hp # xs)"
    using dlist_nxt_in [OF assms(2)] dlist_prv_in [OF assms(2)] assms(4) by auto
  have "dlist (list_del_between (prv h x) (nxt h x) h) hq ys"
    using * assms by (intro dlist_frame_del_between) auto
  moreover have "x \<notin> set (hq # ys)"
    using assms(3,4) by auto
  ultimately show ?thesis
    by (simp add: list_del_init_def INIT_LIST_HEAD_def dlist_touch_outside)
qed

lemma dlist_frame_list_move:
  assumes "dlist h hq ys" and "dlist h hp xs" and "set (hp # xs) \<inter> set (hq # ys) = {}"
    and "x \<in> set xs" and "p \<in> set xs" and "p \<noteq> x"
  shows "dlist (list_move x p h) hq ys"
proof -
  let ?h = "list_del_between (prv h x) (nxt h x) h"
  have *: "nxt h x \<in> set (hp # xs)" "prv h x \<in> set (hp # xs)"
    using dlist_nxt_in [OF assms(2)] dlist_prv_in [OF assms(2)] assms(4) by auto
  have d: "dlist ?h hq ys"
    using * assms by (intro dlist_frame_del_between) auto
  obtain as bs where xs: "xs = as @ x # bs"
    using split_list [OF assms(4)] by blast
  have d': "dlist ?h hp (as @ bs)"
    using dlist_del_between assms(2) xs by simp
  show ?thesis
    unfolding list_move_def
    by (rule dlist_frame_list_add [OF d d']) (use assms xs in auto)
qed

text \<open>A list entry that is on no list is linked to itself; other operations leave it so.\<close>

lemma dlist_frame_self:
  assumes "dlist h hp xs" and "dlist h x []" and "x \<notin> set (hp # xs)" and "y \<in> set xs"
  shows "dlist (list_del_init y h) x []"
  by (rule dlist_frame_list_del_init [OF assms(2,1)]) (use assms in auto)

section \<open>The checked variants agree with the plain ones\<close>

lemma list_add_between_debug_snd [simp]:
  "snd (list_add_between_debug new p q h) = list_add_between new p q h"
  by (simp add: list_add_between_debug_def list_add_between_def)

lemma list_del_debug_snd [simp]: "snd (list_del_debug x h) = list_del x h"
  by (simp add: list_del_debug_def list_del_def)

lemma list_del_debug_silent:
  assumes "dlist h hp xs" and "x \<in> set xs"
  shows "fst (list_del_debug x h) = 0"
proof -
  obtain as bs where xs: "xs = as @ x # bs"
    using split_list [OF assms(2)] by blast
  show ?thesis
    using assms(1) xs
    by (cases as rule: rev_cases; cases bs) (auto simp: list_del_debug_def dlist_def)
qed

lemma list_add_tail_debug_silent:
  assumes "dlist h hp xs"
  shows "fst (list_add_between_debug x (prv h hp) hp h) = 0"
  using assms by (cases xs rule: rev_cases) (auto simp: list_add_between_debug_def dlist_def)

section \<open>The contract of a kernel list\<close>

locale kernel_list =
  fixes holds :: "'h \<Rightarrow> ptr \<Rightarrow> ptr list \<Rightarrow> bool"
    and add_tail :: "ptr \<Rightarrow> ptr \<Rightarrow> 'h \<Rightarrow> 'h"
    and del :: "ptr \<Rightarrow> 'h \<Rightarrow> 'h"
    and emptyp :: "ptr \<Rightarrow> 'h \<Rightarrow> bool"
    and first :: "ptr \<Rightarrow> 'h \<Rightarrow> ptr"
  assumes holds_distinct: "holds h p xs \<Longrightarrow> distinct (p # xs)"
    and holds_unique: "holds h p xs \<Longrightarrow> holds h p ys \<Longrightarrow> xs = ys"
    and holds_add_tail: "holds h p xs \<Longrightarrow> x \<notin> set (p # xs) \<Longrightarrow> holds (add_tail x p h) p (xs @ [x])"
    and holds_del: "holds h p xs \<Longrightarrow> x \<in> set xs \<Longrightarrow> holds (del x h) p (remove1 x xs)"
    and emptyp_iff: "holds h p xs \<Longrightarrow> emptyp p h \<longleftrightarrow> xs = []"
    and first_eq: "holds h p (x # xs) \<Longrightarrow> first p h = x"
    and frame_add_tail: "holds h q ys \<Longrightarrow> holds h p xs \<Longrightarrow> set (p # xs) \<inter> set (q # ys) = {} \<Longrightarrow>
        x \<notin> set (q # ys) \<Longrightarrow> holds (add_tail x p h) q ys"
    and frame_del: "holds h q ys \<Longrightarrow> holds h p xs \<Longrightarrow> set (p # xs) \<inter> set (q # ys) = {} \<Longrightarrow>
        x \<in> set xs \<Longrightarrow> holds (del x h) q ys"
begin

text \<open>Entries come out in the order in which they were queued.\<close>

lemma enqueue_all:
  "holds h p xs \<Longrightarrow> distinct ys \<Longrightarrow> set ys \<inter> set (p # xs) = {} \<Longrightarrow>
   holds (fold (\<lambda>y. add_tail y p) ys h) p (xs @ ys)"
proof (induction ys arbitrary: xs h)
  case Nil
  then show ?case by simp
next
  case (Cons y ys)
  have "holds (add_tail y p h) p (xs @ [y])"
    using Cons.prems by (intro holds_add_tail) auto
  then have "holds (fold (\<lambda>y. add_tail y p) ys (add_tail y p h)) p ((xs @ [y]) @ ys)"
    using Cons.prems by (intro Cons.IH) auto
  then show ?case by simp
qed

lemma pop_first: "holds h p (x # xs) \<Longrightarrow> first p h = x \<and> holds (del (first p h) h) p xs"
  using first_eq holds_del [of h p "x # xs" x] by auto

lemma dequeue_all:
  "holds h p (xs @ ys) \<Longrightarrow> holds (fold del xs h) p ys"
proof (induction xs arbitrary: h)
  case Nil
  then show ?case by simp
next
  case (Cons x xs)
  have "holds (del x h) p (remove1 x ((x # xs) @ ys))"
    using Cons.prems by (intro holds_del) auto
  then show ?case using Cons.IH by simp
qed

text \<open>Moving the first entry of one list to the tail of another.\<close>

lemma transfer_first:
  assumes "holds h p (x # xs)" and "holds h q ys"
    and "set (p # x # xs) \<inter> set (q # ys) = {}"
  shows "holds (add_tail x q (del x h)) p xs \<and> holds (add_tail x q (del x h)) q (ys @ [x])"
proof -
  have 1: "holds (del x h) p xs"
    using pop_first [OF assms(1)] by auto
  have 2: "holds (del x h) q ys"
    by (rule frame_del [OF assms(2,1)]) (use assms(3) in auto)
  have "x \<notin> set (p # xs)"
    using holds_distinct [OF assms(1)] by auto
  then show ?thesis
    using frame_add_tail [OF 1 2] holds_add_tail [OF 2] assms(3) by auto
qed

end

interpretation klist: kernel_list dlist list_add_tail list_del_init list_empty "\<lambda>p h. nxt h p"
proof unfold_locales
  show "distinct (p # xs)" if "dlist h p xs" for h p xs
    using that by (simp add: dlist_def)
  show "xs = ys" if "dlist h p xs" "dlist h p ys" for h p xs ys
    using that by (rule dlist_unique)
  show "dlist (list_add_tail x p h) p (xs @ [x])" if "dlist h p xs" "x \<notin> set (p # xs)" for h p xs x
    using that by (rule dlist_list_add_tail)
  show "dlist (list_del_init x h) p (remove1 x xs)" if "dlist h p xs" "x \<in> set xs" for h p xs x
    using that by (rule dlist_list_del_init_remove1)
  show "list_empty p h \<longleftrightarrow> xs = []" if "dlist h p xs" for h p xs
    using that by (rule dlist_empty_iff)
  show "nxt h p = x" if "dlist h p (x # xs)" for h p x xs
    using that by (rule dlist_first)
  show "dlist (list_add_tail x p h) q ys"
    if "dlist h q ys" "dlist h p xs" "set (p # xs) \<inter> set (q # ys) = {}" "x \<notin> set (q # ys)"
    for h p xs q ys x
    using that by (rule dlist_frame_list_add_tail)
  show "dlist (list_del_init x h) q ys"
    if "dlist h q ys" "dlist h p xs" "set (p # xs) \<inter> set (q # ys) = {}" "x \<in> set xs"
    for h p xs q ys x
    using that by (rule dlist_frame_list_del_init)
qed

section \<open>Properties of the list operations\<close>

text \<open>
  First in, first out: entries appended with \<open>list_add_tail\<close> are the tail of the list in that
  order, and unlinking the entries in front of them with \<open>list_del_init\<close> leaves exactly them.
\<close>

theorem list_fifo:
  assumes "dlist h hp xs" and "distinct ys" and "set ys \<inter> set (hp # xs) = {}"
  shows "dlist (fold (\<lambda>y. list_add_tail y hp) ys h) hp (xs @ ys) \<and>
    dlist (fold list_del_init xs (fold (\<lambda>y. list_add_tail y hp) ys h)) hp ys"
  using klist.enqueue_all [OF assms] klist.dequeue_all by blast

theorem list_fifo_witness:
  "dlist (fold (\<lambda>y. list_add_tail y 1) [2, 3] (INIT_LIST_HEAD 1 \<lparr>nxt = id, prv = id\<rparr>)) 1 [2, 3]"
  using list_fifo [OF INIT_LIST_HEAD_dlist, of "[2, 3]" 1 "\<lparr>nxt = id, prv = id\<rparr>"] by simp

text \<open>
  Cutting a list after an entry gives the two parts, on the two heads, and splicing the front
  part back at the head restores the list and leaves the other head empty.
\<close>

theorem list_cut_splice:
  assumes "dlist h hp (as @ e # bs)" and "l \<notin> set (hp # as @ e # bs)"
  shows "dlist (list_cut_position l hp e h) l (as @ [e]) \<and>
    dlist (list_cut_position l hp e h) hp bs \<and>
    dlist (list_splice_init l hp (list_cut_position l hp e h)) hp (as @ e # bs) \<and>
    dlist (list_splice_init l hp (list_cut_position l hp e h)) l []"
proof -
  have c: "dlist (list_cut_position l hp e h) l (as @ [e])" "dlist (list_cut_position l hp e h) hp bs"
    using dlist_list_cut_position [OF assms] by auto
  have "set (l # as @ [e]) \<inter> set (hp # bs) = {}"
    using assms dlist_distinct [OF assms(1)] by auto
  from dlist_list_splice [OF c this] show ?thesis
    using c by simp
qed

theorem list_cut_splice_witness:
  "dlist (list_splice_init 9 1 (list_cut_position 9 1 2
     (fold (\<lambda>y. list_add_tail y 1) [2, 3] (INIT_LIST_HEAD 1 \<lparr>nxt = id, prv = id\<rparr>)))) 1 [2, 3]"
proof -
  let ?h = "fold (\<lambda>y. list_add_tail y 1) [2, 3] (INIT_LIST_HEAD 1 \<lparr>nxt = id, prv = id\<rparr>)"
  have "dlist ?h 1 ([] @ 2 # [3])"
    using klist.enqueue_all [OF INIT_LIST_HEAD_dlist, of "[2, 3]" 1 "\<lparr>nxt = id, prv = id\<rparr>"] by simp
  from list_cut_splice [OF this, of 9] show ?thesis by simp
qed

end
