(* ===== verification/Rbtree.thy ===== *)
theory Rbtree
  imports Kernel_Prelude
begin

text \<open>
  Red-black trees, \<open>lib/rbtree.c\<close> and \<open>include/linux/rbtree.h\<close>: nodes on a heap with parent pointers, the
  colour packed into the low bit of the parent pointer.

  The operations are the C functions on a heap of nodes with one root.  A loop is a partial function, so
  that not returning is \<open>None\<close>, as is following a null pointer where the code does not test for it.
\<close>

section \<open>Nodes\<close>

definition RB_RED :: u32 where "RB_RED = 0"
definition RB_BLACK :: u32 where "RB_BLACK = 1"

record rb_node =
  rb_parent_color :: u32
  rb_right :: ptr
  rb_left :: ptr

record rb_tree =
  nodes :: "ptr \<Rightarrow> rb_node"
  rb_root :: ptr

definition rb_parent :: "rb_tree \<Rightarrow> ptr \<Rightarrow> ptr" where
  "rb_parent st r = unat (rb_parent_color (nodes st r) AND NOT 3)"

definition rb_color :: "rb_tree \<Rightarrow> ptr \<Rightarrow> u32" where
  "rb_color st r = rb_parent_color (nodes st r) AND 1"

definition rb_is_red :: "rb_tree \<Rightarrow> ptr \<Rightarrow> bool" where
  "rb_is_red st r \<longleftrightarrow> rb_color st r = 0"

definition rb_is_black :: "rb_tree \<Rightarrow> ptr \<Rightarrow> bool" where
  "rb_is_black st r \<longleftrightarrow> rb_color st r \<noteq> 0"

abbreviation left_of :: "rb_tree \<Rightarrow> ptr \<Rightarrow> ptr" where
  "left_of st x \<equiv> rb_left (nodes st x)"

abbreviation right_of :: "rb_tree \<Rightarrow> ptr \<Rightarrow> ptr" where
  "right_of st x \<equiv> rb_right (nodes st x)"

definition upd_node :: "ptr \<Rightarrow> (rb_node \<Rightarrow> rb_node) \<Rightarrow> rb_tree \<Rightarrow> rb_tree" where
  "upd_node x f st = st\<lparr>nodes := (nodes st)(x := f (nodes st x))\<rparr>"

definition rb_set_red :: "ptr \<Rightarrow> rb_tree \<Rightarrow> rb_tree" where
  "rb_set_red r = upd_node r (\<lambda>n. n\<lparr>rb_parent_color := rb_parent_color n AND NOT 1\<rparr>)"

definition rb_set_black :: "ptr \<Rightarrow> rb_tree \<Rightarrow> rb_tree" where
  "rb_set_black r = upd_node r (\<lambda>n. n\<lparr>rb_parent_color := rb_parent_color n OR 1\<rparr>)"

definition rb_set_parent :: "ptr \<Rightarrow> ptr \<Rightarrow> rb_tree \<Rightarrow> rb_tree" where
  "rb_set_parent rb p = upd_node rb (\<lambda>n. n\<lparr>rb_parent_color := (rb_parent_color n AND 3) OR of_nat p\<rparr>)"

definition rb_set_color :: "ptr \<Rightarrow> u32 \<Rightarrow> rb_tree \<Rightarrow> rb_tree" where
  "rb_set_color rb c = upd_node rb (\<lambda>n. n\<lparr>rb_parent_color := (rb_parent_color n AND NOT 1) OR c\<rparr>)"

definition set_left :: "ptr \<Rightarrow> ptr \<Rightarrow> rb_tree \<Rightarrow> rb_tree" where
  "set_left x p = upd_node x (\<lambda>n. n\<lparr>rb_left := p\<rparr>)"

definition set_right :: "ptr \<Rightarrow> ptr \<Rightarrow> rb_tree \<Rightarrow> rb_tree" where
  "set_right x p = upd_node x (\<lambda>n. n\<lparr>rb_right := p\<rparr>)"

definition RB_EMPTY_ROOT :: "rb_tree \<Rightarrow> bool" where
  "RB_EMPTY_ROOT st \<longleftrightarrow> rb_root st = NULL"

definition RB_EMPTY_NODE :: "rb_tree \<Rightarrow> ptr \<Rightarrow> bool" where
  "RB_EMPTY_NODE st node \<longleftrightarrow> rb_parent st node = node"

definition RB_CLEAR_NODE :: "ptr \<Rightarrow> rb_tree \<Rightarrow> rb_tree" where
  "RB_CLEAR_NODE node = rb_set_parent node node"

text \<open>The pointer \<open>rb_link\<close> points to: the root or a child field.\<close>

datatype rb_link = Root_Link | Left_Link ptr | Right_Link ptr

fun write_link :: "rb_link \<Rightarrow> ptr \<Rightarrow> rb_tree \<Rightarrow> rb_tree" where
  "write_link Root_Link p st = st\<lparr>rb_root := p\<rparr>"
| "write_link (Left_Link x) p st = set_left x p st"
| "write_link (Right_Link x) p st = set_right x p st"

definition rb_link_node :: "ptr \<Rightarrow> ptr \<Rightarrow> rb_link \<Rightarrow> rb_tree \<Rightarrow> rb_tree" where
  "rb_link_node node parent link st =
     write_link link node
       (upd_node node (\<lambda>_. \<lparr>rb_parent_color = of_nat parent, rb_right = NULL, rb_left = NULL\<rparr>) st)"

section \<open>Rotations\<close>

definition rb_rotate_left :: "ptr \<Rightarrow> rb_tree \<Rightarrow> rb_tree" where
  "rb_rotate_left node st =
     (let right = right_of st node;
          parent = rb_parent st node;
          st = set_right node (left_of st right) st;
          st = (if right_of st node \<noteq> NULL then rb_set_parent (left_of st right) node st else st);
          st = set_left right node st;
          st = rb_set_parent right parent st;
          st = (if parent \<noteq> NULL
                then if node = left_of st parent then set_left parent right st else set_right parent right st
                else st\<lparr>rb_root := right\<rparr>)
      in rb_set_parent node right st)"

definition rb_rotate_right :: "ptr \<Rightarrow> rb_tree \<Rightarrow> rb_tree" where
  "rb_rotate_right node st =
     (let left = left_of st node;
          parent = rb_parent st node;
          st = set_left node (right_of st left) st;
          st = (if left_of st node \<noteq> NULL then rb_set_parent (right_of st left) node st else st);
          st = set_right left node st;
          st = rb_set_parent left parent st;
          st = (if parent \<noteq> NULL
                then if node = right_of st parent then set_right parent left st else set_left parent left st
                else st\<lparr>rb_root := left\<rparr>)
      in rb_set_parent node left st)"

section \<open>Insertion\<close>

partial_function (option) rb_insert_loop :: "ptr \<Rightarrow> rb_tree \<Rightarrow> rb_tree option" where
  "rb_insert_loop node st =
     (let parent = rb_parent st node in
      if parent = NULL \<or> \<not> rb_is_red st parent then Some st
      else
        let gparent = rb_parent st parent in
        if gparent = NULL then None
        else if parent = left_of st gparent then
          let uncle = right_of st gparent in
          if uncle \<noteq> NULL \<and> rb_is_red st uncle then
            rb_insert_loop gparent (rb_set_red gparent (rb_set_black parent (rb_set_black uncle st)))
          else
            let (node, parent, st) =
                  (if right_of st parent = node then (parent, node, rb_rotate_left parent st) else (node, parent, st))
            in rb_insert_loop node (rb_rotate_right gparent (rb_set_red gparent (rb_set_black parent st)))
        else
          let uncle = left_of st gparent in
          if uncle \<noteq> NULL \<and> rb_is_red st uncle then
            rb_insert_loop gparent (rb_set_red gparent (rb_set_black parent (rb_set_black uncle st)))
          else
            let (node, parent, st) =
                  (if left_of st parent = node then (parent, node, rb_rotate_right parent st) else (node, parent, st))
            in rb_insert_loop node (rb_rotate_left gparent (rb_set_red gparent (rb_set_black parent st))))"

definition rb_insert_color :: "ptr \<Rightarrow> rb_tree \<Rightarrow> rb_tree option" where
  "rb_insert_color node st = map_option (\<lambda>st. rb_set_black (rb_root st) st) (rb_insert_loop node st)"

section \<open>Deletion\<close>

definition black_or_null :: "rb_tree \<Rightarrow> ptr \<Rightarrow> bool" where
  "black_or_null st x \<longleftrightarrow> x = NULL \<or> rb_is_black st x"

text \<open>
  The body of the loop of \<open>__rb_erase_color\<close> for a node that is a left or a right child: the case of a red sibling,
  and the case of a black one, whose result tells whether the loop goes on at the parent.
\<close>

definition erase_red_left :: "ptr \<Rightarrow> ptr \<Rightarrow> rb_tree \<Rightarrow> ptr \<times> rb_tree" where
  "erase_red_left parent other st =
     (if rb_is_red st other
      then let st = rb_rotate_left parent (rb_set_red parent (rb_set_black other st)) in (right_of st parent, st)
      else (other, st))"

definition erase_black_left :: "ptr \<Rightarrow> ptr \<Rightarrow> rb_tree \<Rightarrow> bool \<times> rb_tree" where
  "erase_black_left parent other st =
     (if black_or_null st (left_of st other) \<and> black_or_null st (right_of st other) then (True, rb_set_red other st)
      else
        let (other, st) =
              (if black_or_null st (right_of st other)
               then let st = rb_rotate_right other (rb_set_red other (rb_set_black (left_of st other) st))
                    in (right_of st parent, st)
               else (other, st));
            st = rb_set_color other (rb_color st parent) st;
            st = rb_set_black parent st;
            st = rb_set_black (right_of st other) st
        in (False, rb_rotate_left parent st))"

definition erase_red_right :: "ptr \<Rightarrow> ptr \<Rightarrow> rb_tree \<Rightarrow> ptr \<times> rb_tree" where
  "erase_red_right parent other st =
     (if rb_is_red st other
      then let st = rb_rotate_right parent (rb_set_red parent (rb_set_black other st)) in (left_of st parent, st)
      else (other, st))"

definition erase_black_right :: "ptr \<Rightarrow> ptr \<Rightarrow> rb_tree \<Rightarrow> bool \<times> rb_tree" where
  "erase_black_right parent other st =
     (if black_or_null st (left_of st other) \<and> black_or_null st (right_of st other) then (True, rb_set_red other st)
      else
        let (other, st) =
              (if black_or_null st (left_of st other)
               then let st = rb_rotate_left other (rb_set_red other (rb_set_black (right_of st other) st))
                    in (left_of st parent, st)
               else (other, st));
            st = rb_set_color other (rb_color st parent) st;
            st = rb_set_black parent st;
            st = rb_set_black (left_of st other) st
        in (False, rb_rotate_right parent st))"

text \<open>The loop; the result is the node it ends with.\<close>

partial_function (option) rb_erase_loop :: "ptr \<Rightarrow> ptr \<Rightarrow> rb_tree \<Rightarrow> (ptr \<times> rb_tree) option" where
  "rb_erase_loop node parent st =
     (if \<not> (black_or_null st node \<and> node \<noteq> rb_root st) then Some (node, st)
      else if parent = NULL then None
      else if left_of st parent = node then
        if right_of st parent = NULL then None
        else
          let (other, st) = erase_red_left parent (right_of st parent) st in
          if other = NULL then None
          else
            let (again, st) = erase_black_left parent other st
            in if again then rb_erase_loop parent (rb_parent st parent) st else Some (rb_root st, st)
      else
        if left_of st parent = NULL then None
        else
          let (other, st) = erase_red_right parent (left_of st parent) st in
          if other = NULL then None
          else
            let (again, st) = erase_black_right parent other st
            in if again then rb_erase_loop parent (rb_parent st parent) st else Some (rb_root st, st))"

definition rb_erase_color :: "ptr \<Rightarrow> ptr \<Rightarrow> rb_tree \<Rightarrow> rb_tree option" where
  "rb_erase_color node parent st =
     map_option (\<lambda>(node, st). if node \<noteq> NULL then rb_set_black node st else st) (rb_erase_loop node parent st)"

partial_function (option) leftmost :: "rb_tree \<Rightarrow> ptr \<Rightarrow> ptr option" where
  "leftmost st n = (if left_of st n = NULL then Some n else leftmost st (left_of st n))"

partial_function (option) rightmost :: "rb_tree \<Rightarrow> ptr \<Rightarrow> ptr option" where
  "rightmost st n = (if right_of st n = NULL then Some n else rightmost st (right_of st n))"

text \<open>The two ways \<open>rb_erase\<close> takes a node out: the child, its parent and the colour that is gone.\<close>

definition rb_unlink :: "ptr \<Rightarrow> ptr \<Rightarrow> rb_tree \<Rightarrow> ptr \<times> ptr \<times> u32 \<times> rb_tree" where
  "rb_unlink node child st =
     (let parent = rb_parent st node;
          color = rb_color st node;
          st = (if child \<noteq> NULL then rb_set_parent child parent st else st);
          st = (if parent \<noteq> NULL
                then if left_of st parent = node then set_left parent child st else set_right parent child st
                else st\<lparr>rb_root := child\<rparr>)
      in (child, parent, color, st))"

definition rb_splice :: "ptr \<Rightarrow> ptr \<Rightarrow> rb_tree \<Rightarrow> ptr \<times> ptr \<times> u32 \<times> rb_tree" where
  "rb_splice old node st =
     (let st = (if rb_parent st old \<noteq> NULL
                then if left_of st (rb_parent st old) = old then set_left (rb_parent st old) node st
                     else set_right (rb_parent st old) node st
                else st\<lparr>rb_root := node\<rparr>);
          child = right_of st node;
          parent = rb_parent st node;
          color = rb_color st node;
          (parent, st) =
            (if parent = old then (node, st)
             else
               let st = (if child \<noteq> NULL then rb_set_parent child parent st else st);
                   st = set_left parent child st;
                   st = set_right node (right_of st old) st;
                   st = rb_set_parent (right_of st old) node st
               in (parent, st));
          st = upd_node node (\<lambda>n. n\<lparr>rb_parent_color := rb_parent_color (nodes st old)\<rparr>) st;
          st = set_left node (left_of st old) st;
          st = rb_set_parent (left_of st old) node st
      in (child, parent, color, st))"

definition rb_erase :: "ptr \<Rightarrow> rb_tree \<Rightarrow> rb_tree option" where
  "rb_erase node st =
     Option.bind
       (if left_of st node = NULL then Some (rb_unlink node (right_of st node) st)
        else if right_of st node = NULL then Some (rb_unlink node (left_of st node) st)
        else map_option (\<lambda>m. rb_splice node m st) (leftmost st (right_of st node)))
       (\<lambda>(child, parent, color, st).
          if color = RB_BLACK then rb_erase_color child parent st else Some st)"

section \<open>Traversal\<close>

definition rb_first :: "rb_tree \<Rightarrow> ptr option" where
  "rb_first st = (if rb_root st = NULL then Some NULL else leftmost st (rb_root st))"

definition rb_last :: "rb_tree \<Rightarrow> ptr option" where
  "rb_last st = (if rb_root st = NULL then Some NULL else rightmost st (rb_root st))"

partial_function (option) climb_right :: "rb_tree \<Rightarrow> ptr \<Rightarrow> ptr option" where
  "climb_right st node =
     (let parent = rb_parent st node
      in if parent \<noteq> NULL \<and> node = right_of st parent then climb_right st parent else Some parent)"

partial_function (option) climb_left :: "rb_tree \<Rightarrow> ptr \<Rightarrow> ptr option" where
  "climb_left st node =
     (let parent = rb_parent st node
      in if parent \<noteq> NULL \<and> node = left_of st parent then climb_left st parent else Some parent)"

definition rb_next :: "rb_tree \<Rightarrow> ptr \<Rightarrow> ptr option" where
  "rb_next st node =
     (if rb_parent st node = node then Some NULL
      else if right_of st node \<noteq> NULL then leftmost st (right_of st node)
      else climb_right st node)"

definition rb_prev :: "rb_tree \<Rightarrow> ptr \<Rightarrow> ptr option" where
  "rb_prev st node =
     (if rb_parent st node = node then Some NULL
      else if left_of st node \<noteq> NULL then rightmost st (left_of st node)
      else climb_left st node)"

definition rb_replace_node :: "ptr \<Rightarrow> ptr \<Rightarrow> rb_tree \<Rightarrow> rb_tree" where
  "rb_replace_node victim new st =
     (let parent = rb_parent st victim;
          st = (if parent \<noteq> NULL
                then if victim = left_of st parent then set_left parent new st else set_right parent new st
                else st\<lparr>rb_root := new\<rparr>);
          st = (if left_of st victim \<noteq> NULL then rb_set_parent (left_of st victim) new st else st);
          st = (if right_of st victim \<noteq> NULL then rb_set_parent (right_of st victim) new st else st)
      in upd_node new (\<lambda>_. nodes st victim) st)"

section \<open>Augmented trees\<close>

text \<open>\<open>func\<close> is the callback on the data of the caller.\<close>

partial_function (option) rb_augment_path ::
    "rb_tree \<Rightarrow> (ptr \<Rightarrow> 'd \<Rightarrow> 'd) \<Rightarrow> ptr \<Rightarrow> 'd \<Rightarrow> 'd option" where
  "rb_augment_path st func node data =
     (let data = func node data;
          parent = rb_parent st node in
      if parent = NULL then Some data
      else rb_augment_path st func parent
        (if node = left_of st parent \<and> right_of st parent \<noteq> NULL then func (right_of st parent) data
         else if left_of st parent \<noteq> NULL then func (left_of st parent) data
         else data))"

definition rb_augment_insert :: "rb_tree \<Rightarrow> (ptr \<Rightarrow> 'd \<Rightarrow> 'd) \<Rightarrow> ptr \<Rightarrow> 'd \<Rightarrow> 'd option" where
  "rb_augment_insert st func node data =
     rb_augment_path st func
       (if left_of st node \<noteq> NULL then left_of st node
        else if right_of st node \<noteq> NULL then right_of st node else node) data"

definition rb_augment_erase_begin :: "rb_tree \<Rightarrow> ptr \<Rightarrow> ptr option" where
  "rb_augment_erase_begin st node =
     (if right_of st node = NULL \<and> left_of st node = NULL then Some (rb_parent st node)
      else if right_of st node = NULL then Some (left_of st node)
      else if left_of st node = NULL then Some (right_of st node)
      else map_option (\<lambda>deepest.
        if right_of st deepest \<noteq> NULL then right_of st deepest
        else if rb_parent st deepest \<noteq> node then rb_parent st deepest
        else deepest) (rb_next st node))"

definition rb_augment_erase_end :: "rb_tree \<Rightarrow> (ptr \<Rightarrow> 'd \<Rightarrow> 'd) \<Rightarrow> ptr \<Rightarrow> 'd \<Rightarrow> 'd option" where
  "rb_augment_erase_end st func node data =
     (if node \<noteq> NULL then rb_augment_path st func node data else Some data)"

section \<open>Reading and writing nodes\<close>

text \<open>Nodes are aligned, so that the two low bits of a pointer are free.\<close>

definition ptr_al :: "ptr \<Rightarrow> bool" where
  "ptr_al p \<longleftrightarrow> 4 dvd p \<and> p < 2 ^ 32"

definition node_ok :: "ptr \<Rightarrow> bool" where
  "node_ok x \<longleftrightarrow> x \<noteq> NULL \<and> ptr_al x"

lemma node_ok_al [simp]: "node_ok x \<Longrightarrow> ptr_al x"
  by (simp add: node_ok_def)

lemma ptr_al_0 [simp]: "ptr_al 0"
  by (simp add: ptr_al_def)

lemma node_ok_not_null [simp]: "\<not> node_ok 0"
  by (simp add: node_ok_def)

lemma node_ok_pos [simp]: "node_ok x \<Longrightarrow> 0 < x" "node_ok x \<Longrightarrow> x \<noteq> 0"
  by (simp_all add: node_ok_def)

lemma bit_1_u32: "bit (1 :: u32) n \<longleftrightarrow> n = 0"
  by (simp add: bit_1_iff)

lemma bit_3_u32: "bit (3 :: u32) n \<longleftrightarrow> n < 2"
proof -
  have m: "(3 :: u32) = mask 2" by (simp add: mask_eq_exp_minus_1)
  show ?thesis unfolding m bit_mask_iff by auto
qed

lemma unat_of_nat_al: "ptr_al p \<Longrightarrow> unat (of_nat p :: u32) = p"
  by (simp add: ptr_al_def unat_of_nat take_bit_nat_eq_self)

lemma bit_of_nat_al: "ptr_al p \<Longrightarrow> n < 2 \<Longrightarrow> \<not> bit (of_nat p :: u32) n"
proof -
  assume "ptr_al p" "n < 2"
  then obtain q where q: "p = 4 * q" by (auto simp: ptr_al_def)
  have "(of_nat p :: u32) = push_bit 2 (of_nat q)" by (simp add: q push_bit_eq_mult)
  then show ?thesis using \<open>n < 2\<close> by (simp add: bit_push_bit_iff)
qed

text \<open>The masks as words with these bits, before simplification turns their complements into numerals.\<close>

lemma pack_gen:
  fixes c d m k :: u32
  assumes m: "\<And>n. bit m n \<longleftrightarrow> n < 2" and k: "\<And>n. bit k n \<longleftrightarrow> n = 0"
  shows "ptr_al p \<Longrightarrow> ((c AND m) OR of_nat p) AND NOT m = of_nat p"
    and "ptr_al p \<Longrightarrow> ((c AND m) OR of_nat p) AND k = c AND k"
    and "(c AND NOT k) AND NOT m = c AND NOT m" and "(c OR k) AND NOT m = c AND NOT m"
    and "(c AND NOT k) AND k = 0" and "(c OR k) AND k = k" and "((c AND NOT k) OR k) AND NOT m = c AND NOT m"
    and "((c AND NOT k) OR k) AND k = k"
  by (rule bit_eqI; auto simp: bit_and_iff bit_or_iff bit_not_iff m k dest: bit_of_nat_al bit_of_nat_al [of p 0, simplified])+

lemmas pack = pack_gen [OF bit_3_u32 bit_1_u32]

lemma fresh_node: "ptr_al p \<Longrightarrow> (of_nat p :: u32) AND NOT 3 = of_nat p" "ptr_al p \<Longrightarrow> (of_nat p :: u32) AND 1 = 0"
  using pack(1,2) [of p 0] by simp_all

named_theorems rb_access \<open>reading a field after a write\<close>

lemma nodes_upd [rb_access]: "nodes (upd_node x f st) y = (if y = x then f (nodes st x) else nodes st y)"
  by (simp add: upd_node_def)

lemma root_upd [rb_access]: "rb_root (upd_node x f st) = rb_root st"
  by (simp add: upd_node_def)

lemma access_set_parent [rb_access]:
  "ptr_al p \<Longrightarrow> rb_parent (rb_set_parent x p st) y = (if y = x then p else rb_parent st y)"
  "ptr_al p \<Longrightarrow> rb_is_red (rb_set_parent x p st) y = rb_is_red st y"
  "left_of (rb_set_parent x p st) y = left_of st y" "right_of (rb_set_parent x p st) y = right_of st y"
  "rb_root (rb_set_parent x p st) = rb_root st"
  by (simp_all add: rb_set_parent_def rb_parent_def rb_is_red_def rb_color_def nodes_upd root_upd
      pack [simplified] unat_of_nat_al)

lemma access_set_red [rb_access]:
  "rb_parent (rb_set_red x st) y = rb_parent st y" "rb_is_red (rb_set_red x st) y = (y = x \<or> rb_is_red st y)"
  "left_of (rb_set_red x st) y = left_of st y" "right_of (rb_set_red x st) y = right_of st y"
  "rb_root (rb_set_red x st) = rb_root st"
  by (simp_all add: rb_set_red_def rb_parent_def rb_is_red_def rb_color_def nodes_upd root_upd
      pack [simplified])

lemma access_set_black [rb_access]:
  "rb_parent (rb_set_black x st) y = rb_parent st y" "rb_is_red (rb_set_black x st) y = (y \<noteq> x \<and> rb_is_red st y)"
  "left_of (rb_set_black x st) y = left_of st y" "right_of (rb_set_black x st) y = right_of st y"
  "rb_root (rb_set_black x st) = rb_root st"
  by (simp_all add: rb_set_black_def rb_parent_def rb_is_red_def rb_color_def nodes_upd root_upd
      pack [simplified])

lemma color_cases: "rb_color st x = 0 \<or> rb_color st x = 1"
  unfolding rb_color_def using and_push_bit_1 [of "rb_parent_color (nodes st x)" 0] by (simp split: if_splits)

lemma access_set_color [rb_access]:
  "rb_parent (rb_set_color x (rb_color st' z) st) y = rb_parent st y"
  "rb_is_red (rb_set_color x (rb_color st' z) st) y = (if y = x then rb_is_red st' z else rb_is_red st y)"
  "left_of (rb_set_color x c st) y = left_of st y" "right_of (rb_set_color x c st) y = right_of st y"
  "rb_root (rb_set_color x c st) = rb_root st"
  using color_cases [of st' z]
  by (auto simp: rb_set_color_def rb_parent_def rb_is_red_def rb_color_def [of "upd_node _ _ _"] nodes_upd root_upd
      pack [simplified]) (auto simp: rb_color_def)

lemma access_set_left [rb_access]:
  "rb_parent (set_left x p st) y = rb_parent st y" "rb_is_red (set_left x p st) y = rb_is_red st y"
  "left_of (set_left x p st) y = (if y = x then p else left_of st y)" "right_of (set_left x p st) y = right_of st y"
  "rb_root (set_left x p st) = rb_root st"
  by (simp_all add: set_left_def rb_parent_def rb_is_red_def rb_color_def nodes_upd root_upd)

lemma access_set_right [rb_access]:
  "rb_parent (set_right x p st) y = rb_parent st y" "rb_is_red (set_right x p st) y = rb_is_red st y"
  "left_of (set_right x p st) y = left_of st y" "right_of (set_right x p st) y = (if y = x then p else right_of st y)"
  "rb_root (set_right x p st) = rb_root st"
  by (simp_all add: set_right_def rb_parent_def rb_is_red_def rb_color_def nodes_upd root_upd)

lemma access_root [rb_access]:
  "rb_parent (st\<lparr>rb_root := p\<rparr>) y = rb_parent st y" "rb_is_red (st\<lparr>rb_root := p\<rparr>) y = rb_is_red st y"
  "left_of (st\<lparr>rb_root := p\<rparr>) y = left_of st y" "right_of (st\<lparr>rb_root := p\<rparr>) y = right_of st y"
  by (simp_all add: rb_parent_def rb_is_red_def rb_color_def)

lemma node_frame:
  "y \<noteq> x \<Longrightarrow> nodes (rb_set_red x st) y = nodes st y" "y \<noteq> x \<Longrightarrow> nodes (rb_set_black x st) y = nodes st y"
  "y \<noteq> x \<Longrightarrow> nodes (rb_set_color x c st) y = nodes st y" "y \<noteq> x \<Longrightarrow> nodes (rb_set_parent x p st) y = nodes st y"
  "y \<noteq> x \<Longrightarrow> nodes (set_left x p st) y = nodes st y" "y \<noteq> x \<Longrightarrow> nodes (set_right x p st) y = nodes st y"
  by (simp_all add: rb_set_red_def rb_set_black_def rb_set_color_def rb_set_parent_def set_left_def set_right_def nodes_upd)

lemma red_black: "rb_is_black st x = (\<not> rb_is_red st x)"
  by (simp add: rb_is_black_def rb_is_red_def)

lemma ptr_al_parent: "ptr_al (rb_parent st x)"
proof -
  define w where "w = rb_parent_color (nodes st x) AND NOT 3"
  have "take_bit 2 w = 0"
  proof (rule bit_eqI)
    fix n
    show "bit (take_bit 2 w) n \<longleftrightarrow> bit (0 :: u32) n"
      unfolding w_def bit_take_bit_iff bit_and_iff bit_not_iff bit_3_u32 by simp
  qed
  then have "take_bit 2 (unat w) = 0" by (metis unsigned_0 unsigned_take_bit_eq)
  then have "4 dvd unat w" by (simp add: take_bit_eq_mod mod_eq_0_iff_dvd)
  then show ?thesis
    using unsigned_less [of w, where ?'a = nat] by (simp add: ptr_al_def rb_parent_def w_def)
qed

section \<open>Trees and contexts\<close>

datatype rb_colour = Red | Black

datatype rbt = Leaf | Node rbt ptr rb_colour rbt

text \<open>A tree with a hole: the path from the hole up to the root.\<close>

datatype ctx = Top | InL ctx ptr rb_colour rbt | InR ctx rbt ptr rb_colour

fun inorder :: "rbt \<Rightarrow> ptr list" where
  "inorder Leaf = []"
| "inorder (Node l x c r) = inorder l @ x # inorder r"

fun fill :: "ctx \<Rightarrow> rbt \<Rightarrow> rbt" where
  "fill Top t = t"
| "fill (InL K x c r) t = fill K (Node t x c r)"
| "fill (InR K l x c) t = fill K (Node l x c t)"

fun ctx_list :: "ctx \<Rightarrow> ptr list" where
  "ctx_list Top = []"
| "ctx_list (InL K x c r) = x # inorder r @ ctx_list K"
| "ctx_list (InR K l x c) = x # inorder l @ ctx_list K"

fun tree_at :: "rb_tree \<Rightarrow> ptr \<Rightarrow> ptr \<Rightarrow> rbt \<Rightarrow> bool" where
  "tree_at st p pr Leaf \<longleftrightarrow> p = NULL"
| "tree_at st p pr (Node l x c r) \<longleftrightarrow> p = x \<and> node_ok x \<and> rb_parent st x = pr \<and> rb_is_red st x = (c = Red) \<and>
     tree_at st (left_of st x) x l \<and> tree_at st (right_of st x) x r"

fun ctx_at :: "rb_tree \<Rightarrow> ptr \<Rightarrow> ptr \<Rightarrow> ctx \<Rightarrow> bool" where
  "ctx_at st p pr Top \<longleftrightarrow> rb_root st = p \<and> pr = NULL"
| "ctx_at st p pr (InL K x c r) \<longleftrightarrow> pr = x \<and> node_ok x \<and> left_of st x = p \<and> rb_is_red st x = (c = Red) \<and>
     tree_at st (right_of st x) x r \<and> ctx_at st x (rb_parent st x) K"
| "ctx_at st p pr (InR K l x c) \<longleftrightarrow> pr = x \<and> node_ok x \<and> right_of st x = p \<and> rb_is_red st x = (c = Red) \<and>
     tree_at st (left_of st x) x l \<and> ctx_at st x (rb_parent st x) K"

lemma fill_at: "tree_at st (rb_root st) NULL (fill K t) \<longleftrightarrow> (\<exists>p pr. ctx_at st p pr K \<and> tree_at st p pr t)"
  by (induction K arbitrary: t) auto

lemma mset_fill: "mset (inorder (fill K t)) = mset (inorder t) + mset (ctx_list K)"
  by (induction K arbitrary: t) auto

lemma set_fill: "set (inorder (fill K t)) = set (inorder t) \<union> set (ctx_list K)"
  by (metis mset_fill set_mset_mset set_mset_union)

lemma distinct_fill: "distinct (inorder (fill K t)) \<longleftrightarrow> distinct (inorder t @ ctx_list K)"
  by (metis distinct_count_atmost_1 mset_append mset_fill set_append set_fill)

text \<open>Two states agree on a node.\<close>

definition agree :: "rb_tree \<Rightarrow> rb_tree \<Rightarrow> ptr \<Rightarrow> bool" where
  "agree st st' z \<longleftrightarrow> rb_parent st' z = rb_parent st z \<and> rb_is_red st' z = rb_is_red st z \<and>
     left_of st' z = left_of st z \<and> right_of st' z = right_of st z"

lemma agree_refl [simp]: "agree st st z"
  by (simp add: agree_def)

lemma tree_at_agree:
  assumes "tree_at st p pr t" "\<And>z. z \<in> set (inorder t) \<Longrightarrow> agree st st' z"
  shows "tree_at st' p pr t"
  using assms by (induction t arbitrary: p pr) (auto simp: agree_def)

lemma ctx_at_agree:
  assumes "ctx_at st p pr K" "\<And>z. z \<in> set (ctx_list K) \<Longrightarrow> agree st st' z" "rb_root st' = rb_root st"
  shows "ctx_at st' p pr K"
  using assms
proof (induction K arbitrary: p pr)
  case (InL K x c r)
  have "tree_at st' (right_of st x) x r" by (rule tree_at_agree [of st]) (use InL.prems in simp_all)
  moreover have "ctx_at st' x (rb_parent st x) K" by (rule InL.IH) (use InL.prems in simp_all)
  moreover have "agree st st' x" by (rule InL.prems(2)) simp
  ultimately show ?case using InL.prems(1) by (simp add: agree_def)
next
  case (InR K l x c)
  have "tree_at st' (left_of st x) x l" by (rule tree_at_agree [of st]) (use InR.prems in simp_all)
  moreover have "ctx_at st' x (rb_parent st x) K" by (rule InR.IH) (use InR.prems in simp_all)
  moreover have "agree st st' x" by (rule InR.prems(2)) simp
  ultimately show ?case using InR.prems(1) by (simp add: agree_def)
qed simp

lemma tree_at_root: "tree_at st p pr t \<Longrightarrow> p = NULL \<longleftrightarrow> t = Leaf" "tree_at st p pr t \<Longrightarrow> p \<noteq> NULL \<Longrightarrow> p \<in> set (inorder t)"
  by (cases t; auto)+

lemma tree_at_al: "tree_at st p pr t \<Longrightarrow> ptr_al p"
  by (cases t) auto

lemma tree_at_ok: "tree_at st p pr t \<Longrightarrow> z \<in> set (inorder t) \<Longrightarrow> node_ok z"
  by (induction t arbitrary: p pr) auto

lemma ctx_at_al: "ctx_at st p pr K \<Longrightarrow> ptr_al pr"
  by (cases K) auto

lemma ctx_at_ok: "ctx_at st p pr K \<Longrightarrow> z \<in> set (ctx_list K) \<Longrightarrow> node_ok z"
  by (induction K arbitrary: p pr) (auto dest: tree_at_ok)

lemma ctx_at_parent: "ctx_at st p pr K \<Longrightarrow> pr \<noteq> NULL \<Longrightarrow> pr \<in> set (ctx_list K)"
  by (cases K) auto

lemma ctx_at_Top: "ctx_at st p pr K \<Longrightarrow> pr = NULL \<longleftrightarrow> K = Top"
  by (cases K) auto

text \<open>The root of a tree gets another parent, or another colour.\<close>

lemma tree_at_reparent:
  assumes "tree_at st p pr t" "distinct (inorder t)" "\<And>z. z \<in> set (inorder t) \<Longrightarrow> z \<noteq> p \<Longrightarrow> agree st st' z"
    and "p \<noteq> NULL \<Longrightarrow> rb_parent st' p = pr' \<and> rb_is_red st' p = rb_is_red st p \<and>
           left_of st' p = left_of st p \<and> right_of st' p = right_of st p"
  shows "tree_at st' p pr' t"
proof (cases t)
  case (Node l x c r)
  then have "tree_at st' (left_of st x) x l" "tree_at st' (right_of st x) x r"
    using assms(1-3) by (auto intro!: tree_at_agree [of st])
  then show ?thesis using Node assms(1,4) by auto
qed (use assms(1) in simp)

text \<open>The hole of a context gets another pointer.\<close>

lemma ctx_at_hole:
  assumes k: "ctx_at st p pr K" and d: "distinct (ctx_list K)"
    and a: "\<And>z. z \<in> set (ctx_list K) \<Longrightarrow> z \<noteq> pr \<Longrightarrow> agree st st' z"
    and r: "rb_root st' = (if pr = NULL then p' else rb_root st)"
    and n: "pr \<noteq> NULL \<Longrightarrow> rb_parent st' pr = rb_parent st pr \<and> rb_is_red st' pr = rb_is_red st pr"
    and L: "\<And>K' c t. K = InL K' pr c t \<Longrightarrow> left_of st' pr = p' \<and> right_of st' pr = right_of st pr"
    and R: "\<And>K' c t. K = InR K' t pr c \<Longrightarrow> right_of st' pr = p' \<and> left_of st' pr = left_of st pr"
  shows "ctx_at st' p' pr K"
proof (cases K)
  case Top
  then show ?thesis using k r by simp
next
  case (InL K' x c t)
  have x: "pr = x" "node_ok x" and t: "tree_at st (right_of st x) x t" and k': "ctx_at st x (rb_parent st x) K'"
    using k InL by simp_all
  have a': "agree st st' z" if "z \<in> set (inorder t) \<or> z \<in> set (ctx_list K')" for z
    by (rule a) (use that d InL x in auto)
  have "tree_at st' (right_of st x) x t" by (rule tree_at_agree [OF t]) (simp add: a')
  moreover have "ctx_at st' x (rb_parent st x) K'"
    by (rule ctx_at_agree [OF k']) (use r x in \<open>simp_all add: a'\<close>)
  ultimately show ?thesis using InL k n L [of K' c t] x by simp
next
  case (InR K' t x c)
  have x: "pr = x" "node_ok x" and t: "tree_at st (left_of st x) x t" and k': "ctx_at st x (rb_parent st x) K'"
    using k InR by simp_all
  have a': "agree st st' z" if "z \<in> set (inorder t) \<or> z \<in> set (ctx_list K')" for z
    by (rule a) (use that d InR x in auto)
  have "tree_at st' (left_of st x) x t" by (rule tree_at_agree [OF t]) (simp add: a')
  moreover have "ctx_at st' x (rb_parent st x) K'"
    by (rule ctx_at_agree [OF k']) (use r x in \<open>simp_all add: a'\<close>)
  ultimately show ?thesis using InR k n R [of K' t c] x by simp
qed

lemma ctx_at_relink:
  assumes k: "ctx_at st p pr K" and d: "distinct (ctx_list K)" and p: "p \<notin> set (ctx_list K)" "p \<noteq> NULL"
    and a: "\<And>z. z \<in> set (ctx_list K) \<Longrightarrow> z \<noteq> pr \<Longrightarrow> agree st st' z"
    and r: "rb_root st' = (if pr = NULL then p' else rb_root st)"
    and n: "pr \<noteq> NULL \<Longrightarrow> rb_parent st' pr = rb_parent st pr \<and> rb_is_red st' pr = rb_is_red st pr \<and>
           left_of st' pr = (if left_of st pr = p then p' else left_of st pr) \<and>
           right_of st' pr = (if left_of st pr = p then right_of st pr else p')"
  shows "ctx_at st' p' pr K"
proof (rule ctx_at_hole [OF k d a r])
  show "left_of st' pr = p' \<and> right_of st' pr = right_of st pr" if "K = InL K' pr c t" for K' c t
    using k n that by simp
  show "right_of st' pr = p' \<and> left_of st' pr = left_of st pr" if K: "K = InR K' t pr c" for K' c t
  proof -
    have t: "tree_at st (left_of st pr) pr t" "node_ok pr" using k K by simp_all
    have "left_of st pr \<noteq> p" using tree_at_root(2) [OF t(1)] p K by auto
    then show ?thesis using n t(2) by simp
  qed
qed (use n in simp_all)

section \<open>Steps on a focused tree\<close>

fun rootp :: "rbt \<Rightarrow> ptr" where
  "rootp Leaf = NULL"
| "rootp (Node l x c r) = x"

fun up :: "ctx \<Rightarrow> ptr" where
  "up Top = NULL"
| "up (InL K x c r) = x"
| "up (InR K l x c) = x"

text \<open>The heap holds the tree; the nodes outside it are those of \<open>F\<close>.\<close>

definition rep :: "(ptr \<Rightarrow> rb_node) \<Rightarrow> rb_tree \<Rightarrow> rbt \<Rightarrow> bool" where
  "rep F st T \<longleftrightarrow> tree_at st (rb_root st) NULL T \<and> distinct (inorder T) \<and>
     (\<forall>z. z \<notin> set (inorder T) \<longrightarrow> nodes st z = F z)"

lemma tree_at_rootp: "tree_at st p pr t \<Longrightarrow> p = rootp t"
  by (cases t) simp_all

lemma ctx_at_up: "ctx_at st p pr K \<Longrightarrow> pr = up K"
  by (cases K) simp_all

lemma rep_fill:
  "rep F st (fill K t) \<longleftrightarrow> ctx_at st (rootp t) (up K) K \<and> tree_at st (rootp t) (up K) t \<and>
     distinct (inorder t @ ctx_list K) \<and> (\<forall>z. z \<notin> set (inorder t) \<union> set (ctx_list K) \<longrightarrow> nodes st z = F z)"
  unfolding rep_def fill_at distinct_fill set_fill
  using tree_at_rootp ctx_at_up by metis

lemma rep_node:
  assumes "rep F st (fill K (Node a x c b))"
  shows "node_ok x" "rb_is_red st x = (c = Red)" "left_of st x = rootp a" "right_of st x = rootp b"
    "rb_parent st x = up K"
  using assms unfolding rep_fill by (auto dest: tree_at_rootp)

lemma rep_colour:
  assumes R: "rep F st (fill K (Node a x c b))"
    and "\<And>y. rb_parent st' y = rb_parent st y" "\<And>y. left_of st' y = left_of st y" "\<And>y. right_of st' y = right_of st y"
      "\<And>y. rb_is_red st' y = (if y = x then c' = Red else rb_is_red st y)" "rb_root st' = rb_root st"
      "\<And>y. y \<noteq> x \<Longrightarrow> nodes st' y = nodes st y"
  shows "rep F st' (fill K (Node a x c' b))"
proof -
  have k: "ctx_at st x (up K) K" and a: "tree_at st (left_of st x) x a" and b: "tree_at st (right_of st x) x b"
    and d: "distinct (inorder a @ x # inorder b @ ctx_list K)"
    using R unfolding rep_fill by simp_all
  have g: "agree st st' y" if "y \<noteq> x" for y using assms(2-5) that by (simp add: agree_def)
  have "ctx_at st' x (up K) K" by (rule ctx_at_agree [OF k]) (use d assms(6) in \<open>auto intro!: g\<close>)
  moreover have "tree_at st' (left_of st x) x a" by (rule tree_at_agree [OF a]) (use d in \<open>auto intro!: g\<close>)
  moreover have "tree_at st' (right_of st x) x b" by (rule tree_at_agree [OF b]) (use d in \<open>auto intro!: g\<close>)
  ultimately show ?thesis using R assms(2-7) unfolding rep_fill by auto
qed

lemma rep_set_red: "rep F st (fill K (Node a x c b)) \<Longrightarrow> rep F (rb_set_red x st) (fill K (Node a x Red b))"
  by (erule rep_colour) (auto simp: rb_access node_frame)

lemma rep_set_black: "rep F st (fill K (Node a x c b)) \<Longrightarrow> rep F (rb_set_black x st) (fill K (Node a x Black b))"
  by (erule rep_colour) (auto simp: rb_access node_frame)

lemma rep_set_color:
  "rep F st (fill K (Node a x c b)) \<Longrightarrow> rb_is_red st' z = (c' = Red) \<Longrightarrow>
   rep F (rb_set_color x (rb_color st' z) st) (fill K (Node a x c' b))"
  by (erule rep_colour) (auto simp: rb_access node_frame)

text \<open>What the rotations write.\<close>

lemma rotate_left_access:
  assumes "y = right_of st x" "z = left_of st y" "q = rb_parent st x" "ptr_al x" "ptr_al y"
    "x \<noteq> y" "z \<noteq> x" "z \<noteq> y" "q \<noteq> x" "q \<noteq> y" "q \<noteq> NULL \<longrightarrow> q \<noteq> z"
  shows "rb_parent (rb_rotate_left x st) v =
      (if v = x then y else if v = y then q else if v = z \<and> z \<noteq> NULL then x else rb_parent st v)"
    "rb_is_red (rb_rotate_left x st) v = rb_is_red st v"
    "left_of (rb_rotate_left x st) v =
      (if v = y then x else if v = q \<and> q \<noteq> NULL \<and> left_of st q = x then y else left_of st v)"
    "right_of (rb_rotate_left x st) v =
      (if v = x then z else if v = q \<and> q \<noteq> NULL \<and> left_of st q \<noteq> x then y else right_of st v)"
    "rb_root (rb_rotate_left x st) = (if q = NULL then y else rb_root st)"
    "v \<noteq> x \<Longrightarrow> v \<noteq> y \<Longrightarrow> v = NULL \<or> v \<noteq> z \<Longrightarrow> v = NULL \<or> v \<noteq> q \<Longrightarrow> nodes (rb_rotate_left x st) v = nodes st v"
proof -
  define s1 where "s1 = set_right x z st"
  define s2 where "s2 = (if z \<noteq> NULL then rb_set_parent z x s1 else s1)"
  define s3 where "s3 = rb_set_parent y q (set_left y x s2)"
  define s4 where "s4 = (if q \<noteq> NULL then if x = left_of s3 q then set_left q y s3 else set_right q y s3
                         else s3\<lparr>rb_root := y\<rparr>)"
  have q: "ptr_al q" unfolding assms(3) by (rule ptr_al_parent)
  have z: "left_of s1 y = z" "right_of s1 x = z" using assms(2) by (simp_all add: s1_def rb_access)
  have e: "rb_rotate_left x st = rb_set_parent x y s4"
    unfolding rb_rotate_left_def Let_def assms(1-3) [symmetric] s1_def [symmetric] z s2_def [symmetric]
      s3_def [symmetric] s4_def [symmetric] ..
  have a3: "rb_parent s3 v = (if v = y then q else if v = z \<and> z \<noteq> NULL then x else rb_parent st v)"
    "rb_is_red s3 v = rb_is_red st v" "left_of s3 v = (if v = y then x else left_of st v)"
    "right_of s3 v = (if v = x then z else right_of st v)" "rb_root s3 = rb_root st" for v
    using assms(4-) q by (simp_all add: s3_def s2_def s1_def rb_access)
  have f3: "nodes s3 v = nodes st v" if "v \<noteq> x" "v \<noteq> y" "v = NULL \<or> v \<noteq> z" for v
    using that by (auto simp: s3_def s2_def s1_def node_frame)
  have a4: "rb_parent s4 v = rb_parent s3 v" "rb_is_red s4 v = rb_is_red s3 v"
    "left_of s4 v = (if v = q \<and> q \<noteq> NULL \<and> left_of s3 q = x then y else left_of s3 v)"
    "right_of s4 v = (if v = q \<and> q \<noteq> NULL \<and> left_of s3 q \<noteq> x then y else right_of s3 v)"
    "rb_root s4 = (if q = NULL then y else rb_root s3)" for v
    by (simp_all add: s4_def rb_access)
  have f4: "nodes s4 v = nodes s3 v" if "v = NULL \<or> v \<noteq> q" for v
    using that by (auto simp: s4_def node_frame)
  show "rb_parent (rb_rotate_left x st) v =
      (if v = x then y else if v = y then q else if v = z \<and> z \<noteq> NULL then x else rb_parent st v)"
    "rb_is_red (rb_rotate_left x st) v = rb_is_red st v"
    "left_of (rb_rotate_left x st) v =
      (if v = y then x else if v = q \<and> q \<noteq> NULL \<and> left_of st q = x then y else left_of st v)"
    "right_of (rb_rotate_left x st) v =
      (if v = x then z else if v = q \<and> q \<noteq> NULL \<and> left_of st q \<noteq> x then y else right_of st v)"
    "rb_root (rb_rotate_left x st) = (if q = NULL then y else rb_root st)"
    using assms(4-) unfolding e by (simp_all add: rb_access a4 a3)
  show "nodes (rb_rotate_left x st) v = nodes st v"
    if "v \<noteq> x" "v \<noteq> y" "v = NULL \<or> v \<noteq> z" "v = NULL \<or> v \<noteq> q"
    using that unfolding e by (simp add: node_frame f4 f3)
qed

lemma rotate_right_access:
  assumes "y = left_of st x" "z = right_of st y" "q = rb_parent st x" "ptr_al x" "ptr_al y"
    "x \<noteq> y" "z \<noteq> x" "z \<noteq> y" "q \<noteq> x" "q \<noteq> y" "q \<noteq> NULL \<longrightarrow> q \<noteq> z"
  shows "rb_parent (rb_rotate_right x st) v =
      (if v = x then y else if v = y then q else if v = z \<and> z \<noteq> NULL then x else rb_parent st v)"
    "rb_is_red (rb_rotate_right x st) v = rb_is_red st v"
    "right_of (rb_rotate_right x st) v =
      (if v = y then x else if v = q \<and> q \<noteq> NULL \<and> right_of st q = x then y else right_of st v)"
    "left_of (rb_rotate_right x st) v =
      (if v = x then z else if v = q \<and> q \<noteq> NULL \<and> right_of st q \<noteq> x then y else left_of st v)"
    "rb_root (rb_rotate_right x st) = (if q = NULL then y else rb_root st)"
    "v \<noteq> x \<Longrightarrow> v \<noteq> y \<Longrightarrow> v = NULL \<or> v \<noteq> z \<Longrightarrow> v = NULL \<or> v \<noteq> q \<Longrightarrow> nodes (rb_rotate_right x st) v = nodes st v"
proof -
  define s1 where "s1 = set_left x z st"
  define s2 where "s2 = (if z \<noteq> NULL then rb_set_parent z x s1 else s1)"
  define s3 where "s3 = rb_set_parent y q (set_right y x s2)"
  define s4 where "s4 = (if q \<noteq> NULL then if x = right_of s3 q then set_right q y s3 else set_left q y s3
                         else s3\<lparr>rb_root := y\<rparr>)"
  have q: "ptr_al q" unfolding assms(3) by (rule ptr_al_parent)
  have z: "right_of s1 y = z" "left_of s1 x = z" using assms(2) by (simp_all add: s1_def rb_access)
  have e: "rb_rotate_right x st = rb_set_parent x y s4"
    unfolding rb_rotate_right_def Let_def assms(1-3) [symmetric] s1_def [symmetric] z s2_def [symmetric]
      s3_def [symmetric] s4_def [symmetric] ..
  have a3: "rb_parent s3 v = (if v = y then q else if v = z \<and> z \<noteq> NULL then x else rb_parent st v)"
    "rb_is_red s3 v = rb_is_red st v" "right_of s3 v = (if v = y then x else right_of st v)"
    "left_of s3 v = (if v = x then z else left_of st v)" "rb_root s3 = rb_root st" for v
    using assms(4-) q by (simp_all add: s3_def s2_def s1_def rb_access)
  have f3: "nodes s3 v = nodes st v" if "v \<noteq> x" "v \<noteq> y" "v = NULL \<or> v \<noteq> z" for v
    using that by (auto simp: s3_def s2_def s1_def node_frame)
  have a4: "rb_parent s4 v = rb_parent s3 v" "rb_is_red s4 v = rb_is_red s3 v"
    "right_of s4 v = (if v = q \<and> q \<noteq> NULL \<and> right_of s3 q = x then y else right_of s3 v)"
    "left_of s4 v = (if v = q \<and> q \<noteq> NULL \<and> right_of s3 q \<noteq> x then y else left_of s3 v)"
    "rb_root s4 = (if q = NULL then y else rb_root s3)" for v
    by (simp_all add: s4_def rb_access)
  have f4: "nodes s4 v = nodes s3 v" if "v = NULL \<or> v \<noteq> q" for v
    using that by (auto simp: s4_def node_frame)
  show "rb_parent (rb_rotate_right x st) v =
      (if v = x then y else if v = y then q else if v = z \<and> z \<noteq> NULL then x else rb_parent st v)"
    "rb_is_red (rb_rotate_right x st) v = rb_is_red st v"
    "right_of (rb_rotate_right x st) v =
      (if v = y then x else if v = q \<and> q \<noteq> NULL \<and> right_of st q = x then y else right_of st v)"
    "left_of (rb_rotate_right x st) v =
      (if v = x then z else if v = q \<and> q \<noteq> NULL \<and> right_of st q \<noteq> x then y else left_of st v)"
    "rb_root (rb_rotate_right x st) = (if q = NULL then y else rb_root st)"
    using assms(4-) unfolding e by (simp_all add: rb_access a4 a3)
  show "nodes (rb_rotate_right x st) v = nodes st v"
    if "v \<noteq> x" "v \<noteq> y" "v = NULL \<or> v \<noteq> z" "v = NULL \<or> v \<noteq> q"
    using that unfolding e by (simp add: node_frame f4 f3)
qed

text \<open>The rotations on the focused tree.\<close>

lemma ctx_at_child:
  assumes "ctx_at st p pr K" "pr \<noteq> NULL" "p \<noteq> NULL" "p \<notin> set (ctx_list K)"
  shows "right_of st pr = p \<longleftrightarrow> left_of st pr \<noteq> p"
  using assms by (cases K) (auto dest: tree_at_root(2))

lemma rep_rotate_left:
  assumes R: "rep F st (fill K (Node a x c (Node b y d e)))"
  shows "rep F (rb_rotate_left x st) (fill K (Node (Node a x c b) y d e))"
proof -
  let ?s = "rb_rotate_left x st" and ?q = "up K"
  have k: "ctx_at st x ?q K" and ok: "node_ok x" "node_ok y" and y: "right_of st x = y"
    and a: "tree_at st (left_of st x) x a" and b: "tree_at st (left_of st y) y b" and e: "tree_at st (right_of st y) y e"
    and c: "rb_is_red st x = (c = Red)" "rb_is_red st y = (d = Red)" and q: "rb_parent st x = ?q"
    and D: "distinct (inorder a @ x # inorder b @ y # inorder e @ ctx_list K)"
    and F: "\<And>z. z \<notin> insert x (insert y (set (inorder a) \<union> set (inorder b) \<union> set (inorder e) \<union> set (ctx_list K))) \<Longrightarrow>
              nodes st z = F z"
    using R unfolding rep_fill by auto
  let ?z = "left_of st y"
  have z: "?z = NULL \<or> ?z \<in> set (inorder b)" using tree_at_root(2) [OF b] by auto
  have Q: "?q = NULL \<or> ?q \<in> set (ctx_list K)" using ctx_at_parent [OF k] by auto
  note N = rotate_left_access [OF y [symmetric] refl q [symmetric]]
  have ne: "x \<noteq> y" "?z \<noteq> x" "?z \<noteq> y" "?q \<noteq> x" "?q \<noteq> y" "?q \<noteq> NULL \<longrightarrow> ?q \<noteq> ?z"
    using z Q D ok by auto
  note A = N [OF node_ok_al [OF ok(1)] node_ok_al [OF ok(2)] ne]
  have g: "agree st ?s v" if "v \<noteq> x" "v \<noteq> y" "v = NULL \<or> v \<noteq> ?z" "v = NULL \<or> v \<noteq> ?q" for v
    using that by (auto simp: agree_def A)
  have "ctx_at ?s y ?q K"
  proof (rule ctx_at_relink [OF k])
    show "agree st ?s v" if "v \<in> set (ctx_list K)" "v \<noteq> ?q" for v
      by (rule g) (use that D z in auto)
    show "?q \<noteq> NULL \<Longrightarrow> rb_parent ?s ?q = rb_parent st ?q \<and> rb_is_red ?s ?q = rb_is_red st ?q \<and>
           left_of ?s ?q = (if left_of st ?q = x then y else left_of st ?q) \<and>
           right_of ?s ?q = (if left_of st ?q = x then right_of st ?q else y)"
      using ne ctx_at_child [OF k] D ok by (auto simp: A)
  qed (use D ok in \<open>auto simp: A\<close>)
  moreover have "tree_at ?s (left_of st x) x a"
    by (rule tree_at_agree [OF a], rule g) (use D z Q in auto)
  moreover have "tree_at ?s (right_of st y) y e"
    by (rule tree_at_agree [OF e], rule g) (use D z Q in auto)
  moreover have "tree_at ?s ?z x b"
  proof (rule tree_at_reparent [OF b])
    show "agree st ?s v" if "v \<in> set (inorder b)" "v \<noteq> ?z" for v
      by (rule g) (use that D Q in auto)
  qed (use D ne in \<open>auto simp: A\<close>)
  moreover have "nodes ?s v = F v"
    if "v \<notin> insert x (insert y (set (inorder a) \<union> set (inorder b) \<union> set (inorder e) \<union> set (ctx_list K)))" for v
    using A(6) [of v] F [OF that] that z Q by auto
  ultimately show ?thesis
    using D ok c ne tree_at_rootp unfolding rep_fill by (auto simp: A)
qed

lemma rep_rotate_right:
  assumes R: "rep F st (fill K (Node (Node e y d b) x c a))"
  shows "rep F (rb_rotate_right x st) (fill K (Node e y d (Node b x c a)))"
proof -
  let ?s = "rb_rotate_right x st" and ?q = "up K"
  have k: "ctx_at st x ?q K" and ok: "node_ok x" "node_ok y" and y: "left_of st x = y"
    and a: "tree_at st (right_of st x) x a" and b: "tree_at st (right_of st y) y b" and e: "tree_at st (left_of st y) y e"
    and c: "rb_is_red st x = (c = Red)" "rb_is_red st y = (d = Red)" and q: "rb_parent st x = ?q"
    and D: "distinct (inorder e @ y # inorder b @ x # inorder a @ ctx_list K)"
    and F: "\<And>z. z \<notin> insert x (insert y (set (inorder a) \<union> set (inorder b) \<union> set (inorder e) \<union> set (ctx_list K))) \<Longrightarrow>
              nodes st z = F z"
    using R unfolding rep_fill by auto
  let ?z = "right_of st y"
  have z: "?z = NULL \<or> ?z \<in> set (inorder b)" using tree_at_root(2) [OF b] by auto
  have Q: "?q = NULL \<or> ?q \<in> set (ctx_list K)" using ctx_at_parent [OF k] by auto
  note N = rotate_right_access [OF y [symmetric] refl q [symmetric]]
  have ne: "x \<noteq> y" "?z \<noteq> x" "?z \<noteq> y" "?q \<noteq> x" "?q \<noteq> y" "?q \<noteq> NULL \<longrightarrow> ?q \<noteq> ?z"
    using z Q D ok by auto
  note A = N [OF node_ok_al [OF ok(1)] node_ok_al [OF ok(2)] ne]
  have g: "agree st ?s v" if "v \<noteq> x" "v \<noteq> y" "v = NULL \<or> v \<noteq> ?z" "v = NULL \<or> v \<noteq> ?q" for v
    using that by (auto simp: agree_def A)
  have "ctx_at ?s y ?q K"
  proof (rule ctx_at_relink [OF k])
    show "agree st ?s v" if "v \<in> set (ctx_list K)" "v \<noteq> ?q" for v
      by (rule g) (use that D z in auto)
    show "?q \<noteq> NULL \<Longrightarrow> rb_parent ?s ?q = rb_parent st ?q \<and> rb_is_red ?s ?q = rb_is_red st ?q \<and>
           left_of ?s ?q = (if left_of st ?q = x then y else left_of st ?q) \<and>
           right_of ?s ?q = (if left_of st ?q = x then right_of st ?q else y)"
      using ne ctx_at_child [OF k] D ok by (auto simp: A)
  qed (use D ok in \<open>auto simp: A\<close>)
  moreover have "tree_at ?s (right_of st x) x a"
    by (rule tree_at_agree [OF a], rule g) (use D z Q in auto)
  moreover have "tree_at ?s (left_of st y) y e"
    by (rule tree_at_agree [OF e], rule g) (use D z Q in auto)
  moreover have "tree_at ?s ?z x b"
  proof (rule tree_at_reparent [OF b])
    show "agree st ?s v" if "v \<in> set (inorder b)" "v \<noteq> ?z" for v
      by (rule g) (use that D Q in auto)
  qed (use D ne in \<open>auto simp: A\<close>)
  moreover have "nodes ?s v = F v"
    if "v \<notin> insert x (insert y (set (inorder a) \<union> set (inorder b) \<union> set (inorder e) \<union> set (ctx_list K)))" for v
    using A(6) [of v] F [OF that] that z Q by auto
  ultimately show ?thesis
    using D ok c ne tree_at_rootp unfolding rep_fill by (auto simp: A)
qed

end
