(* ===== verification/Elevator.thy ===== *)
theory Elevator
  imports List_Head Rbtree
begin

text \<open>
  The generic I/O scheduler layer, \<open>block/elevator.c\<close>: requests, the request queue with its
  dispatch list and merge hash, and the calls that move requests between a scheduler's own lists
  and the dispatch list.

  A request is named by the address of its \<open>queuelist\<close> link, so the links of all requests and of
  all list heads live in one \<^typ>\<open>list_heap\<close>.  The merge hash is an array of chains.  A scheduler
  keeps its private data in \<open>elevator_data\<close> and is a record of operations; \<open>None\<close> as a result
  means that the call does not return (a \<open>BUG_ON\<close> fires or a loop does not end).  The calls run
  with \<open>queue_lock\<close> held, so each is one atomic step.

  The locale \<open>io_scheduler\<close> is the contract between this layer and a scheduler.
\<close>

section \<open>Requests and bios\<close>

datatype rq_cmd_type =
    REQ_TYPE_FS | REQ_TYPE_BLOCK_PC | REQ_TYPE_SENSE | REQ_TYPE_PM_SUSPEND | REQ_TYPE_PM_RESUME
  | REQ_TYPE_PM_SHUTDOWN | REQ_TYPE_SPECIAL | REQ_TYPE_LINUX_BLOCK | REQ_TYPE_ATA_TASKFILE
  | REQ_TYPE_ATA_PC

definition REQ_RW :: u32 where "REQ_RW = push_bit 0 1"
definition REQ_DISCARD :: u32 where "REQ_DISCARD = push_bit 4 1"
definition REQ_SORTED :: u32 where "REQ_SORTED = push_bit 5 1"
definition REQ_SOFTBARRIER :: u32 where "REQ_SOFTBARRIER = push_bit 6 1"
definition REQ_HARDBARRIER :: u32 where "REQ_HARDBARRIER = push_bit 7 1"
definition REQ_NOMERGE :: u32 where "REQ_NOMERGE = push_bit 9 1"
definition REQ_STARTED :: u32 where "REQ_STARTED = push_bit 10 1"
definition REQ_ELVPRIV :: u32 where "REQ_ELVPRIV = push_bit 13 1"
definition REQ_ORDERED_COLOR :: u32 where "REQ_ORDERED_COLOR = push_bit 17 1"
definition REQ_RW_SYNC :: u32 where "REQ_RW_SYNC = push_bit 18 1"

lemmas req_flag_defs = REQ_RW_def REQ_DISCARD_def REQ_SORTED_def REQ_SOFTBARRIER_def
  REQ_HARDBARRIER_def REQ_NOMERGE_def REQ_STARTED_def REQ_ELVPRIV_def REQ_ORDERED_COLOR_def
  REQ_RW_SYNC_def

text \<open>
  \<open>csd_next\<close> is \<open>rq->csd.list.next\<close>, which holds the expiry time while the request is in a
  scheduler; \<open>csd_addr\<close> is the address \<open>&rq->csd.list\<close>.  \<open>on_hash\<close> is \<open>rq->hash.pprev != NULL\<close>.
  \<open>bio_rw\<close> is \<open>rq->bio->bi_rw\<close>.
\<close>

record request =
  cmd_flags :: u32
  cmd_type :: rq_cmd_type
  data_len :: u32
  rq_sector :: sector
  bio_rw :: u32
  rq_disk :: ptr
  special :: ptr
  on_hash :: bool
  csd_next :: ulong
  csd_addr :: ulong

record bio =
  bi_sector :: sector
  bi_size :: u32
  bi_rw :: u32
  bi_disk :: ptr

definition blk_rq_pos :: "request \<Rightarrow> sector" where
  "blk_rq_pos rq = rq_sector rq"

definition blk_rq_sectors :: "request \<Rightarrow> u32" where
  "blk_rq_sectors rq = drop_bit 9 (data_len rq)"

definition rq_end_sector :: "request \<Rightarrow> sector" where
  "rq_end_sector rq = blk_rq_pos rq + blk_rq_sectors rq"

definition rq_data_dir :: "request \<Rightarrow> u32" where
  "rq_data_dir rq = cmd_flags rq AND 1"

definition rw_is_sync :: "u32 \<Rightarrow> bool" where
  "rw_is_sync rw_flags \<longleftrightarrow> rw_flags AND REQ_RW = 0 \<or> rw_flags AND REQ_RW_SYNC \<noteq> 0"

definition rq_is_sync :: "request \<Rightarrow> bool" where
  "rq_is_sync rq \<longleftrightarrow> rw_is_sync (cmd_flags rq)"

definition blk_discard_rq :: "request \<Rightarrow> u32" where
  "blk_discard_rq rq = cmd_flags rq AND REQ_DISCARD"

definition blk_fs_request :: "request \<Rightarrow> bool" where
  "blk_fs_request rq \<longleftrightarrow> cmd_type rq = REQ_TYPE_FS"

definition blk_account_rq :: "request \<Rightarrow> bool" where
  "blk_account_rq rq \<longleftrightarrow>
     cmd_flags rq AND REQ_STARTED \<noteq> 0 \<and> (blk_fs_request rq \<or> blk_discard_rq rq \<noteq> 0)"

definition RQ_NOMERGE_FLAGS :: u32 where
  "RQ_NOMERGE_FLAGS = REQ_NOMERGE OR REQ_STARTED OR REQ_HARDBARRIER OR REQ_SOFTBARRIER"

definition rq_mergeable :: "request \<Rightarrow> bool" where
  "rq_mergeable rq \<longleftrightarrow>
     cmd_flags rq AND RQ_NOMERGE_FLAGS = 0 \<and> (blk_discard_rq rq \<noteq> 0 \<or> blk_fs_request rq)"

definition rq_fifo_time :: "request \<Rightarrow> ulong" where
  "rq_fifo_time rq = csd_next rq"

definition bio_sectors :: "bio \<Rightarrow> u32" where
  "bio_sectors b = drop_bit 9 (bi_size b)"

definition bio_data_dir :: "bio \<Rightarrow> u32" where
  "bio_data_dir b = bi_rw b AND 1"

definition BIO_RW_DISCARD :: nat where "BIO_RW_DISCARD = 9"

definition bio_rw_flagged :: "u32 \<Rightarrow> nat \<Rightarrow> bool" where
  "bio_rw_flagged rw flag \<longleftrightarrow> rw AND push_bit flag 1 \<noteq> 0"

section \<open>The request queue and the scheduler operations\<close>

record 'e request_queue =
  links :: list_heap
  rqs :: "ptr \<Rightarrow> request"
  rb_nodes :: "ptr \<Rightarrow> rb_node"
  queue_head :: ptr
  last_merge :: ptr
  end_sector :: sector
  boundary_rq :: ptr
  unplug_thresh :: int
  unplug_delay :: ulong
  unplug_timer :: "ulong option"
  queue_flags :: ulong
  nr_sorted :: u32
  in_flight :: "bool \<Rightarrow> u32"
  rq_count :: "bool \<Rightarrow> int"
  ordseq :: u32
  ordcolor :: u32
  pre_flush_rq :: ptr
  bar_rq :: ptr
  post_flush_rq :: ptr
  orig_bar_rq :: ptr
  ehash :: "nat \<Rightarrow> ptr list"
  jiffies :: ulong
  elevator_data :: 'e

record 'e elevator_ops =
  elevator_merge_fn :: "('e request_queue \<Rightarrow> bio \<Rightarrow> (nat \<times> ptr) option) option"
  elevator_merged_fn :: "('e request_queue \<Rightarrow> ptr \<Rightarrow> nat \<Rightarrow> 'e request_queue option) option"
  elevator_merge_req_fn :: "('e request_queue \<Rightarrow> ptr \<Rightarrow> ptr \<Rightarrow> 'e request_queue option) option"
  elevator_allow_merge_fn :: "('e request_queue \<Rightarrow> ptr \<Rightarrow> bio \<Rightarrow> bool) option"
  elevator_dispatch_fn :: "'e request_queue \<Rightarrow> bool \<Rightarrow> (int \<times> 'e request_queue) option"
  elevator_add_req_fn :: "'e request_queue \<Rightarrow> ptr \<Rightarrow> 'e request_queue option"
  elevator_queue_empty_fn :: "('e request_queue \<Rightarrow> bool) option"
  elevator_deactivate_req_fn :: "('e request_queue \<Rightarrow> ptr \<Rightarrow> 'e request_queue) option"
  elevator_former_req_fn :: "('e request_queue \<Rightarrow> ptr \<Rightarrow> ptr option) option"
  elevator_latter_req_fn :: "('e request_queue \<Rightarrow> ptr \<Rightarrow> ptr option) option"

text \<open>The block driver: \<open>__blk_run_queue\<close> and \<open>__generic_unplug_device\<close> call its strategy routine.\<close>

record 'e blk_driver =
  drv_run_queue :: "'e request_queue \<Rightarrow> 'e request_queue"
  drv_unplug :: "'e request_queue \<Rightarrow> 'e request_queue"

definition QUEUE_FLAG_STOPPED :: nat where "QUEUE_FLAG_STOPPED = 2"
definition QUEUE_FLAG_PLUGGED :: nat where "QUEUE_FLAG_PLUGGED = 7"
definition QUEUE_FLAG_NOMERGES :: nat where "QUEUE_FLAG_NOMERGES = 10"
definition QUEUE_FLAG_NOXMERGES :: nat where "QUEUE_FLAG_NOXMERGES = 17"

definition upd_rq :: "ptr \<Rightarrow> (request \<Rightarrow> request) \<Rightarrow> 'e request_queue \<Rightarrow> 'e request_queue" where
  "upd_rq r f q = q\<lparr>rqs := (rqs q)(r := f (rqs q r))\<rparr>"

definition rq_set_fifo_time :: "ptr \<Rightarrow> ulong \<Rightarrow> 'e request_queue \<Rightarrow> 'e request_queue" where
  "rq_set_fifo_time r exp q = upd_rq r (\<lambda>rq. rq\<lparr>csd_next := exp\<rparr>) q"

definition rq_fifo_clear :: "ptr \<Rightarrow> 'e request_queue \<Rightarrow> 'e request_queue" where
  "rq_fifo_clear r q =
     upd_rq r (\<lambda>rq. rq\<lparr>csd_next := csd_addr rq\<rparr>) (q\<lparr>links := list_del_init r (links q)\<rparr>)"

definition queue_in_flight :: "'e request_queue \<Rightarrow> int" where
  "queue_in_flight q = sint (in_flight q False + in_flight q True)"

section \<open>Merging\<close>

definition ELEVATOR_NO_MERGE :: nat where "ELEVATOR_NO_MERGE = 0"
definition ELEVATOR_FRONT_MERGE :: nat where "ELEVATOR_FRONT_MERGE = 1"
definition ELEVATOR_BACK_MERGE :: nat where "ELEVATOR_BACK_MERGE = 2"

definition hash_32 :: "u32 \<Rightarrow> nat \<Rightarrow> u32" where
  "hash_32 val bits = (let hash = val * 0x9e370001 in drop_bit (32 - bits) hash)"

definition elv_hash_shift :: nat where "elv_hash_shift = 6"

definition ELV_HASH_FN :: "sector \<Rightarrow> nat" where
  "ELV_HASH_FN sec = unat (hash_32 (drop_bit 3 sec) elv_hash_shift)"

definition rq_hash_key :: "request \<Rightarrow> sector" where
  "rq_hash_key rq = blk_rq_pos rq + blk_rq_sectors rq"

definition elv_iosched_allow_merge ::
    "'e elevator_ops \<Rightarrow> 'e request_queue \<Rightarrow> ptr \<Rightarrow> bio \<Rightarrow> bool" where
  "elv_iosched_allow_merge e q rq b =
     (case elevator_allow_merge_fn e of Some f \<Rightarrow> f q rq b | None \<Rightarrow> True)"

definition elv_rq_merge_ok :: "'e elevator_ops \<Rightarrow> 'e request_queue \<Rightarrow> ptr \<Rightarrow> bio \<Rightarrow> bool" where
  "elv_rq_merge_ok e q r b =
     (let rq = rqs q r in
      if \<not> rq_mergeable rq then False
      else if bio_rw_flagged (bi_rw b) BIO_RW_DISCARD \<noteq> bio_rw_flagged (bio_rw rq) BIO_RW_DISCARD
        then False
      else if bio_data_dir b \<noteq> rq_data_dir rq then False
      else if rq_disk rq \<noteq> bi_disk b \<or> special rq \<noteq> NULL then False
      else if \<not> elv_iosched_allow_merge e q r b then False
      else True)"

definition elv_try_merge :: "'e elevator_ops \<Rightarrow> 'e request_queue \<Rightarrow> ptr \<Rightarrow> bio \<Rightarrow> nat" where
  "elv_try_merge e q r b =
     (if elv_rq_merge_ok e q r b then
        if blk_rq_pos (rqs q r) + blk_rq_sectors (rqs q r) = bi_sector b
        then ELEVATOR_BACK_MERGE
        else if blk_rq_pos (rqs q r) - bio_sectors b = bi_sector b
        then ELEVATOR_FRONT_MERGE
        else ELEVATOR_NO_MERGE
      else ELEVATOR_NO_MERGE)"

text \<open>A request is on at most one chain; \<open>hlist_del_init\<close> unlinks it from that chain.\<close>

definition elv_rqhash_del_raw :: "ptr \<Rightarrow> 'e request_queue \<Rightarrow> 'e request_queue" where
  "elv_rqhash_del_raw r q =
     (if on_hash (rqs q r)
      then upd_rq r (\<lambda>rq. rq\<lparr>on_hash := False\<rparr>) (q\<lparr>ehash := (\<lambda>b. remove1 r (ehash q b))\<rparr>)
      else q)"

definition elv_rqhash_del :: "ptr \<Rightarrow> 'e request_queue \<Rightarrow> 'e request_queue" where
  "elv_rqhash_del r q = (if on_hash (rqs q r) then elv_rqhash_del_raw r q else q)"

definition elv_rqhash_add :: "ptr \<Rightarrow> 'e request_queue \<Rightarrow> 'e request_queue option" where
  "elv_rqhash_add r q =
     (if on_hash (rqs q r) then None
      else let b = ELV_HASH_FN (rq_hash_key (rqs q r)) in
        Some (upd_rq r (\<lambda>rq. rq\<lparr>on_hash := True\<rparr>)
          (q\<lparr>ehash := (ehash q)(b := r # ehash q b)\<rparr>)))"

definition elv_rqhash_reposition :: "ptr \<Rightarrow> 'e request_queue \<Rightarrow> 'e request_queue option" where
  "elv_rqhash_reposition r q = elv_rqhash_add r (elv_rqhash_del_raw r q)"

text \<open>The chain is walked with the next entry saved, while unmergeable entries are unlinked.\<close>

fun elv_rqhash_scan ::
    "sector \<Rightarrow> ptr list \<Rightarrow> 'e request_queue \<Rightarrow> (ptr \<times> 'e request_queue) option" where
  "elv_rqhash_scan offset [] q = Some (NULL, q)"
| "elv_rqhash_scan offset (r # rs) q =
     (if \<not> on_hash (rqs q r) then None
      else if \<not> rq_mergeable (rqs q r) then elv_rqhash_scan offset rs (elv_rqhash_del_raw r q)
      else if rq_hash_key (rqs q r) = offset then Some (r, q)
      else elv_rqhash_scan offset rs q)"

definition elv_rqhash_find ::
    "'e request_queue \<Rightarrow> sector \<Rightarrow> (ptr \<times> 'e request_queue) option" where
  "elv_rqhash_find q offset = elv_rqhash_scan offset (ehash q (ELV_HASH_FN offset)) q"

text \<open>The result is the kind of merge, the request to merge with, and the queue.\<close>

definition elv_merge ::
    "'e elevator_ops \<Rightarrow> 'e request_queue \<Rightarrow> bio \<Rightarrow> (nat \<times> ptr \<times> 'e request_queue) option" where
  "elv_merge e q b =
     (if bit (queue_flags q) QUEUE_FLAG_NOMERGES then Some (ELEVATOR_NO_MERGE, NULL, q)
      else
        let ret = (if last_merge q \<noteq> NULL then elv_try_merge e q (last_merge q) b
                   else ELEVATOR_NO_MERGE) in
        if ret \<noteq> ELEVATOR_NO_MERGE then Some (ret, last_merge q, q)
        else if bit (queue_flags q) QUEUE_FLAG_NOXMERGES then Some (ELEVATOR_NO_MERGE, NULL, q)
        else case elv_rqhash_find q (bi_sector b) of
            None \<Rightarrow> None
          | Some (r, q) \<Rightarrow>
              if r \<noteq> NULL \<and> elv_rq_merge_ok e q r b then Some (ELEVATOR_BACK_MERGE, r, q)
              else case elevator_merge_fn e of
                  Some f \<Rightarrow> map_option (\<lambda>(ret, r). (ret, r, q)) (f q b)
                | None \<Rightarrow> Some (ELEVATOR_NO_MERGE, NULL, q))"

definition elv_merged_request ::
    "'e elevator_ops \<Rightarrow> 'e request_queue \<Rightarrow> ptr \<Rightarrow> nat \<Rightarrow> 'e request_queue option" where
  "elv_merged_request e q r type =
     Option.bind (case elevator_merged_fn e of Some f \<Rightarrow> f q r type | None \<Rightarrow> Some q) (\<lambda>q.
     Option.bind (if type = ELEVATOR_BACK_MERGE then elv_rqhash_reposition r q else Some q) (\<lambda>q.
     Some (q\<lparr>last_merge := r\<rparr>)))"

definition elv_merge_requests ::
    "'e elevator_ops \<Rightarrow> 'e request_queue \<Rightarrow> ptr \<Rightarrow> ptr \<Rightarrow> 'e request_queue option" where
  "elv_merge_requests e q r next =
     Option.bind (case elevator_merge_req_fn e of Some f \<Rightarrow> f q r next | None \<Rightarrow> Some q) (\<lambda>q.
     Option.bind (elv_rqhash_reposition r q) (\<lambda>q.
     let q = elv_rqhash_del next q
     in Some (q\<lparr>nr_sorted := nr_sorted q - 1, last_merge := r\<rparr>)))"

section \<open>The dispatch list\<close>

definition dispatch_stop_flags :: u32 where
  "dispatch_stop_flags = REQ_SOFTBARRIER OR REQ_HARDBARRIER OR REQ_STARTED"

text \<open>Does the backward walk of \<open>elv_dispatch_sort\<close> stop at the queued request \<open>pos\<close>?\<close>

definition dispatch_stop :: "sector \<Rightarrow> request \<Rightarrow> request \<Rightarrow> bool" where
  "dispatch_stop boundary rq pos =
     (if blk_discard_rq rq \<noteq> blk_discard_rq pos then True
      else if rq_data_dir rq \<noteq> rq_data_dir pos then True
      else if cmd_flags pos AND dispatch_stop_flags \<noteq> 0 then True
      else if blk_rq_pos rq \<ge> boundary then
        if blk_rq_pos pos < boundary then False
        else blk_rq_pos rq \<ge> blk_rq_pos pos
      else
        if blk_rq_pos pos \<ge> boundary then True
        else blk_rq_pos rq \<ge> blk_rq_pos pos)"

partial_function (option) dispatch_walk ::
    "'e request_queue \<Rightarrow> sector \<Rightarrow> request \<Rightarrow> ptr \<Rightarrow> ptr option" where
  "dispatch_walk q boundary rq entry =
     (if entry = queue_head q then Some entry
      else if dispatch_stop boundary rq (rqs q entry) then Some entry
      else dispatch_walk q boundary rq (prv (links q) entry))"

definition elv_dispatch_sort :: "'e request_queue \<Rightarrow> ptr \<Rightarrow> 'e request_queue option" where
  "elv_dispatch_sort q r =
     (let q = (if last_merge q = r then q\<lparr>last_merge := NULL\<rparr> else q);
          q = elv_rqhash_del r q;
          q = q\<lparr>nr_sorted := nr_sorted q - 1\<rparr>;
          boundary = end_sector q
      in Option.bind (dispatch_walk q boundary (rqs q r) (prv (links q) (queue_head q)))
           (\<lambda>entry. Some (q\<lparr>links := list_add r entry (links q)\<rparr>)))"

definition elv_dispatch_add_tail :: "'e request_queue \<Rightarrow> ptr \<Rightarrow> 'e request_queue" where
  "elv_dispatch_add_tail q r =
     (let q = (if last_merge q = r then q\<lparr>last_merge := NULL\<rparr> else q);
          q = elv_rqhash_del r q;
          q = q\<lparr>nr_sorted := nr_sorted q - 1\<rparr>;
          q = q\<lparr>end_sector := rq_end_sector (rqs q r), boundary_rq := r\<rparr>
      in q\<lparr>links := list_add_tail r (queue_head q) (links q)\<rparr>)"

text \<open>\<open>printed\<close> is the function's static counter, which bounds the number of messages.\<close>

partial_function (option) elv_drain_loop ::
    "'e elevator_ops \<Rightarrow> 'e request_queue \<Rightarrow> 'e request_queue option" where
  "elv_drain_loop e q =
     Option.bind (elevator_dispatch_fn e q True) (\<lambda>(ret, q).
       if ret \<noteq> 0 then elv_drain_loop e q else Some q)"

definition elv_drain_elevator ::
    "'e elevator_ops \<Rightarrow> int \<Rightarrow> 'e request_queue \<Rightarrow> (int \<times> 'e request_queue) option" where
  "elv_drain_elevator e printed q =
     Option.bind (elv_drain_loop e q) (\<lambda>q.
       if nr_sorted q = 0 then Some (printed, q) else Some (printed + 1, q))"

definition elv_queue_empty :: "'e elevator_ops \<Rightarrow> 'e request_queue \<Rightarrow> bool" where
  "elv_queue_empty e q =
     (if \<not> list_empty (queue_head q) (links q) then False
      else case elevator_queue_empty_fn e of Some f \<Rightarrow> f q | None \<Rightarrow> True)"

definition elv_latter_request :: "'e elevator_ops \<Rightarrow> 'e request_queue \<Rightarrow> ptr \<Rightarrow> ptr option" where
  "elv_latter_request e q r =
     (case elevator_latter_req_fn e of Some f \<Rightarrow> f q r | None \<Rightarrow> Some NULL)"

definition elv_former_request :: "'e elevator_ops \<Rightarrow> 'e request_queue \<Rightarrow> ptr \<Rightarrow> ptr option" where
  "elv_former_request e q r =
     (case elevator_former_req_fn e of Some f \<Rightarrow> f q r | None \<Rightarrow> Some NULL)"

section \<open>Insertion and requeueing\<close>

definition ELEVATOR_INSERT_FRONT :: nat where "ELEVATOR_INSERT_FRONT = 1"
definition ELEVATOR_INSERT_BACK :: nat where "ELEVATOR_INSERT_BACK = 2"
definition ELEVATOR_INSERT_SORT :: nat where "ELEVATOR_INSERT_SORT = 3"
definition ELEVATOR_INSERT_REQUEUE :: nat where "ELEVATOR_INSERT_REQUEUE = 4"

definition QUEUE_ORDSEQ_DRAIN :: u32 where "QUEUE_ORDSEQ_DRAIN = 0x02"
definition QUEUE_ORDSEQ_PREFLUSH :: u32 where "QUEUE_ORDSEQ_PREFLUSH = 0x04"
definition QUEUE_ORDSEQ_BAR :: u32 where "QUEUE_ORDSEQ_BAR = 0x08"
definition QUEUE_ORDSEQ_POSTFLUSH :: u32 where "QUEUE_ORDSEQ_POSTFLUSH = 0x10"
definition QUEUE_ORDSEQ_DONE :: u32 where "QUEUE_ORDSEQ_DONE = 0x20"

definition blk_ordered_req_seq :: "'e request_queue \<Rightarrow> ptr \<Rightarrow> u32 option" where
  "blk_ordered_req_seq q r =
     (if ordseq q = 0 then None
      else if r = pre_flush_rq q then Some QUEUE_ORDSEQ_PREFLUSH
      else if r = bar_rq q then Some QUEUE_ORDSEQ_BAR
      else if r = post_flush_rq q then Some QUEUE_ORDSEQ_POSTFLUSH
      else if \<not> blk_fs_request (rqs q r) then Some QUEUE_ORDSEQ_DRAIN
      else if cmd_flags (rqs q r) AND REQ_ORDERED_COLOR
            = cmd_flags (rqs q (orig_bar_rq q)) AND REQ_ORDERED_COLOR
        then Some QUEUE_ORDSEQ_DRAIN
      else Some QUEUE_ORDSEQ_DONE)"

partial_function (option) requeue_walk ::
    "'e request_queue \<Rightarrow> u32 \<Rightarrow> ptr \<Rightarrow> ptr option" where
  "requeue_walk q seq pos =
     (if pos = queue_head q then Some pos
      else Option.bind (blk_ordered_req_seq q pos) (\<lambda>s.
        if seq \<le> s then Some pos else requeue_walk q seq (nxt (links q) pos)))"

definition set_flags :: "ptr \<Rightarrow> u32 \<Rightarrow> 'e request_queue \<Rightarrow> 'e request_queue" where
  "set_flags r m q = upd_rq r (\<lambda>rq. rq\<lparr>cmd_flags := cmd_flags rq OR m\<rparr>) q"

definition elv_unplug_check :: "'e blk_driver \<Rightarrow> 'e request_queue \<Rightarrow> 'e request_queue" where
  "elv_unplug_check d q =
     (if bit (queue_flags q) QUEUE_FLAG_PLUGGED then
        let nrq = rq_count q True + rq_count q False - queue_in_flight q
        in if nrq \<ge> unplug_thresh q then drv_unplug d q else q
      else q)"

definition elv_insert ::
    "'e elevator_ops \<Rightarrow> 'e blk_driver \<Rightarrow> int \<Rightarrow> 'e request_queue \<Rightarrow> ptr \<Rightarrow> nat \<Rightarrow>
       (int \<times> 'e request_queue) option" where
  "elv_insert e d printed q r pos =
     (if pos = ELEVATOR_INSERT_FRONT then
        let q = set_flags r REQ_SOFTBARRIER q;
            q = q\<lparr>links := list_add r (queue_head q) (links q)\<rparr>
        in Some (printed, elv_unplug_check d q)
      else if pos = ELEVATOR_INSERT_BACK then
        let q = set_flags r REQ_SOFTBARRIER q
        in Option.bind (elv_drain_elevator e printed q) (\<lambda>(printed, q).
             let q = q\<lparr>links := list_add_tail r (queue_head q) (links q)\<rparr>
             in Some (printed, elv_unplug_check d (drv_run_queue d q)))
      else if pos = ELEVATOR_INSERT_SORT then
        if \<not> blk_fs_request (rqs q r) \<and> blk_discard_rq (rqs q r) = 0 then None
        else
          let q = set_flags r REQ_SORTED q;
              q = q\<lparr>nr_sorted := nr_sorted q + 1\<rparr>
          in Option.bind
               (if rq_mergeable (rqs q r) then
                  Option.bind (elv_rqhash_add r q) (\<lambda>q.
                    Some (if last_merge q = NULL then q\<lparr>last_merge := r\<rparr> else q))
                else Some q) (\<lambda>q.
             Option.bind (elevator_add_req_fn e q r) (\<lambda>q.
             Some (printed, elv_unplug_check d q)))
      else if pos = ELEVATOR_INSERT_REQUEUE then
        let q = set_flags r REQ_SOFTBARRIER q
        in if ordseq q = 0 then
             Some (printed, q\<lparr>links := list_add r (queue_head q) (links q)\<rparr>)
           else Option.bind (blk_ordered_req_seq q r) (\<lambda>seq.
             Option.bind (requeue_walk q seq (nxt (links q) (queue_head q))) (\<lambda>p.
             Some (printed, q\<lparr>links := list_add_tail r p (links q)\<rparr>)))
      else None)"

definition blk_plug_device :: "'e request_queue \<Rightarrow> 'e request_queue" where
  "blk_plug_device q =
     (if bit (queue_flags q) QUEUE_FLAG_STOPPED then q
      else if \<not> bit (queue_flags q) QUEUE_FLAG_PLUGGED then
        q\<lparr>queue_flags := set_bit QUEUE_FLAG_PLUGGED (queue_flags q),
          unplug_timer := Some (jiffies q + unplug_delay q)\<rparr>
      else q)"

definition elv_add_request_locked ::
    "'e elevator_ops \<Rightarrow> 'e blk_driver \<Rightarrow> int \<Rightarrow> 'e request_queue \<Rightarrow> ptr \<Rightarrow> nat \<Rightarrow> bool \<Rightarrow>
       (int \<times> 'e request_queue) option" where
  "elv_add_request_locked e d printed q r pos plug =
     (let q = (if ordcolor q \<noteq> 0 then set_flags r REQ_ORDERED_COLOR q else q);
          flags = cmd_flags (rqs q r);
          (pos, q) =
            (if flags AND (REQ_SOFTBARRIER OR REQ_HARDBARRIER) \<noteq> 0 then
               let q = (if flags AND REQ_HARDBARRIER \<noteq> 0
                        then q\<lparr>ordcolor := ordcolor q XOR 1\<rparr> else q);
                   pos = (if pos = ELEVATOR_INSERT_SORT then ELEVATOR_INSERT_BACK else pos);
                   q = (if blk_fs_request (rqs q r) \<or> blk_discard_rq (rqs q r) \<noteq> 0
                        then q\<lparr>end_sector := rq_end_sector (rqs q r), boundary_rq := r\<rparr> else q)
               in (pos, q)
             else if flags AND REQ_ELVPRIV = 0 \<and> pos = ELEVATOR_INSERT_SORT
               then (ELEVATOR_INSERT_BACK, q)
             else (pos, q));
          q = (if plug then blk_plug_device q else q)
      in elv_insert e d printed q r pos)"

definition elv_deactivate_rq :: "'e elevator_ops \<Rightarrow> 'e request_queue \<Rightarrow> ptr \<Rightarrow> 'e request_queue" where
  "elv_deactivate_rq e q r =
     (case elevator_deactivate_req_fn e of Some f \<Rightarrow> f q r | None \<Rightarrow> q)"

definition in_flight_dec :: "bool \<Rightarrow> 'e request_queue \<Rightarrow> 'e request_queue" where
  "in_flight_dec sync q = q\<lparr>in_flight := (in_flight q)(sync := in_flight q sync - 1)\<rparr>"

definition elv_requeue_request ::
    "'e elevator_ops \<Rightarrow> 'e blk_driver \<Rightarrow> int \<Rightarrow> 'e request_queue \<Rightarrow> ptr \<Rightarrow>
       (int \<times> 'e request_queue) option" where
  "elv_requeue_request e d printed q r =
     (let q = (if blk_account_rq (rqs q r) then
                 let q = in_flight_dec (rq_is_sync (rqs q r)) q
                 in if cmd_flags (rqs q r) AND REQ_SORTED \<noteq> 0 then elv_deactivate_rq e q r else q
               else q);
          q = upd_rq r (\<lambda>rq. rq\<lparr>cmd_flags := cmd_flags rq AND NOT REQ_STARTED\<rparr>) q
      in elv_insert e d printed q r ELEVATOR_INSERT_REQUEUE)"

section \<open>An empty queue and a plain scheduler, for evaluation\<close>

definition blank_request :: request where
  "blank_request = \<lparr>cmd_flags = 0, cmd_type = REQ_TYPE_FS, data_len = 0, rq_sector = 0, bio_rw = 0,
     rq_disk = NULL, special = NULL, on_hash = False, csd_next = 0, csd_addr = 0\<rparr>"

definition blank_queue :: "ptr \<Rightarrow> 'e \<Rightarrow> list_heap \<Rightarrow> 'e request_queue" where
  "blank_queue hp e h = \<lparr>links = INIT_LIST_HEAD hp h, rqs = (\<lambda>_. blank_request),
     rb_nodes = (\<lambda>_. \<lparr>rb_parent_color = 0, rb_right = NULL, rb_left = NULL\<rparr>), queue_head = hp,
     last_merge = NULL, end_sector = 0, boundary_rq = NULL, unplug_thresh = 4, unplug_delay = 1,
     unplug_timer = None, queue_flags = 0, nr_sorted = 0, in_flight = (\<lambda>_. 0), rq_count = (\<lambda>_. 0),
     ordseq = 0, ordcolor = 0, pre_flush_rq = NULL, bar_rq = NULL, post_flush_rq = NULL,
     orig_bar_rq = NULL, ehash = (\<lambda>_. []), jiffies = 0, elevator_data = e\<rparr>"

definition started_queue :: "'e \<Rightarrow> 'e request_queue" where
  "started_queue e = (blank_queue 4 e \<lparr>nxt = (\<lambda>_. 0), prv = (\<lambda>_. 0)\<rparr>)
     \<lparr>rqs := (\<lambda>_. blank_request)(8 := blank_request\<lparr>cmd_flags := REQ_STARTED\<rparr>), in_flight := (\<lambda>_. 1)\<rparr>"

definition bare_ops :: "unit elevator_ops" where
  "bare_ops = \<lparr>elevator_merge_fn = None, elevator_merged_fn = None, elevator_merge_req_fn = None,
     elevator_allow_merge_fn = None, elevator_dispatch_fn = (\<lambda>q _. Some (0, q)),
     elevator_add_req_fn = (\<lambda>q _. Some q), elevator_queue_empty_fn = None,
     elevator_deactivate_req_fn = None, elevator_former_req_fn = None,
     elevator_latter_req_fn = None\<rparr>"

definition idle_driver :: "'e blk_driver" where
  "idle_driver = \<lparr>drv_run_queue = (\<lambda>q. q), drv_unplug = (\<lambda>q. q)\<rparr>"

definition b0 :: bio where
  "b0 = \<lparr>bi_sector = 8, bi_size = 4096, bi_rw = 0, bi_disk = NULL\<rparr>"

section \<open>What the layer leaves alone\<close>

lemma upd_rq_fields [simp]:
  "links (upd_rq r f q) = links q" "queue_head (upd_rq r f q) = queue_head q"
  "last_merge (upd_rq r f q) = last_merge q" "end_sector (upd_rq r f q) = end_sector q"
  "boundary_rq (upd_rq r f q) = boundary_rq q" "nr_sorted (upd_rq r f q) = nr_sorted q"
  "in_flight (upd_rq r f q) = in_flight q" "ehash (upd_rq r f q) = ehash q"
  "jiffies (upd_rq r f q) = jiffies q" "elevator_data (upd_rq r f q) = elevator_data q"
  "ordseq (upd_rq r f q) = ordseq q" "queue_flags (upd_rq r f q) = queue_flags q"
  "rqs (upd_rq r f q) = (rqs q)(r := f (rqs q r))" "rb_nodes (upd_rq r f q) = rb_nodes q"
  by (simp_all add: upd_rq_def)

lemma elv_rqhash_del_fields [simp]:
  "links (elv_rqhash_del r q) = links q" "queue_head (elv_rqhash_del r q) = queue_head q"
  "last_merge (elv_rqhash_del r q) = last_merge q" "end_sector (elv_rqhash_del r q) = end_sector q"
  "boundary_rq (elv_rqhash_del r q) = boundary_rq q" "nr_sorted (elv_rqhash_del r q) = nr_sorted q"
  "in_flight (elv_rqhash_del r q) = in_flight q" "jiffies (elv_rqhash_del r q) = jiffies q"
  "elevator_data (elv_rqhash_del r q) = elevator_data q"
  "rqs (elv_rqhash_del r q) = (rqs q)(r := (rqs q r)\<lparr>on_hash := False\<rparr>)"
  "rb_nodes (elv_rqhash_del r q) = rb_nodes q"
  by (auto simp: elv_rqhash_del_def elv_rqhash_del_raw_def)

lemma rq_views_on_hash [simp]:
  "blk_rq_pos (rq\<lparr>on_hash := h\<rparr>) = blk_rq_pos rq"
  "blk_rq_sectors (rq\<lparr>on_hash := h\<rparr>) = blk_rq_sectors rq"
  "rq_end_sector (rq\<lparr>on_hash := h\<rparr>) = rq_end_sector rq"
  "rq_data_dir (rq\<lparr>on_hash := h\<rparr>) = rq_data_dir rq"
  "rq_is_sync (rq\<lparr>on_hash := h\<rparr>) = rq_is_sync rq"
  "blk_discard_rq (rq\<lparr>on_hash := h\<rparr>) = blk_discard_rq rq"
  "rq_fifo_time (rq\<lparr>on_hash := h\<rparr>) = rq_fifo_time rq"
  "rq_hash_key (rq\<lparr>on_hash := h\<rparr>) = rq_hash_key rq"
  "rq_mergeable (rq\<lparr>on_hash := h\<rparr>) = rq_mergeable rq"
  by (simp_all add: blk_rq_pos_def blk_rq_sectors_def rq_end_sector_def rq_data_dir_def
      rq_is_sync_def blk_discard_rq_def rq_fifo_time_def rq_hash_key_def rq_mergeable_def
      blk_fs_request_def)

lemma rq_views_csd_next [simp]:
  "blk_rq_pos (rq\<lparr>csd_next := t\<rparr>) = blk_rq_pos rq"
  "rq_data_dir (rq\<lparr>csd_next := t\<rparr>) = rq_data_dir rq"
  "rq_is_sync (rq\<lparr>csd_next := t\<rparr>) = rq_is_sync rq"
  "blk_discard_rq (rq\<lparr>csd_next := t\<rparr>) = blk_discard_rq rq"
  "rq_end_sector (rq\<lparr>csd_next := t\<rparr>) = rq_end_sector rq"
  "rq_fifo_time (rq\<lparr>csd_next := t\<rparr>) = t"
  by (simp_all add: blk_rq_pos_def blk_rq_sectors_def rq_end_sector_def rq_data_dir_def
      rq_is_sync_def blk_discard_rq_def rq_fifo_time_def)

lemma dispatch_stop_on_hash [simp]:
  "dispatch_stop b (rq\<lparr>on_hash := h\<rparr>) pos = dispatch_stop b rq pos"
  by (simp add: dispatch_stop_def)

lemma rq_fifo_clear_fields [simp]:
  "links (rq_fifo_clear r q) = list_del_init r (links q)"
  "queue_head (rq_fifo_clear r q) = queue_head q" "nr_sorted (rq_fifo_clear r q) = nr_sorted q"
  "jiffies (rq_fifo_clear r q) = jiffies q" "elevator_data (rq_fifo_clear r q) = elevator_data q"
  "rqs (rq_fifo_clear r q) = (rqs q)(r := (rqs q r)\<lparr>csd_next := csd_addr (rqs q r)\<rparr>)"
  "rb_nodes (rq_fifo_clear r q) = rb_nodes q"
  by (simp_all add: rq_fifo_clear_def)

lemma elv_dispatch_add_tail_fields [simp]:
  "links (elv_dispatch_add_tail q r) = list_add_tail r (queue_head q) (links q)"
  "queue_head (elv_dispatch_add_tail q r) = queue_head q"
  "nr_sorted (elv_dispatch_add_tail q r) = nr_sorted q - 1"
  "end_sector (elv_dispatch_add_tail q r) = rq_end_sector (rqs q r)"
  "boundary_rq (elv_dispatch_add_tail q r) = r"
  "jiffies (elv_dispatch_add_tail q r) = jiffies q"
  "elevator_data (elv_dispatch_add_tail q r) = elevator_data q"
  "last_merge (elv_dispatch_add_tail q r) = (if last_merge q = r then NULL else last_merge q)"
  "rqs (elv_dispatch_add_tail q r) = (rqs q)(r := (rqs q r)\<lparr>on_hash := False\<rparr>)"
  "rb_nodes (elv_dispatch_add_tail q r) = rb_nodes q"
  by (simp_all add: elv_dispatch_add_tail_def Let_def)

section \<open>The merge hash\<close>

definition hash_ok :: "'e request_queue \<Rightarrow> bool" where
  "hash_ok q \<longleftrightarrow>
     (\<forall>b. distinct (ehash q b)) \<and>
     (\<forall>b r. r \<in> set (ehash q b) \<longleftrightarrow> on_hash (rqs q r) \<and> b = ELV_HASH_FN (rq_hash_key (rqs q r)))"

lemma hash_okD:
  "hash_ok q \<Longrightarrow> distinct (ehash q b)"
  "hash_ok q \<Longrightarrow> r \<in> set (ehash q b) \<longleftrightarrow> on_hash (rqs q r) \<and> b = ELV_HASH_FN (rq_hash_key (rqs q r))"
  unfolding hash_ok_def by blast+

lemma elv_rqhash_del_raw_ok:
  "hash_ok q \<Longrightarrow> hash_ok (elv_rqhash_del_raw r q)"
  by (auto simp: hash_ok_def elv_rqhash_del_raw_def)

lemma elv_rqhash_add_ok:
  assumes "hash_ok q" and "\<not> on_hash (rqs q r)"
  obtains q' where "elv_rqhash_add r q = Some q'" and "hash_ok q'" and "on_hash (rqs q' r)"
proof
  show "elv_rqhash_add r q = Some (the (elv_rqhash_add r q))"
    using assms(2) by (simp add: elv_rqhash_add_def Let_def)
  show "hash_ok (the (elv_rqhash_add r q))"
    using assms by (auto simp: hash_ok_def elv_rqhash_add_def Let_def)
  show "on_hash (rqs (the (elv_rqhash_add r q)) r)"
    using assms(2) by (simp add: elv_rqhash_add_def Let_def)
qed

text \<open>
  After a request's end sector has changed, its old chain no longer matches its key; taking it off
  whichever chain holds it and adding it again restores the hash.
\<close>

definition hash_ok_except :: "ptr \<Rightarrow> 'e request_queue \<Rightarrow> bool" where
  "hash_ok_except x q \<longleftrightarrow>
     (\<forall>b. distinct (ehash q b)) \<and>
     (\<forall>b r. r \<noteq> x \<longrightarrow> (r \<in> set (ehash q b) \<longleftrightarrow>
        on_hash (rqs q r) \<and> b = ELV_HASH_FN (rq_hash_key (rqs q r)))) \<and>
     (\<not> on_hash (rqs q x) \<longrightarrow> (\<forall>b. x \<notin> set (ehash q b)))"

lemma elv_rqhash_reposition_ok:
  assumes "hash_ok_except r q"
  shows "\<exists>q'. elv_rqhash_reposition r q = Some q' \<and> hash_ok q' \<and> on_hash (rqs q' r)"
proof -
  have "hash_ok (elv_rqhash_del_raw r q)" and "\<not> on_hash (rqs (elv_rqhash_del_raw r q) r)"
    using assms unfolding hash_ok_def hash_ok_except_def
    by (cases "on_hash (rqs q r)"; force simp: elv_rqhash_del_raw_def)+
  then show ?thesis
    unfolding elv_rqhash_reposition_def by (meson elv_rqhash_add_ok)
qed

lemma elv_rqhash_scan_ok:
  assumes "hash_ok q" and "distinct rs" and "\<forall>r\<in>set rs. on_hash (rqs q r)"
  shows "\<exists>r q'. elv_rqhash_scan offset rs q = Some (r, q') \<and> hash_ok q' \<and>
     (r \<noteq> NULL \<longrightarrow> r \<in> set rs \<and> on_hash (rqs q' r) \<and> rq_mergeable (rqs q' r) \<and>
        rq_hash_key (rqs q' r) = offset) \<and>
     (\<forall>x. (rqs q' x)\<lparr>on_hash := h\<rparr> = (rqs q x)\<lparr>on_hash := h\<rparr>)"
  using assms
proof (induction rs arbitrary: q)
  case Nil
  then show ?case by simp
next
  case (Cons a rs)
  show ?case
  proof (cases "rq_mergeable (rqs q a)")
    case False
    let ?q = "elv_rqhash_del_raw a q"
    have "hash_ok ?q" "\<forall>r\<in>set rs. on_hash (rqs ?q r)"
      using Cons.prems elv_rqhash_del_raw_ok [of q a] by (auto simp: elv_rqhash_del_raw_def)
    from Cons.IH [OF this(1) _ this(2)] Cons.prems(2) obtain r q' where
      "elv_rqhash_scan offset rs ?q = Some (r, q')" "hash_ok q'"
      "r \<noteq> NULL \<longrightarrow> r \<in> set rs \<and> on_hash (rqs q' r) \<and> rq_mergeable (rqs q' r) \<and>
        rq_hash_key (rqs q' r) = offset"
      "\<forall>x. (rqs q' x)\<lparr>on_hash := h\<rparr> = (rqs ?q x)\<lparr>on_hash := h\<rparr>" by auto
    moreover have "(rqs ?q x)\<lparr>on_hash := h\<rparr> = (rqs q x)\<lparr>on_hash := h\<rparr>" for x
      by (simp add: elv_rqhash_del_raw_def)
    ultimately show ?thesis
      using False Cons.prems by auto
  next
    case True
    show ?thesis
    proof (cases "rq_hash_key (rqs q a) = offset")
      case False
      have "distinct rs" "\<forall>r\<in>set rs. on_hash (rqs q r)" using Cons.prems by auto
      from Cons.IH [OF Cons.prems(1) this] show ?thesis
        using True False Cons.prems by fastforce
    qed (use True Cons.prems in auto)
  qed
qed

lemma elv_rqhash_find_ok:
  assumes "hash_ok q"
  shows "\<exists>r q'. elv_rqhash_find q offset = Some (r, q') \<and> hash_ok q' \<and>
     (r \<noteq> NULL \<longrightarrow> on_hash (rqs q' r) \<and> rq_mergeable (rqs q' r) \<and> rq_hash_key (rqs q' r) = offset)"
  using elv_rqhash_scan_ok [OF assms hash_okD(1) [OF assms], of _ offset]
    hash_okD(2) [OF assms]
  unfolding elv_rqhash_find_def by blast

section \<open>Where \<open>elv_dispatch_sort\<close> puts a request\<close>

definition dispatch_insert ::
    "sector \<Rightarrow> (ptr \<Rightarrow> request) \<Rightarrow> ptr \<Rightarrow> ptr list \<Rightarrow> ptr list" where
  "dispatch_insert b rs r ds =
     (let P = (\<lambda>p. \<not> dispatch_stop b (rs r) (rs p))
      in rev (dropWhile P (rev ds)) @ r # rev (takeWhile P (rev ds)))"

lemma dispatch_insert_mset [simp]: "mset (dispatch_insert b rs r ds) = add_mset r (mset ds)"
proof -
  let ?P = "\<lambda>p. \<not> dispatch_stop b (rs r) (rs p)"
  have "mset (dropWhile ?P (rev ds)) + mset (takeWhile ?P (rev ds)) = mset (rev ds)"
    by (metis mset_append takeWhile_dropWhile_id union_commute)
  then show ?thesis by (simp add: dispatch_insert_def Let_def)
qed

lemma dispatch_walk_eq:
  assumes "dlist (links q) (queue_head q) (as @ bs)"
  shows "dispatch_walk q b rq (last (queue_head q # as)) =
    Some (last (queue_head q # rev (dropWhile (\<lambda>p. \<not> dispatch_stop b rq (rqs q p)) (rev as))))"
  using assms
proof (induction as arbitrary: bs rule: rev_induct)
  case Nil
  then show ?case by (simp add: dispatch_walk.simps)
next
  case (snoc a as)
  have ne: "a \<noteq> queue_head q"
    using dlist_distinct [OF snoc.prems] by auto
  have "prv (links q) a = last (queue_head q # as)"
    using snoc.prems by (cases as rule: rev_cases) (auto simp: dlist_def)
  moreover have "dlist (links q) (queue_head q) (as @ a # bs)"
    using snoc.prems by simp
  ultimately show ?case
    using ne snoc.IH [of "a # bs"] by (simp add: dispatch_walk.simps [of q b rq a])
qed

lemma elv_dispatch_sort_spec:
  assumes d: "dlist (links q) (queue_head q) ds" and r: "r \<notin> set (queue_head q # ds)"
  obtains q' p where "elv_dispatch_sort q r = Some q'"
    and "dlist (links q') (queue_head q') (dispatch_insert (end_sector q) (rqs q) r ds)"
    and "links q' = list_add r p (links q)" and "p \<in> set (queue_head q # ds)"
    and "queue_head q' = queue_head q" and "nr_sorted q' = nr_sorted q - 1"
    and "elevator_data q' = elevator_data q" and "jiffies q' = jiffies q"
    and "rqs q' = (rqs q)(r := (rqs q r)\<lparr>on_hash := False\<rparr>)"
proof -
  define q1 where "q1 = (elv_rqhash_del r (if last_merge q = r then q\<lparr>last_merge := NULL\<rparr> else q))
     \<lparr>nr_sorted := nr_sorted q - 1\<rparr>"
  have q1 [simp]: "links q1 = links q" "queue_head q1 = queue_head q" "end_sector q1 = end_sector q"
    "nr_sorted q1 = nr_sorted q - 1" "elevator_data q1 = elevator_data q" "jiffies q1 = jiffies q"
    "rqs q1 = (rqs q)(r := (rqs q r)\<lparr>on_hash := False\<rparr>)"
    by (simp_all add: q1_def)
  let ?P = "\<lambda>p. \<not> dispatch_stop (end_sector q) (rqs q r) (rqs q p)"
  define pre where "pre = rev (dropWhile ?P (rev ds))"
  define post where "post = rev (takeWhile ?P (rev ds))"
  define entry where "entry = last (queue_head q # pre)"
  have ds: "ds = pre @ post"
    by (metis pre_def post_def rev_append rev_rev_ident takeWhile_dropWhile_id)
  have P: "dropWhile (\<lambda>p. \<not> dispatch_stop (end_sector q) (rqs q1 r) (rqs q1 p)) (rev ds)
      = dropWhile ?P (rev ds)"
    using r by (intro dropWhile_cong) auto
  have "dlist (links q1) (queue_head q1) (ds @ [])" using d by simp
  from dispatch_walk_eq [OF this, of "end_sector q" "rqs q1 r"] have
    w: "dispatch_walk q1 (end_sector q) (rqs q1 r) (prv (links q) (queue_head q)) = Some entry"
    unfolding P using dlist_prv_head [OF d] by (simp add: pre_def entry_def)
  have "elv_dispatch_sort q r =
      Option.bind (dispatch_walk q1 (end_sector q1) (rqs q1 r) (prv (links q1) (queue_head q1)))
        (\<lambda>entry. Some (q1\<lparr>links := list_add r entry (links q1)\<rparr>))"
    by (simp add: elv_dispatch_sort_def Let_def q1_def)
  then have s: "elv_dispatch_sort q r = Some (q1\<lparr>links := list_add r entry (links q)\<rparr>)"
    using w by simp
  have e: "entry \<in> set (queue_head q # ds)"
    using last_in_set [of "queue_head q # pre"] ds by (auto simp: entry_def)
  have l: "dlist (list_add r entry (links q)) (queue_head q) (pre @ r # post)"
  proof (cases pre rule: rev_cases)
    case Nil
    then show ?thesis using dlist_list_add [OF d r] ds by (simp add: entry_def)
  next
    case (snoc pre' p)
    then show ?thesis
      using dlist_list_add_after [of "links q" "queue_head q" pre' p post r] d r ds
      by (simp add: entry_def)
  qed
  show thesis
    by (rule that [OF s, of entry]) (use l e in \<open>auto simp: dispatch_insert_def pre_def post_def Let_def\<close>)
qed

text \<open>The one-way elevator order: positions are compared by their distance above the boundary.\<close>

definition elv_compatible :: "request \<Rightarrow> request \<Rightarrow> bool" where
  "elv_compatible rq pos \<longleftrightarrow>
     blk_discard_rq rq = blk_discard_rq pos \<and> rq_data_dir rq = rq_data_dir pos \<and>
     cmd_flags pos AND dispatch_stop_flags = 0"

definition elv_distance :: "sector \<Rightarrow> request \<Rightarrow> sector" where
  "elv_distance b rq = blk_rq_pos rq - b"

lemma word_sub_less_iff:
  "(x - b < y - (b :: 'a::len word)) \<longleftrightarrow> (b \<le> x \<and> y < b) \<or> ((b \<le> x \<longleftrightarrow> b \<le> y) \<and> x < y)"
  by uint_arith

lemma not_dispatch_stop_iff:
  "\<not> dispatch_stop b rq pos \<longleftrightarrow> elv_compatible rq pos \<and> elv_distance b rq < elv_distance b pos"
  by (auto simp: dispatch_stop_def elv_compatible_def elv_distance_def word_sub_less_iff not_le not_less)

lemma dispatch_insert_split:
  obtains as bs where "ds = as @ bs" and "dispatch_insert b rs r ds = as @ r # bs"
    and "\<And>p. p \<in> set bs \<Longrightarrow> \<not> dispatch_stop b (rs r) (rs p)"
    and "as \<noteq> [] \<Longrightarrow> dispatch_stop b (rs r) (rs (last as))"
proof -
  let ?P = "\<lambda>p. \<not> dispatch_stop b (rs r) (rs p)"
  show thesis
  proof (rule that [of "rev (dropWhile ?P (rev ds))" "rev (takeWhile ?P (rev ds))"])
    show "ds = rev (dropWhile ?P (rev ds)) @ rev (takeWhile ?P (rev ds))"
      by (metis rev_append rev_rev_ident takeWhile_dropWhile_id)
    show "dispatch_insert b rs r ds = rev (dropWhile ?P (rev ds)) @ r # rev (takeWhile ?P (rev ds))"
      by (simp add: dispatch_insert_def Let_def)
    show "?P p" if "p \<in> set (rev (takeWhile ?P (rev ds)))" for p
      using that set_takeWhileD by fastforce
    show "dispatch_stop b (rs r) (rs (last (rev (dropWhile ?P (rev ds)))))"
      if "rev (dropWhile ?P (rev ds)) \<noteq> []"
      using that hd_dropWhile [of ?P "rev ds"] by (simp add: last_rev)
  qed
qed

lemma dispatch_insert_sorted:
  assumes "sorted (map (\<lambda>p. elv_distance b (rs p)) run)"
    and "\<forall>p\<in>set run. elv_compatible (rs r) (rs p)"
    and "pre \<noteq> [] \<longrightarrow> \<not> elv_compatible (rs r) (rs (last pre))"
  shows "\<exists>run'. dispatch_insert b rs r (pre @ run) = pre @ run' \<and> mset run' = add_mset r (mset run) \<and>
     sorted (map (\<lambda>p. elv_distance b (rs p)) run')"
proof -
  obtain as bs where split: "pre @ run = as @ bs"
    and ins: "dispatch_insert b rs r (pre @ run) = as @ r # bs"
    and after: "\<And>p. p \<in> set bs \<Longrightarrow> \<not> dispatch_stop b (rs r) (rs p)"
    and stop: "as \<noteq> [] \<Longrightarrow> dispatch_stop b (rs r) (rs (last as))"
    by (rule dispatch_insert_split [of "pre @ run" b rs r]) (rule that)
  have "length pre \<le> length as"
  proof (rule ccontr)
    assume "\<not> ?thesis"
    then obtain zs where "pre = as @ zs" "zs \<noteq> []" "bs = zs @ run"
      using split by (auto simp: append_eq_append_conv2)
    then have "last pre \<in> set bs" "pre \<noteq> []" by auto
    then show False using after assms(3) by (auto simp: not_dispatch_stop_iff)
  qed
  then obtain as' where as: "as = pre @ as'" and run: "run = as' @ bs"
    using split by (auto simp: append_eq_append_conv2)
  have "elv_distance b (rs p) \<le> elv_distance b (rs r)" if "p \<in> set as'" for p
  proof -
    have "as' \<noteq> []" using that by auto
    then have "dispatch_stop b (rs r) (rs (last as'))" "elv_compatible (rs r) (rs (last as'))"
      using stop assms(2) as run by auto
    then have "elv_distance b (rs (last as')) \<le> elv_distance b (rs r)"
      using not_dispatch_stop_iff [of b "rs r" "rs (last as')"] by (simp add: not_less)
    moreover have "elv_distance b (rs p) \<le> elv_distance b (rs (last as'))"
      using assms(1) run that \<open>as' \<noteq> []\<close>
      by (cases as' rule: rev_cases) (auto simp: sorted_append)
    ultimately show ?thesis by order
  qed
  moreover have "elv_distance b (rs r) \<le> elv_distance b (rs p)" if "p \<in> set bs" for p
    using after [OF that] by (auto simp: not_dispatch_stop_iff)
  ultimately have "sorted (map (\<lambda>p. elv_distance b (rs p)) (as' @ r # bs))"
    using assms(1) run by (auto simp: sorted_append)
  then show ?thesis
    using ins as run by (intro exI [of _ "as' @ r # bs"]) auto
qed

section \<open>The contract of an I/O scheduler\<close>

text \<open>
  \<open>state q P D\<close>: the queue is consistent, the scheduler holds the requests \<open>P\<close> and the dispatch
  list holds \<open>D\<close>.  \<open>fresh q r\<close>: the request \<open>r\<close> is on no list.
\<close>

locale io_scheduler =
  fixes ops :: "'e elevator_ops"
    and state :: "'e request_queue \<Rightarrow> ptr multiset \<Rightarrow> ptr list \<Rightarrow> bool"
    and fresh :: "'e request_queue \<Rightarrow> ptr \<Rightarrow> bool"
  assumes dispatch_none: "state q {#} D \<Longrightarrow>
      \<exists>q'. elevator_dispatch_fn ops q force = Some (0, q') \<and> state q' {#} D \<and>
        nr_sorted q' = nr_sorted q"
    and dispatch_one: "state q P D \<Longrightarrow> P \<noteq> {#} \<Longrightarrow>
      \<exists>r q' D'. elevator_dispatch_fn ops q force = Some (1, q') \<and> r \<in># P \<and>
        state q' (P - {#r#}) D' \<and> mset D' = add_mset r (mset D) \<and> nr_sorted q' = nr_sorted q - 1"
    and add_one: "state q P D \<Longrightarrow> fresh q r \<Longrightarrow>
      \<exists>q' P' D'. elevator_add_req_fn ops q r = Some q' \<and> state q' P' D' \<and> r \<in># P' \<and>
        P' + mset D' = add_mset r (P + mset D) \<and>
        nr_sorted q' + of_nat (size P) + 1 = nr_sorted q + of_nat (size P')"
    and empty_iff: "state q P D \<Longrightarrow>
      \<exists>f. elevator_queue_empty_fn ops = Some f \<and> (f q \<longleftrightarrow> P = {#})"
    and queue_list: "state q P D \<Longrightarrow> dlist (links q) (queue_head q) D"
    and disjoint: "state q P D \<Longrightarrow> r \<in># P \<Longrightarrow> count P r = 1 \<and> r \<notin> set D"
begin

lemma drain_loop:
  "state q P D \<Longrightarrow>
   \<exists>q' D'. elv_drain_loop ops q = Some q' \<and> state q' {#} D' \<and> mset D' = mset D + P \<and>
     nr_sorted q' = nr_sorted q - of_nat (size P)"
proof (induction "size P" arbitrary: q P D)
  case 0
  then have "state q {#} D" "P = {#}" by auto
  with dispatch_none [OF this(1), of True] show ?case
    by (subst elv_drain_loop.simps) auto
next
  case (Suc n)
  then have "P \<noteq> {#}" by auto
  from dispatch_one [OF Suc.prems this, of True] obtain r q1 D1 where
    1: "elevator_dispatch_fn ops q True = Some (1, q1)" "r \<in># P" "state q1 (P - {#r#}) D1"
      "mset D1 = add_mset r (mset D)" "nr_sorted q1 = nr_sorted q - 1" by blast
  have "n = size (P - {#r#})" using Suc.hyps(2) 1(2) by (simp add: size_Diff_singleton)
  from Suc.hyps(1) [OF this 1(3)] obtain q' D' where
    2: "elv_drain_loop ops q1 = Some q'" "state q' {#} D'" "mset D' = mset D1 + (P - {#r#})"
      "nr_sorted q' = nr_sorted q1 - of_nat (size (P - {#r#}))" by blast
  have "elv_drain_loop ops q = Some q'"
    using 1(1) 2(1) by (subst elv_drain_loop.simps) simp
  moreover have "mset D' = mset D + P"
    using 2(3) 1(2,4) by simp
  moreover have "nr_sorted q' = nr_sorted q - of_nat (size P)"
    using 2(4) 1(5) Suc.hyps(2) \<open>n = size (P - {#r#})\<close> by (metis diff_diff_eq of_nat_Suc)
  ultimately show ?case using 2(2) by blast
qed

text \<open>Draining ends, hands every request to the driver exactly once, and prints no complaint.\<close>

lemma drain:
  assumes "state q P D" and "nr_sorted q = of_nat (size P)"
  shows "\<exists>q' D'. elv_drain_elevator ops n q = Some (n, q') \<and> state q' {#} D' \<and>
    mset D' = mset D + P \<and> nr_sorted q' = 0"
  using drain_loop [OF assms(1)] assms(2) by (auto simp: elv_drain_elevator_def)

lemma queue_empty:
  assumes "state q P D"
  shows "elv_queue_empty ops q \<longleftrightarrow> P = {#} \<and> D = []"
  using empty_iff [OF assms] dlist_empty_iff [OF queue_list [OF assms]]
  by (auto simp: elv_queue_empty_def)

end

section \<open>Requeueing\<close>

lemma elv_requeue_request_eq:
  assumes "ordseq q = 0" and "elevator_deactivate_req_fn e = None"
  shows "elv_requeue_request e d n q r =
    Some (n, (set_flags r REQ_SOFTBARRIER
      (upd_rq r (\<lambda>rq. rq\<lparr>cmd_flags := cmd_flags rq AND NOT REQ_STARTED\<rparr>)
        (if blk_account_rq (rqs q r) then in_flight_dec (rq_is_sync (rqs q r)) q else q)))
      \<lparr>links := list_add r (queue_head q) (links q)\<rparr>)"
  using assms
  by (simp add: elv_requeue_request_def elv_insert_def elv_deactivate_rq_def set_flags_def
      in_flight_dec_def ELEVATOR_INSERT_FRONT_def ELEVATOR_INSERT_BACK_def ELEVATOR_INSERT_SORT_def
      ELEVATOR_INSERT_REQUEUE_def Let_def)

text \<open>
  Outside an ordered flush, requeueing a request always returns, puts the request at the
  front of the dispatch list, clears its started flag, and takes it off the in-flight count of its
  own direction once, exactly when it had been accounted.
\<close>

theorem elv_requeue_request_front:
  assumes "ordseq q = 0" and "elevator_deactivate_req_fn e = None"
    and "dlist (links q) (queue_head q) D" and "r \<notin> set (queue_head q # D)"
  shows "\<exists>q'. elv_requeue_request e d n q r = Some (n, q') \<and>
    dlist (links q') (queue_head q') (r # D) \<and>
    cmd_flags (rqs q' r) AND REQ_STARTED = 0 \<and>
    cmd_flags (rqs q' r) AND REQ_SOFTBARRIER = REQ_SOFTBARRIER \<and>
    in_flight q' = (if blk_account_rq (rqs q r)
      then (in_flight q)(rq_is_sync (rqs q r) := in_flight q (rq_is_sync (rqs q r)) - 1)
      else in_flight q)"
proof -
  have "REQ_SOFTBARRIER AND REQ_STARTED = 0"
    by (simp add: req_flag_defs)
  then have "(f AND NOT REQ_STARTED OR REQ_SOFTBARRIER) AND REQ_STARTED = 0"
    "(f AND NOT REQ_STARTED OR REQ_SOFTBARRIER) AND REQ_SOFTBARRIER = REQ_SOFTBARRIER" for f :: u32
    by (auto simp: bit_eq_iff bit_simps)
  then show ?thesis
    unfolding elv_requeue_request_eq [OF assms(1,2)]
    using dlist_list_add [OF assms(3,4)] by (simp add: set_flags_def in_flight_dec_def)
qed

theorem elv_requeue_request_front_witness:
  "\<exists>q'. elv_requeue_request bare_ops idle_driver 0 (started_queue ()) 8 = Some (0, q') \<and>
    dlist (links q') 4 [8] \<and> in_flight q' True = 0"
proof -
  have "dlist (links (started_queue ())) (queue_head (started_queue ())) []"
    by (simp add: started_queue_def blank_queue_def INIT_LIST_HEAD_dlist del: dlist_Nil)
  from elv_requeue_request_front [of "started_queue ()" bare_ops, OF _ _ this, of 8 idle_driver 0]
  show ?thesis
    by (auto simp: started_queue_def blank_queue_def bare_ops_def blank_request_def req_flag_defs
        blk_account_rq_def blk_fs_request_def rq_is_sync_def rw_is_sync_def elv_requeue_request_eq
        set_flags_def in_flight_dec_def)
qed

section \<open>Where a sorted dispatch may go\<close>



section \<open>Back merges\<close>

lemma elv_try_merge_back:
  assumes "elv_try_merge e q r b = ELEVATOR_BACK_MERGE"
  shows "elv_rq_merge_ok e q r b \<and> rq_end_sector (rqs q r) = bi_sector b"
  using assms by (auto simp: elv_try_merge_def ELEVATOR_BACK_MERGE_def ELEVATOR_FRONT_MERGE_def
      ELEVATOR_NO_MERGE_def rq_end_sector_def split: if_splits)



end
