(* ===== verification/Noop_Iosched.thy ===== *)
theory Noop_Iosched
  imports Elevator
begin

text \<open>
  The no-op scheduler, \<open>block/noop-iosched.c\<close>: one FIFO list; a dispatched request is sorted into
  the dispatch list by \<open>elv_dispatch_sort\<close>.  \<open>noop_ops\<close> fulfils the contract \<open>io_scheduler\<close>.
\<close>

section \<open>Operations\<close>

record noop_data =
  nd_queue :: ptr

type_synonym noop_queue = "noop_data request_queue"

definition noop_merged_requests :: "noop_queue \<Rightarrow> ptr \<Rightarrow> ptr \<Rightarrow> noop_queue" where
  "noop_merged_requests q rq next = q\<lparr>links := list_del_init next (links q)\<rparr>"

definition noop_dispatch :: "noop_queue \<Rightarrow> bool \<Rightarrow> (int \<times> noop_queue) option" where
  "noop_dispatch q force =
     (let nd = elevator_data q in
      if \<not> list_empty (nd_queue nd) (links q) then
        let rq = nxt (links q) (nd_queue nd);
            q = q\<lparr>links := list_del_init rq (links q)\<rparr>
        in Option.bind (elv_dispatch_sort q rq) (\<lambda>q. Some (1, q))
      else Some (0, q))"

definition noop_add_request :: "noop_queue \<Rightarrow> ptr \<Rightarrow> noop_queue" where
  "noop_add_request q rq =
     (let nd = elevator_data q in q\<lparr>links := list_add_tail rq (nd_queue nd) (links q)\<rparr>)"

definition noop_queue_empty :: "noop_queue \<Rightarrow> bool" where
  "noop_queue_empty q = (let nd = elevator_data q in list_empty (nd_queue nd) (links q))"

definition noop_former_request :: "noop_queue \<Rightarrow> ptr \<Rightarrow> ptr" where
  "noop_former_request q rq =
     (let nd = elevator_data q in
      if prv (links q) rq = nd_queue nd then NULL else prv (links q) rq)"

definition noop_latter_request :: "noop_queue \<Rightarrow> ptr \<Rightarrow> ptr" where
  "noop_latter_request q rq =
     (let nd = elevator_data q in
      if nxt (links q) rq = nd_queue nd then NULL else nxt (links q) rq)"

text \<open>\<open>nd\<close> is the result of \<open>kmalloc_node\<close>: the address of \<open>nd->queue\<close>, or nothing.\<close>

definition noop_init_queue :: "ptr option \<Rightarrow> list_heap \<Rightarrow> (noop_data \<times> list_heap) option" where
  "noop_init_queue nd h =
     (case nd of None \<Rightarrow> None | Some a \<Rightarrow> Some (\<lparr>nd_queue = a\<rparr>, INIT_LIST_HEAD a h))"

text \<open>\<open>None\<close> when the \<open>BUG_ON\<close> fires.\<close>

definition noop_exit_queue :: "noop_data \<Rightarrow> list_heap \<Rightarrow> unit option" where
  "noop_exit_queue nd h = (if \<not> list_empty (nd_queue nd) h then None else Some ())"

definition elevator_noop :: "noop_data elevator_ops" where
  "elevator_noop = \<lparr>
     elevator_merge_fn = None,
     elevator_merged_fn = None,
     elevator_merge_req_fn = Some (\<lambda>q rq next. Some (noop_merged_requests q rq next)),
     elevator_allow_merge_fn = None,
     elevator_dispatch_fn = noop_dispatch,
     elevator_add_req_fn = (\<lambda>q rq. Some (noop_add_request q rq)),
     elevator_queue_empty_fn = Some noop_queue_empty,
     elevator_deactivate_req_fn = None,
     elevator_former_req_fn = Some (\<lambda>q rq. Some (noop_former_request q rq)),
     elevator_latter_req_fn = Some (\<lambda>q rq. Some (noop_latter_request q rq))\<rparr>"

section \<open>The queue and the dispatch list\<close>

definition noop_lists :: "noop_queue \<Rightarrow> ptr list \<Rightarrow> ptr list \<Rightarrow> bool" where
  "noop_lists q Q D \<longleftrightarrow>
     dlist (links q) (nd_queue (elevator_data q)) Q \<and> dlist (links q) (queue_head q) D \<and>
     set (nd_queue (elevator_data q) # Q) \<inter> set (queue_head q # D) = {}"

definition noop_fresh :: "noop_queue \<Rightarrow> ptr \<Rightarrow> bool" where
  "noop_fresh q r \<longleftrightarrow>
     (\<forall>Q D. noop_lists q Q D \<longrightarrow>
        r \<notin> set (nd_queue (elevator_data q) # Q) \<and> r \<notin> set (queue_head q # D))"

definition noop_state :: "noop_queue \<Rightarrow> ptr multiset \<Rightarrow> ptr list \<Rightarrow> bool" where
  "noop_state q P D \<longleftrightarrow> (\<exists>Q. P = mset Q \<and> noop_lists q Q D)"

lemma noop_add_request_lists:
  assumes "noop_lists q Q D" and "r \<notin> set (nd_queue (elevator_data q) # Q)"
    and "r \<notin> set (queue_head q # D)"
  shows "noop_lists (noop_add_request q r) (Q @ [r]) D"
proof -
  let ?n = "nd_queue (elevator_data q)"
  have d: "dlist (links q) ?n Q" "dlist (links q) (queue_head q) D"
    "set (?n # Q) \<inter> set (queue_head q # D) = {}" using assms(1) by (auto simp: noop_lists_def)
  have "dlist (list_add_tail r ?n (links q)) ?n (Q @ [r])"
    using d(1) assms(2) by (rule klist.holds_add_tail)
  moreover have "dlist (list_add_tail r ?n (links q)) (queue_head q) D"
    using d(2,1,3) assms(3) by (rule klist.frame_add_tail)
  ultimately show ?thesis
    using d(3) assms(3) by (simp add: noop_lists_def noop_add_request_def Let_def)
qed

lemma noop_dispatch_lists:
  assumes l: "noop_lists q (r # Q) D"
  obtains q' where "noop_dispatch q force = Some (1, q')"
    and "noop_lists q' Q (dispatch_insert (end_sector q) (rqs q) r D)"
    and "nr_sorted q' = nr_sorted q - 1"
proof -
  let ?n = "nd_queue (elevator_data q)"
  let ?q = "q\<lparr>links := list_del_init r (links q)\<rparr>"
  from l have d: "dlist (links q) ?n (r # Q)" "dlist (links q) (queue_head q) D"
    "set (?n # r # Q) \<inter> set (queue_head q # D) = {}" by (auto simp: noop_lists_def)
  have first: "nxt (links q) ?n = r" "\<not> list_empty ?n (links q)"
    using dlist_first [OF d(1)] dlist_empty_iff [OF d(1)] by auto
  have 1: "dlist (links ?q) ?n Q"
    using klist.pop_first [OF d(1)] first by simp
  have 2: "dlist (links ?q) (queue_head ?q) D"
    using dlist_frame_list_del_init [OF d(2,1,3)] by simp
  have "r \<notin> set (queue_head ?q # D)" using d(3) by auto
  from elv_dispatch_sort_spec [OF 2 this] obtain q' p where
    s: "elv_dispatch_sort ?q r = Some q'"
      "dlist (links q') (queue_head q') (dispatch_insert (end_sector ?q) (rqs ?q) r D)"
      "links q' = list_add r p (links ?q)" "p \<in> set (queue_head ?q # D)"
      "queue_head q' = queue_head ?q" "nr_sorted q' = nr_sorted ?q - 1"
      "elevator_data q' = elevator_data ?q"
    by blast
  have "dlist (links q') ?n Q"
    unfolding s(3)
    by (rule dlist_frame_list_add [OF 1 2]) (use d(3) s(4) dlist_distinct [OF d(1)] in auto)
  moreover have "set (dispatch_insert (end_sector q) (rqs q) r D) = insert r (set D)"
    by (metis dispatch_insert_mset mset_eq_setD set_mset_add_mset_insert set_mset_mset)
  ultimately have "noop_lists q' Q (dispatch_insert (end_sector q) (rqs q) r D)"
    using s d dlist_distinct [OF d(1)] by (auto simp: noop_lists_def)
  moreover have "noop_dispatch q force = Some (1, q')"
    using first s(1) by (simp add: noop_dispatch_def)
  ultimately show thesis
    using that s(6) by simp
qed

lemma noop_dispatch_empty:
  "noop_lists q [] D \<Longrightarrow> noop_dispatch q force = Some (0, q)"
  by (auto simp: noop_lists_def noop_dispatch_def list_empty_def)

interpretation noop: io_scheduler elevator_noop noop_state noop_fresh
proof unfold_locales
  fix q D force
  assume "noop_state q {#} D"
  then have "noop_lists q [] D" by (simp add: noop_state_def)
  then show "\<exists>q'. elevator_dispatch_fn elevator_noop q force = Some (0, q') \<and>
      noop_state q' {#} D \<and> nr_sorted q' = nr_sorted q"
    by (auto simp: elevator_noop_def noop_dispatch_empty noop_state_def)
next
  fix q P D force
  assume "noop_state q P D" and "P \<noteq> {#}"
  then obtain r Q where P: "P = mset (r # Q)" and l: "noop_lists q (r # Q) D"
    unfolding noop_state_def by (metis list.exhaust mset.simps(1))
  from noop_dispatch_lists [OF l] obtain q' where
    "noop_dispatch q force = Some (1, q')"
    "noop_lists q' Q (dispatch_insert (end_sector q) (rqs q) r D)" "nr_sorted q' = nr_sorted q - 1"
    by blast
  then show "\<exists>r q' D'. elevator_dispatch_fn elevator_noop q force = Some (1, q') \<and> r \<in># P \<and>
      noop_state q' (P - {#r#}) D' \<and> mset D' = add_mset r (mset D) \<and>
      nr_sorted q' = nr_sorted q - 1"
    using P by (intro exI [of _ r] exI [of _ q'] exI) (auto simp: elevator_noop_def noop_state_def)
next
  fix q P D r
  assume "noop_state q P D" and "noop_fresh q r"
  then obtain Q where "P = mset Q" "noop_lists (noop_add_request q r) (Q @ [r]) D"
    using noop_add_request_lists unfolding noop_state_def noop_fresh_def by blast
  then have "noop_state (noop_add_request q r) (add_mset r P) D"
    unfolding noop_state_def by (intro exI [of _ "Q @ [r]"]) simp
  moreover have "nr_sorted (noop_add_request q r) = nr_sorted q"
    by (simp add: noop_add_request_def Let_def)
  ultimately show "\<exists>q' P' D'. elevator_add_req_fn elevator_noop q r = Some q' \<and> noop_state q' P' D' \<and> r \<in># P' \<and>
      P' + mset D' = add_mset r (P + mset D) \<and>
      nr_sorted q' + of_nat (size P) + 1 = nr_sorted q + of_nat (size P')"
    by (intro exI [of _ "noop_add_request q r"] exI [of _ "add_mset r P"] exI [of _ D])
      (simp add: elevator_noop_def add.commute)
next
  fix q P D
  assume "noop_state q P D"
  then show "\<exists>f. elevator_queue_empty_fn elevator_noop = Some f \<and> (f q \<longleftrightarrow> P = {#})"
    by (auto simp: noop_state_def noop_lists_def elevator_noop_def noop_queue_empty_def Let_def
        klist.emptyp_iff)
next
  fix q P D
  assume "noop_state q P D"
  then show "dlist (links q) (queue_head q) D"
    by (auto simp: noop_state_def noop_lists_def)
next
  fix q P D r
  assume "noop_state q P D" and "r \<in># P"
  then show "count P r = 1 \<and> r \<notin> set D"
    by (auto simp: noop_state_def noop_lists_def dlist_def count_mset_distinct)
qed

text \<open>Neighbours in the list, for request merging.\<close>

lemma noop_former_request_eq:
  assumes "noop_lists q (as @ r # bs) D"
  shows "noop_former_request q r = (if as = [] then NULL else last as)"
  using assms by (cases as rule: rev_cases) (auto simp: noop_lists_def noop_former_request_def dlist_def)

lemma noop_latter_request_eq:
  assumes "noop_lists q (as @ r # bs) D"
  shows "noop_latter_request q r = (if bs = [] then NULL else List.hd bs)"
  using assms by (cases bs) (auto simp: noop_lists_def noop_latter_request_def dlist_def)

lemma noop_init_queue_lists:
  assumes "noop_init_queue (Some a) h = Some (nd, h')"
  shows "dlist h' (nd_queue nd) []"
  using assms INIT_LIST_HEAD_dlist by (auto simp: noop_init_queue_def)

section \<open>Draining\<close>

text \<open>
  (C27) Draining a queue under the no-op scheduler ends; it moves every request the scheduler holds
  to the dispatch list exactly once, leaves the scheduler empty, brings \<open>nr_sorted\<close> to zero and
  prints no complaint.
\<close>

theorem noop_drain:
  assumes "noop_state q P D" and "nr_sorted q = of_nat (size P)"
  shows "\<exists>q' D'. elv_drain_elevator elevator_noop n q = Some (n, q') \<and> noop_state q' {#} D' \<and>
    mset D' = mset D + P \<and> nr_sorted q' = 0"
  using assms by (rule noop.drain)

definition noop_example :: noop_queue where
  "noop_example = noop_add_request
     ((blank_queue 4 \<lparr>nd_queue = 16\<rparr> (INIT_LIST_HEAD 16 \<lparr>nxt = id, prv = id\<rparr>))\<lparr>nr_sorted := 1\<rparr>) 8"

lemma noop_example_state: "noop_state noop_example {#8#} []"
proof -
  let ?q = "(blank_queue 4 \<lparr>nd_queue = 16\<rparr> (INIT_LIST_HEAD 16 \<lparr>nxt = id, prv = id\<rparr>))\<lparr>nr_sorted := 1\<rparr>"
  have "noop_lists ?q [] []"
    by (simp add: noop_lists_def blank_queue_def INIT_LIST_HEAD_def set_next_def set_prev_def)
  from noop_add_request_lists [OF this, of 8] have "noop_lists noop_example [8] []"
    by (simp add: noop_example_def blank_queue_def)
  then show ?thesis by (auto simp: noop_state_def intro: exI [of _ "[8]"])
qed

theorem noop_drain_witness:
  "\<exists>q' D'. elv_drain_elevator elevator_noop 0 noop_example = Some (0, q') \<and>
    noop_state q' {#} D' \<and> mset D' = {#8#} \<and> nr_sorted q' = 0"
  using noop_drain [OF noop_example_state, of 0]
  by (simp add: noop_example_def blank_queue_def noop_add_request_def Let_def)

end
