(* ===== verification/Kernel_Time.thy ===== *)
theory Kernel_Time
  imports Kernel_Prelude "HOL-Library.Signed_Division"
begin

text \<open>
  Time conversions: \<open>kernel/time.c\<close>, \<open>kernel/time/timeconv.c\<close> and the parts of
  \<open>include/linux/time.h\<close> they use, at \<open>HZ = 256\<close> with the conversion factors that
  \<open>kernel/timeconst.pl\<close> lists for that rate.

  \<open>time_t\<close> and \<open>long\<close> are 32-bit words, read with \<open>sint\<close> where the code compares them as signed.  A
  64-bit signed nanosecond count and the day counts of \<open>time_to_tm\<close>, which stay far below the
  width of \<open>long\<close>, are integers; \<open>sdiv\<close> and \<open>smod\<close> are C's truncating operators.
\<close>

section \<open>Ticks and milliseconds\<close>

definition HZ_TO_MSEC_MUL32 :: u64 where "HZ_TO_MSEC_MUL32 = 0xfa000000"
definition HZ_TO_MSEC_SHR32 :: nat where "HZ_TO_MSEC_SHR32 = 30"
definition MSEC_TO_HZ_MUL32 :: u64 where "MSEC_TO_HZ_MUL32 = 0x83126e98"
definition MSEC_TO_HZ_ADJ32 :: u64 where "MSEC_TO_HZ_ADJ32 = 0x1fbe76c8b"
definition MSEC_TO_HZ_SHR32 :: nat where "MSEC_TO_HZ_SHR32 = 33"
definition HZ_TO_USEC_MUL32 :: u64 where "HZ_TO_USEC_MUL32 = 0xf4240000"
definition HZ_TO_USEC_SHR32 :: nat where "HZ_TO_USEC_SHR32 = 20"
definition USEC_TO_HZ_MUL32 :: u64 where "USEC_TO_HZ_MUL32 = 0x8637bd06"
definition USEC_TO_HZ_ADJ32 :: u64 where "USEC_TO_HZ_ADJ32 = 0x7ffde7210be"
definition USEC_TO_HZ_SHR32 :: nat where "USEC_TO_HZ_SHR32 = 43"

definition MAX_JIFFY_OFFSET :: ulong where "MAX_JIFFY_OFFSET = drop_bit 1 0x7fffffff - 1"

definition USER_HZ :: nat where "USER_HZ = 100"
definition NSEC_PER_SEC :: int where "NSEC_PER_SEC = 1000000000"

lemmas timeconst_defs = HZ_TO_MSEC_MUL32_def HZ_TO_MSEC_SHR32_def MSEC_TO_HZ_MUL32_def
  MSEC_TO_HZ_ADJ32_def MSEC_TO_HZ_SHR32_def HZ_TO_USEC_MUL32_def HZ_TO_USEC_SHR32_def
  USEC_TO_HZ_MUL32_def USEC_TO_HZ_ADJ32_def USEC_TO_HZ_SHR32_def MAX_JIFFY_OFFSET_def

definition jiffies_to_msecs :: "ulong \<Rightarrow> u32" where
  "jiffies_to_msecs j = ucast (drop_bit HZ_TO_MSEC_SHR32 (HZ_TO_MSEC_MUL32 * ucast j))"

definition jiffies_to_usecs :: "ulong \<Rightarrow> u32" where
  "jiffies_to_usecs j = ucast (drop_bit HZ_TO_USEC_SHR32 (HZ_TO_USEC_MUL32 * ucast j))"

definition msecs_to_jiffies :: "u32 \<Rightarrow> ulong" where
  "msecs_to_jiffies m =
     (if sint m < 0 then MAX_JIFFY_OFFSET
      else ucast (drop_bit MSEC_TO_HZ_SHR32 (MSEC_TO_HZ_MUL32 * ucast m + MSEC_TO_HZ_ADJ32)))"

definition usecs_to_jiffies :: "u32 \<Rightarrow> ulong" where
  "usecs_to_jiffies u =
     (if u > jiffies_to_usecs MAX_JIFFY_OFFSET then MAX_JIFFY_OFFSET
      else ucast (drop_bit USEC_TO_HZ_SHR32 (USEC_TO_HZ_MUL32 * ucast u + USEC_TO_HZ_ADJ32)))"

definition clock_t_to_jiffies :: "ulong \<Rightarrow> ulong" where
  "clock_t_to_jiffies x =
     (if x \<ge> (- 1) div of_nat HZ * of_nat USER_HZ then - 1
      else ucast ((ucast x * of_nat HZ :: u64) div of_nat USER_HZ))"

definition nsec_to_clock_t :: "u64 \<Rightarrow> u64" where
  "nsec_to_clock_t x = x div 10000000"

definition nsecs_to_jiffies :: "u64 \<Rightarrow> ulong" where
  "nsecs_to_jiffies n = ucast (n div 3906250)"

section \<open>Seconds and nanoseconds\<close>

record timespec =
  tv_sec :: ulong
  tv_nsec :: ulong

record timeval =
  tvl_sec :: ulong
  tvl_usec :: ulong

definition TIME_T_MAX :: ulong where "TIME_T_MAX = push_bit 31 1 - 1"

definition timespec_equal :: "timespec \<Rightarrow> timespec \<Rightarrow> bool" where
  "timespec_equal a b \<longleftrightarrow> tv_sec a = tv_sec b \<and> tv_nsec a = tv_nsec b"

definition timespec_compare :: "timespec \<Rightarrow> timespec \<Rightarrow> int" where
  "timespec_compare lhs rhs =
     (if sint (tv_sec lhs) < sint (tv_sec rhs) then - 1
      else if sint (tv_sec lhs) > sint (tv_sec rhs) then 1
      else sint (tv_nsec lhs - tv_nsec rhs))"

definition timespec_valid :: "timespec \<Rightarrow> bool" where
  "timespec_valid ts \<longleftrightarrow> sint (tv_sec ts) \<ge> 0 \<and> tv_nsec ts < 1000000000"

text \<open>The two loops of \<open>set_normalized_timespec\<close>; \<open>nsec\<close> is an \<open>s64\<close>, \<open>sec\<close> wraps like \<open>time_t\<close>.\<close>

function normalize_down :: "ulong \<Rightarrow> int \<Rightarrow> ulong \<times> int" where
  "normalize_down sec nsec =
     (if nsec \<ge> NSEC_PER_SEC then normalize_down (sec + 1) (nsec - NSEC_PER_SEC) else (sec, nsec))"
  by auto
termination
  by (relation "measure (\<lambda>(_, n). nat n)") (auto simp: NSEC_PER_SEC_def)

function normalize_up :: "ulong \<Rightarrow> int \<Rightarrow> ulong \<times> int" where
  "normalize_up sec nsec =
     (if nsec < 0 then normalize_up (sec - 1) (nsec + NSEC_PER_SEC) else (sec, nsec))"
  by auto
termination
  by (relation "measure (\<lambda>(_, n). nat (- n))") (auto simp: NSEC_PER_SEC_def)

declare normalize_down.simps [simp del] normalize_up.simps [simp del]

definition set_normalized_timespec :: "ulong \<Rightarrow> int \<Rightarrow> timespec" where
  "set_normalized_timespec sec nsec =
     (let (sec, nsec) = normalize_down sec nsec;
          (sec, nsec) = normalize_up sec nsec
      in \<lparr>tv_sec = sec, tv_nsec = of_int nsec\<rparr>)"

definition timespec_sub :: "timespec \<Rightarrow> timespec \<Rightarrow> timespec" where
  "timespec_sub lhs rhs =
     set_normalized_timespec (tv_sec lhs - tv_sec rhs) (sint (tv_nsec lhs - tv_nsec rhs))"

definition timespec_add_safe :: "timespec \<Rightarrow> timespec \<Rightarrow> timespec" where
  "timespec_add_safe lhs rhs =
     (let res = set_normalized_timespec (tv_sec lhs + tv_sec rhs) (sint (tv_nsec lhs + tv_nsec rhs))
      in if sint (tv_sec res) < sint (tv_sec lhs) \<or> sint (tv_sec res) < sint (tv_sec rhs)
         then res\<lparr>tv_sec := TIME_T_MAX\<rparr> else res)"

definition ns_to_timespec :: "int \<Rightarrow> timespec" where
  "ns_to_timespec nsec =
     (if nsec = 0 then \<lparr>tv_sec = 0, tv_nsec = 0\<rparr>
      else
        let sec = nsec sdiv NSEC_PER_SEC; rem = nsec smod NSEC_PER_SEC
        in if rem < 0 then \<lparr>tv_sec = of_int sec - 1, tv_nsec = of_int (rem + NSEC_PER_SEC)\<rparr>
           else \<lparr>tv_sec = of_int sec, tv_nsec = of_int rem\<rparr>)"

definition ns_to_timeval :: "int \<Rightarrow> timeval" where
  "ns_to_timeval nsec =
     (let ts = ns_to_timespec nsec
      in \<lparr>tvl_sec = tv_sec ts, tvl_usec = of_int (sint (tv_nsec ts) sdiv 1000)\<rparr>)"

definition timespec_trunc :: "timespec \<Rightarrow> u32 \<Rightarrow> timespec" where
  "timespec_trunc t gran =
     (if gran \<le> jiffies_to_usecs 1 * 1000 then t
      else if gran = 1000000000 then t\<lparr>tv_nsec := 0\<rparr>
      else t\<lparr>tv_nsec := tv_nsec t - tv_nsec t mod gran\<rparr>)"

text \<open>
  The factors are exact: ticks to milliseconds rounds down, milliseconds to ticks rounds up.
\<close>

lemma uint_ucast_drop:
  "uint (ucast (drop_bit n (w :: u64)) :: u32) = uint w div 2 ^ n mod 2 ^ 32"
proof -
  have "uint (drop_bit n w) = uint w div 2 ^ n"
    using uint_bounded [of w]
    by (subst unsigned_drop_bit_eq) (simp add: drop_bit_eq_div take_bit_int_eq_self)
  then show ?thesis by (simp add: unsigned_ucast_eq take_bit_eq_mod)
qed

lemma jiffies_to_msecs_eq: "uint (jiffies_to_msecs j) = uint j * 125 div 32 mod 2 ^ 32"
proof -
  have "uint j < 2 ^ 32" using uint_bounded [of j] by simp
  then have "uint (HZ_TO_MSEC_MUL32 * ucast j) = 4194304000 * uint j"
    by (simp add: HZ_TO_MSEC_MUL32_def uint_word_ariths unsigned_ucast_eq take_bit_int_eq_self)
  moreover have "4194304000 * uint j div 2 ^ 30 = uint j * 125 div 32"
    using div_mult_mult1 [of "2 ^ 25" "uint j * 125" "32 :: int"] by simp
  ultimately show ?thesis
    by (simp only: jiffies_to_msecs_def HZ_TO_MSEC_SHR32_def uint_ucast_drop)
qed

lemma int_div_between:
  assumes "(b :: int) > 0" "b * q \<le> a" "a < b * q + 2 * b"
  shows "a div b = (if a < b * q + b then q else q + 1)"
proof (cases "a < b * q + b")
  case True
  then show ?thesis using assms int_div_pos_eq [of a b q "a - b * q"] by simp
next
  case False
  then show ?thesis
    using assms int_div_pos_eq [of a b "q + 1" "a - b * q - b"] by (simp add: distrib_left)
qed

lemma msec_factor:
  assumes "0 \<le> m" "m < 2 ^ 31"
  defines "c \<equiv> (32 * m + 124) div (125 :: int)"
  defines "t \<equiv> (2199023256 * m + 8521215115) div 8589934592"
  shows "(t = c \<or> t = c + 1) \<and> (m < 153391750 \<longrightarrow> t = c)"
proof -
  define s where "s = 125 * c - 32 * m"
  have s: "0 \<le> s" "s \<le> 124" unfolding s_def c_def by linarith+
  define v where "v = 2199023256 * m + 8521215115 - 8589934592 * c"
  have v: "125 * v = 56 * m + 1065151889375 - 8589934592 * s"
    by (simp add: v_def s_def)
  have "0 \<le> v"
  proof (cases "m = 0")
    case True
    then show ?thesis by (simp add: v_def c_def)
  next
    case False
    then show ?thesis using v s(2) assms(1) by linarith
  qed
  moreover have "v < 2 * 8589934592" using v s(1) assms(2) by simp
  moreover have "v < 8589934592" if "m < 153391750"
  proof (cases "s = 0")
    case True
    then have "32 * m = 125 * c" by (simp add: s_def)
    then obtain q where "m = 125 * q"
      by (intro that [of "43 * c - 11 * m"]) simp
    then have "m \<le> 153391625" using \<open>m < 153391750\<close> by simp
    then show ?thesis using v True by linarith
  next
    case False
    then have "1 \<le> s" using s(1) by linarith
    then show ?thesis using v that by linarith
  qed
  ultimately show ?thesis
    using int_div_between [of 8589934592 c "2199023256 * m + 8521215115"]
    by (auto simp: t_def v_def)
qed

lemma msecs_to_jiffies_eq:
  assumes "sint m \<ge> 0"
  shows "uint (msecs_to_jiffies m) = (2199023256 * uint m + 8521215115) div 8589934592"
proof -
  have m: "uint m < 2 ^ 31" "0 \<le> uint m"
    using assms by (simp_all add: sint_u32_nonneg)
  then have "uint (MSEC_TO_HZ_MUL32 * ucast m + MSEC_TO_HZ_ADJ32) = 2199023256 * uint m + 8521215115"
    by (simp add: MSEC_TO_HZ_MUL32_def MSEC_TO_HZ_ADJ32_def uint_word_ariths unsigned_ucast_eq
        take_bit_int_eq_self)
  moreover have "(2199023256 * uint m + 8521215115) div 8589934592 < 2 ^ 32"
    "0 \<le> (2199023256 * uint m + 8521215115) div 8589934592"
    using m by (simp_all add: div_less_iff_less_mult pos_imp_zdiv_nonneg_iff)
  ultimately show ?thesis
    using assms by (simp add: msecs_to_jiffies_def MSEC_TO_HZ_SHR32_def uint_ucast_drop del: drop_bit_word_beyond)
qed

section \<open>Calendar dates\<close>

definition mktime :: "u32 \<Rightarrow> u32 \<Rightarrow> u32 \<Rightarrow> u32 \<Rightarrow> u32 \<Rightarrow> u32 \<Rightarrow> ulong" where
  "mktime year0 mon0 day hour minute sec =
     (let mon = mon0 - 2;
          (mon, year) = (if 0 \<ge> sint mon then (mon + 12, year0 - 1) else (mon, year0))
      in (((year div 4 - year div 100 + year div 400 + 367 * mon div 12 + day
             + year * 365 - 719499) * 24 + hour) * 60 + minute) * 60 + sec)"

record tm =
  tm_sec :: int
  tm_min :: int
  tm_hour :: int
  tm_mday :: int
  tm_mon :: int
  tm_year :: int
  tm_wday :: int
  tm_yday :: int

definition isleap :: "int \<Rightarrow> bool" where
  "isleap year \<longleftrightarrow> year smod 4 = 0 \<and> (year smod 100 \<noteq> 0 \<or> year smod 400 = 0)"

definition math_div :: "int \<Rightarrow> int \<Rightarrow> int" where
  "math_div a b = a sdiv b - (if a smod b < 0 then 1 else 0)"

definition leaps_between :: "int \<Rightarrow> int \<Rightarrow> int" where
  "leaps_between y1 y2 =
     (let leaps1 = math_div (y1 - 1) 4 - math_div (y1 - 1) 100 + math_div (y1 - 1) 400;
          leaps2 = math_div (y2 - 1) 4 - math_div (y2 - 1) 100 + math_div (y2 - 1) 400
      in leaps2 - leaps1)"

definition mon_yday :: "bool \<Rightarrow> int list" where
  "mon_yday leap =
     (if leap then [0, 31, 60, 91, 121, 152, 182, 213, 244, 274, 305, 335, 366]
      else [0, 31, 59, 90, 120, 151, 181, 212, 243, 273, 304, 334, 365])"

definition SECS_PER_HOUR :: int where "SECS_PER_HOUR = 60 * 60"
definition SECS_PER_DAY :: int where "SECS_PER_DAY = SECS_PER_HOUR * 24"

function tm_rem_up :: "int \<Rightarrow> int \<Rightarrow> int \<times> int" where
  "tm_rem_up days rem =
     (if rem < 0 then tm_rem_up (days - 1) (rem + SECS_PER_DAY) else (days, rem))"
  by auto
termination
  by (relation "measure (\<lambda>(_, n). nat (- n))") (auto simp: SECS_PER_DAY_def SECS_PER_HOUR_def)

function tm_rem_down :: "int \<Rightarrow> int \<Rightarrow> int \<times> int" where
  "tm_rem_down days rem =
     (if rem \<ge> SECS_PER_DAY then tm_rem_down (days + 1) (rem - SECS_PER_DAY) else (days, rem))"
  by auto
termination
  by (relation "measure (\<lambda>(_, n). nat n)") (auto simp: SECS_PER_DAY_def SECS_PER_HOUR_def)

declare tm_rem_up.simps [simp del] tm_rem_down.simps [simp del]

definition year_len :: "int \<Rightarrow> int" where
  "year_len y = (if isleap y then 366 else 365)"

text \<open>C's truncating operators, and the code's \<open>math_div\<close>, on positive divisors.\<close>

lemma math_div_eq: "b > 0 \<Longrightarrow> math_div a b = a div b"
proof (cases "a \<ge> 0")
  case False
  assume "b > 0"
  define c where "c = - a"
  have a: "a = - c" "c > 0" using False by (auto simp: c_def)
  consider "c mod b = 0" | "c mod b > 0"
    using pos_mod_sign [OF \<open>b > 0\<close>, of c] by linarith
  then show ?thesis
    using \<open>b > 0\<close> a(2) zdiv_zminus1_eq_if [of b c]
    by cases (auto simp: a(1) math_div_def signed_divide_int_def signed_modulo_int_def sgn_if)
next
  case True
  assume "b > 0"
  then have "\<not> a mod b < 0" by (simp add: not_less)
  then show ?thesis
    using True \<open>b > 0\<close> by (auto simp: math_div_def signed_divide_int_def signed_modulo_int_def sgn_if)
qed

lemma smod_eq_0_iff: "b > 0 \<Longrightarrow> (a :: int) smod b = 0 \<longleftrightarrow> a mod b = 0"
  using pos_mod_bound [of b a] less_irrefl [of b]
  by (auto simp: signed_modulo_int_def sgn_if zmod_zminus1_eq_if simp del: pos_mod_bound)

lemma isleap_iff: "isleap y \<longleftrightarrow> y mod 4 = 0 \<and> (y mod 100 \<noteq> 0 \<or> y mod 400 = 0)"
  by (simp add: isleap_def smod_eq_0_iff)

definition leaps :: "int \<Rightarrow> int" where
  "leaps y = (y - 1) div 4 - (y - 1) div 100 + (y - 1) div 400"

lemma leaps_between_eq: "leaps_between y1 y2 = leaps y2 - leaps y1"
  by (simp add: leaps_between_def leaps_def math_div_eq Let_def)

lemma leaps_Suc: "leaps (y + 1) = leaps y + (if isleap y then 1 else 0)"
proof -
  have step: "y div b = (y - 1) div b + (if y mod b = 0 then 1 else 0)" if "b > 1" for b :: int
  proof -
    obtain q r where y: "y = b * q + r" "0 \<le> r" "r < b"
      by (rule that [of "y div b" "y mod b"]) (use \<open>b > 1\<close> in auto)
    have "y div b = q" "y mod b = r"
      by (rule int_div_pos_eq [OF y], rule int_mod_pos_eq [OF y])
    moreover have "(y - 1) div b = (if r = 0 then q - 1 else q)"
    proof (cases "r = 0")
      case True
      have "y - 1 = b * (q - 1) + (b - 1)" using y True by (simp add: right_diff_distrib)
      from int_div_pos_eq [OF this] show ?thesis using that True by simp
    next
      case False
      have "y - 1 = b * q + (r - 1)" using y by simp
      from int_div_pos_eq [OF this] show ?thesis using y False by simp
    qed
    ultimately show ?thesis by simp
  qed
  have "y mod 400 = 0 \<Longrightarrow> y mod 100 = 0" "y mod 100 = 0 \<Longrightarrow> y mod 4 = 0"
    using mod_mod_cancel [of 100 400 y] mod_mod_cancel [of 4 100 y] by auto
  moreover have "leaps (y + 1) = y div 4 - y div 100 + y div 400"
    by (simp add: leaps_def)
  ultimately show ?thesis
    unfolding step [of 4, simplified] step [of 100, simplified] step [of 400, simplified]
    by (simp only: leaps_def isleap_iff) presburger
qed

lemma leaps_add:
  "0 \<le> leaps (y + int g) - leaps y \<and> leaps (y + int g) - leaps y \<le> int g div 4 + 1"
proof
  show "0 \<le> leaps (y + int g) - leaps y"
  proof (induction g)
    case (Suc g)
    have "leaps (y + int (Suc g)) = leaps (y + int g) + (if isleap (y + int g) then 1 else 0)"
      using leaps_Suc [of "y + int g"] by (simp add: algebra_simps)
    then show ?case using Suc by auto
  qed simp
  let ?a = "y - 1" and ?b = "y - 1 + int g"
  have "x div 400 = x div 100 div 4" for x :: int by (simp add: zdiv_zmult2_eq [symmetric])
  moreover have "?a div 100 \<le> ?b div 100" by (simp add: zdiv_mono1)
  moreover have "(v :: int) div 4 - u div 4 \<le> v - u" if "u \<le> v" for u v using that by linarith
  ultimately have "?b div 400 - ?a div 400 \<le> ?b div 100 - ?a div 100" by simp
  moreover have "?b div 4 - ?a div 4 \<le> int g div 4 + 1" by linarith
  ultimately show "leaps (y + int g) - leaps y \<le> int g div 4 + 1"
    by (simp add: leaps_def algebra_simps)
qed

text \<open>The day number of the first of January; the loop keeps \<open>days + year_start y\<close>.\<close>

definition year_start :: "int \<Rightarrow> int" where
  "year_start y = 365 * y + leaps y"

lemma year_start_Suc: "year_start (y + 1) = year_start y + year_len y"
  by (simp add: year_start_def leaps_Suc year_len_def)

lemma year_guess:
  assumes "days < 0 \<or> days \<ge> year_len y"
  defines "yg \<equiv> y + math_div days 365"
  defines "days' \<equiv> days - ((yg - y) * 365 + leaps_between y yg)"
  shows "0 \<le> days' \<and> days' < year_len yg \<or> \<bar>days'\<bar> < \<bar>days\<bar>"
proof (cases "days < 0")
  case False
  define g where "g = nat (days div 365)"
  have d: "days \<ge> 365" using assms(1) False by (auto simp: year_len_def split: if_splits)
  have g: "math_div days 365 = int g"
    using d by (simp add: g_def math_div_eq)
  have "days' = days - 365 * int g - (leaps (y + int g) - leaps y)"
    by (simp add: days'_def yg_def g leaps_between_eq)
  moreover have "365 * int g \<le> days" "days < 365 * int g + 365" "int g \<ge> 1"
    using d by (auto simp: g_def)
  ultimately show ?thesis
    using leaps_add [of y g] d by linarith
next
  case True
  define g where "g = nat (- (days div 365))"
  have gd: "int g = - (days div 365)"
    using True by (simp add: g_def)
  have g: "math_div days 365 = - int g"
    using gd by (simp add: math_div_eq)
  have yg: "yg = y - int g"
    by (simp add: yg_def g)
  have days': "days' = days + 365 * int g + (leaps (yg + int g) - leaps yg)"
    by (simp add: days'_def yg leaps_between_eq)
  have b: "365 * int g \<ge> - days" "365 * int g < - days + 365"
    using gd by linarith+
  show ?thesis
  proof (cases "g = 1")
    case True
    have "leaps (yg + 1) - leaps yg = year_len yg - 365" "year_len yg \<ge> 365"
      by (simp_all add: leaps_Suc year_len_def)
    then show ?thesis
      using days' b \<open>days < 0\<close> True by simp
  next
    case False
    have "int g \<ge> 2" using False b True by linarith
    then show ?thesis
      using leaps_add [of yg g] days' b by linarith
  qed
qed

section \<open>Broken-down time\<close>

function tm_year_loop :: "int \<Rightarrow> int \<Rightarrow> int \<times> int" where
  "tm_year_loop days y =
     (if days < 0 \<or> days \<ge> (if isleap y then 366 else 365) then
        let yg = y + math_div days 365
        in tm_year_loop (days - ((yg - y) * 365 + leaps_between y yg)) yg
      else (days, y))"
  by auto
termination
proof (relation "measure (\<lambda>(d, y). if 0 \<le> d \<and> d < year_len y then 0 else nat \<bar>d\<bar> + 1)", goal_cases)
  case (2 days y yg)
  then show ?case
    using year_guess [of days y] by (auto simp: year_len_def split: if_splits)
qed simp

declare tm_year_loop.simps [simp del]

fun tm_mon_loop :: "int list \<Rightarrow> int \<Rightarrow> nat \<Rightarrow> nat" where
  "tm_mon_loop ip days 0 = 0"
| "tm_mon_loop ip days (Suc y) = (if days < ip ! Suc y then tm_mon_loop ip days y else Suc y)"

definition time_to_tm :: "int \<Rightarrow> int \<Rightarrow> tm" where
  "time_to_tm totalsecs offset =
     (let days = totalsecs sdiv SECS_PER_DAY;
          rem = totalsecs smod SECS_PER_DAY;
          rem = rem + offset;
          (days, rem) = tm_rem_up days rem;
          (days, rem) = tm_rem_down days rem;
          hour = rem sdiv SECS_PER_HOUR;
          rem = rem smod SECS_PER_HOUR;
          minute = rem sdiv 60;
          sec = rem smod 60;
          wday = (4 + days) smod 7;
          wday = (if wday < 0 then wday + 7 else wday);
          (days, y) = tm_year_loop days 1970;
          ip = mon_yday (isleap y);
          mon = tm_mon_loop ip days 11
      in \<lparr>tm_sec = sec, tm_min = minute, tm_hour = hour, tm_mday = days - ip ! mon + 1,
          tm_mon = int mon, tm_year = y - 1900, tm_wday = wday, tm_yday = days\<rparr>)"

lemma tm_rem_up_spec:
  "tm_rem_up d r = (d', r') \<Longrightarrow>
   d' * SECS_PER_DAY + r' = d * SECS_PER_DAY + r \<and> 0 \<le> r' \<and> (0 \<le> r \<longrightarrow> r' = r)"
proof (induction d r rule: tm_rem_up.induct)
  case (1 d r)
  show ?case
  proof (cases "r < 0")
    case True
    then have "tm_rem_up (d - 1) (r + SECS_PER_DAY) = (d', r')"
      using 1(2) by (simp add: tm_rem_up.simps [of d])
    from 1(1) [OF True this] show ?thesis using True by (simp add: algebra_simps)
  qed (use 1(2) in \<open>simp add: tm_rem_up.simps [of d]\<close>)
qed

lemma tm_rem_down_spec:
  "tm_rem_down d r = (d', r') \<Longrightarrow> 0 \<le> r \<Longrightarrow>
   d' * SECS_PER_DAY + r' = d * SECS_PER_DAY + r \<and> 0 \<le> r' \<and> r' < SECS_PER_DAY"
proof (induction d r rule: tm_rem_down.induct)
  case (1 d r)
  show ?case
  proof (cases "r \<ge> SECS_PER_DAY")
    case True
    then have "tm_rem_down (d + 1) (r - SECS_PER_DAY) = (d', r')"
      using 1(2) by (simp add: tm_rem_down.simps [of d])
    from 1(1) [OF True this] show ?thesis using True by (simp add: algebra_simps)
  qed (use 1(2,3) in \<open>simp add: tm_rem_down.simps [of d]\<close>)
qed

lemma tm_year_loop_spec:
  "tm_year_loop d y = (d', y') \<Longrightarrow>
   d' + year_start y' = d + year_start y \<and> 0 \<le> d' \<and> d' < year_len y'"
proof (induction d y rule: tm_year_loop.induct)
  case (1 d y)
  let ?yg = "y + math_div d 365"
  show ?case
  proof (cases "d < 0 \<or> d \<ge> (if isleap y then 366 else 365)")
    case True
    then have "tm_year_loop (d - ((?yg - y) * 365 + leaps_between y ?yg)) ?yg = (d', y')"
      using 1(2) by (simp add: tm_year_loop.simps [of d] Let_def)
    from 1(1) [OF True refl this] show ?thesis
      by (simp add: year_start_def leaps_between_eq algebra_simps)
  qed (use 1(2) in \<open>auto simp: tm_year_loop.simps [of d] year_len_def\<close>)
qed

lemma tm_mon_loop_spec:
  assumes "0 \<le> d" and "ip ! 0 = 0" and "d < ip ! Suc n"
  shows "tm_mon_loop ip d n \<le> n \<and> ip ! tm_mon_loop ip d n \<le> d \<and> d < ip ! Suc (tm_mon_loop ip d n)"
  using assms by (induction n) auto

lemma word_of_int_div:
  assumes "0 \<le> a" "a < 2 ^ 32" "0 \<le> b" "b < 2 ^ 32"
  shows "(of_int a :: u32) div of_int b = of_int (a div b)"
  using assms by (simp add: word_div_def uint_word_of_int take_bit_int_eq_self)

definition days_from_epoch :: "int \<Rightarrow> int \<Rightarrow> int" where
  "days_from_epoch y yday = year_start y - year_start 1970 + yday"

lemma less_12_cases:
  fixes m :: nat
  assumes "m \<le> 11"
  shows "m = 0 \<or> m = 1 \<or> m = 2 \<or> m = 3 \<or> m = 4 \<or> m = 5 \<or> m = 6 \<or> m = 7 \<or> m = 8 \<or> m = 9 \<or>
    m = 10 \<or> m = 11"
  using assms by (auto simp: eval_nat_numeral le_Suc_eq)

definition gauss_month :: "nat \<Rightarrow> int" where
  "gauss_month m = (if m < 2 then int m + 11 else int m - 1)"

lemma mktime_month:
  assumes "m \<le> 11"
  shows "(let mon = of_int (int m + 1) - 2 :: u32
          in if 0 \<ge> sint mon then (mon + 12, y - 1) else (mon, y)) =
    (of_int (gauss_month m), if m < 2 then y - 1 else y :: u32)"
  using less_12_cases [OF assms] by (elim disjE) (simp_all add: gauss_month_def)

lemma mktime_gauss:
  assumes "m \<le> 11" and "0 < y" "y < 2 ^ 20"
  shows "mktime (of_int y) (of_int (int m + 1)) d hh mm ss =
    (let z = (if m < 2 then y - 1 else y) in
     (((of_int (z div 4 - z div 100 + z div 400 + 367 * gauss_month m div 12) + d
        + of_int (z * 365) - 719499) * 24 + hh) * 60 + mm) * 60 + ss)"
proof -
  define z where "z = (if m < 2 then y - 1 else y)"
  have z: "(if m < 2 then of_int y - 1 else of_int y :: u32) = of_int z" "0 \<le> z" "z < 2 ^ 32"
    using assms by (auto simp: z_def)
  have g: "0 \<le> 367 * gauss_month m" "367 * gauss_month m < 2 ^ 32"
    using assms(1) by (auto simp: gauss_month_def)
  have "mktime (of_int y) (of_int (int m + 1)) d hh mm ss =
    (((of_int z div 4 - of_int z div 100 + of_int z div 400 + 367 * of_int (gauss_month m) div 12 + d
        + of_int z * 365 - 719499) * 24 + hh) * 60 + mm) * 60 + ss"
    using mktime_month [OF assms(1), of "of_int y"] unfolding z(1)
    by (simp only: mktime_def Let_def prod.case)
  also have "367 * of_int (gauss_month m) div 12 = (of_int (367 * gauss_month m div 12) :: u32)"
    using word_of_int_div [OF g, of 12] by simp
  finally show ?thesis
    using word_of_int_div [OF z(2,3), of 4] word_of_int_div [OF z(2,3), of 100]
      word_of_int_div [OF z(2,3), of 400]
    by (simp add: z_def [symmetric] Let_def)
qed

lemma mon_yday_gauss:
  assumes "m \<le> 11"
  shows "367 * gauss_month m div 12 = mon_yday leap ! m + (if m < 2 then 336 else - 29 - of_bool leap)"
  using less_12_cases [OF assms]
  by (elim disjE) (simp_all add: gauss_month_def mon_yday_def)

lemma mktime_eq:
  assumes "0 < y" "y < 2 ^ 20" "m \<le> 11"
  shows "mktime (of_int y) (of_int (int m + 1)) (of_int (yday - mon_yday (isleap y) ! m + 1))
      (of_int hh) (of_int mm) (of_int ss) =
    of_int (days_from_epoch y yday * 86400 + hh * 3600 + mm * 60 + ss)"
proof -
  define z where "z = (if m < 2 then y - 1 else y)"
  have "z div 4 - z div 100 + z div 400 = leaps y + (if m < 2 then 0 else of_bool (isleap y))"
    using leaps_Suc [of y] by (auto simp: leaps_def z_def)
  moreover have "year_start 1970 = 719527" by (simp add: year_start_def leaps_def)
  ultimately have "z div 4 - z div 100 + z div 400 + 367 * gauss_month m div 12
      + (yday - mon_yday (isleap y) ! m + 1) + z * 365 - 719499 = days_from_epoch y yday"
    by (simp add: mon_yday_gauss [OF assms(3), of "isleap y"] days_from_epoch_def year_start_def z_def)
  from arg_cong [OF this, of "of_int :: int \<Rightarrow> u32"]
  have "of_int (z div 4 - z div 100 + z div 400 + 367 * gauss_month m div 12)
      + of_int (yday - mon_yday (isleap y) ! m + 1) + of_int (z * 365) - (719499 :: u32)
      = of_int (days_from_epoch y yday)"
    by (simp only: of_int_add of_int_diff of_int_numeral)
  then show ?thesis
    unfolding mktime_gauss [OF assms(3,1,2)] Let_def z_def [symmetric]
    by (simp only: of_int_add of_int_mult of_int_numeral) (simp add: algebra_simps)
qed

lemma year_bounds:
  assumes "d + year_start y = n" "0 \<le> d" "d < year_len y" "400 < n" "n < 365 * 2 ^ 20"
  shows "0 < y \<and> y < 2 ^ 20"
proof -
  have l1: "leaps 1 = 0" by (simp add: leaps_def)
  have "0 < y"
  proof (rule ccontr)
    assume "\<not> 0 < y"
    then have "leaps (y + 1) \<le> 0"
      using leaps_add [of "y + 1" "nat (- y)"] l1 by simp
    then have "year_start (y + 1) \<le> 365"
      using \<open>\<not> 0 < y\<close> by (simp add: year_start_def)
    then show False
      using assms(1,3,4) year_start_Suc [of y] by linarith
  qed
  moreover have "leaps y \<ge> 0"
    using leaps_add [of 1 "nat (y - 1)"] l1 \<open>0 < y\<close> by simp
  ultimately show ?thesis
    using assms(1,2,5) by (simp add: year_start_def)
qed

lemma mon_yday_ends [simp]: "mon_yday l ! 0 = 0" "mon_yday (isleap y) ! 12 = year_len y"
  by (simp_all add: mon_yday_def year_len_def)

lemma sdivmod_nonneg: "0 \<le> a \<Longrightarrow> 0 < b \<Longrightarrow> (a :: int) sdiv b = a div b \<and> a smod b = a mod b"
  by (auto simp: signed_divide_int_def signed_modulo_int_def sgn_if)

lemma wday_eq: "(let w = a smod 7 in if w < 0 then w + 7 else w) = (a :: int) mod 7"
proof (cases "a \<ge> 0")
  case True
  then show ?thesis using sdivmod_nonneg [of a 7] by (simp add: Let_def not_less)
next
  case False
  then have "a smod 7 = - ((- a) mod 7)" by (simp add: signed_modulo_int_def sgn_if)
  note neg = this
  consider "- a mod 7 = 0" | "- a mod 7 > 0"
    using pos_mod_sign [of 7 "- a"] by linarith
  then show ?thesis
    using neg zmod_zminus1_eq_if [of "- a" 7] by cases (simp_all add: Let_def)
qed

lemma time_to_tm_eq:
  fixes t off
  defines "T \<equiv> t + off"
  obtains d y m where "d + year_start y = T div 86400 + year_start 1970" and "0 \<le> d" and "d < year_len y"
    and "m \<le> 11" and "mon_yday (isleap y) ! m \<le> d" and "d < mon_yday (isleap y) ! Suc m"
    and "time_to_tm t off = \<lparr>tm_sec = T mod 86400 mod 3600 mod 60, tm_min = T mod 86400 mod 3600 div 60,
      tm_hour = T mod 86400 div 3600, tm_mday = d - mon_yday (isleap y) ! m + 1, tm_mon = int m,
      tm_year = y - 1900, tm_wday = (4 + T div 86400) mod 7, tm_yday = d\<rparr>"
proof -
  obtain d1 r1 where 1: "tm_rem_up (t sdiv SECS_PER_DAY) (t smod SECS_PER_DAY + off) = (d1, r1)"
    by fastforce
  obtain d2 r2 where 2: "tm_rem_down d1 r1 = (d2, r2)" by fastforce
  have day: "SECS_PER_DAY = 86400" "SECS_PER_HOUR = 3600"
    by (simp_all add: SECS_PER_DAY_def SECS_PER_HOUR_def)
  have r1: "d1 * 86400 + r1 = t sdiv 86400 * 86400 + (t smod 86400 + off)" "0 \<le> r1"
    using tm_rem_up_spec [OF 1] by (simp_all add: day)
  have "t sdiv 86400 * 86400 + t smod 86400 = t"
    by (simp add: sdiv_mult_smod_eq)
  then have T: "T = 86400 * d2 + r2" "0 \<le> r2" "r2 < 86400"
    using tm_rem_down_spec [OF 2 r1(2)] r1(1) by (simp_all add: T_def day)
  have dm: "T div 86400 = d2" "T mod 86400 = r2"
    by (rule int_div_pos_eq [OF T], rule int_mod_pos_eq [OF T])
  obtain d y where 3: "tm_year_loop d2 1970 = (d, y)" by fastforce
  note y = tm_year_loop_spec [OF 3]
  define m where "m = tm_mon_loop (mon_yday (isleap y)) d 11"
  have m: "m \<le> 11 \<and> mon_yday (isleap y) ! m \<le> d \<and> d < mon_yday (isleap y) ! Suc m"
    unfolding m_def by (rule tm_mon_loop_spec) (use y in simp_all)
  have "time_to_tm t off = \<lparr>tm_sec = r2 mod 3600 mod 60, tm_min = r2 mod 3600 div 60,
      tm_hour = r2 div 3600, tm_mday = d - mon_yday (isleap y) ! m + 1, tm_mon = int m,
      tm_year = y - 1900, tm_wday = (4 + d2) mod 7, tm_yday = d\<rparr>"
    using 1 2 3 T(2) wday_eq [of "4 + d2"] sdivmod_nonneg [of r2 3600] sdivmod_nonneg [of "r2 mod 3600" 60]
    by (simp add: time_to_tm_def m_def day Let_def)
  then show thesis
    using that [of d y m] y m dm by simp
qed

lemma hms_split:
  fixes x :: int
  assumes "0 \<le> x" "x < 86400"
  obtains hh mm ss where "x = hh * 3600 + mm * 60 + ss" and "0 \<le> hh" "hh < 24" "0 \<le> mm" "mm < 60"
    "0 \<le> ss" "ss < 60" and "x div 3600 = hh" "x mod 3600 div 60 = mm" "x mod 3600 mod 60 = ss"
proof (rule that [of "x div 3600" "x mod 3600 div 60" "x mod 3600 mod 60"])
  show "x = x div 3600 * 3600 + x mod 3600 div 60 * 60 + x mod 3600 mod 60" by simp
  show "0 \<le> x div 3600" "x div 3600 < 24" using assms by auto
  show "0 \<le> x mod 3600 div 60" "x mod 3600 div 60 < 60"
    using pos_mod_sign [of 3600 x] pos_mod_bound [of 3600 x] by linarith+
qed simp_all



section \<open>Properties of the tick conversions\<close>

text \<open>
  (C34) For a non-negative number of milliseconds \<open>msecs_to_jiffies\<close> never rounds down: the result is
  the number of 1/256 s ticks rounded up, exactly so below 153391750 ms (42 hours), and at most one
  more above; and converting back with \<open>jiffies_to_msecs\<close> gives at least the number put in.
\<close>

theorem msecs_to_jiffies_ceiling:
  assumes "0 \<le> sint m"
  defines "c \<equiv> (32 * uint m + 124) div 125"
  shows "(uint (msecs_to_jiffies m) = c \<or> uint (msecs_to_jiffies m) = c + 1) \<and>
    (uint m < 153391750 \<longrightarrow> uint (msecs_to_jiffies m) = c) \<and>
    uint m \<le> uint (jiffies_to_msecs (msecs_to_jiffies m))"
proof -
  have m: "0 \<le> uint m" "uint m < 2 ^ 31"
    using assms(1) by (simp_all add: sint_u32_nonneg)
  note f = msec_factor [OF m, folded msecs_to_jiffies_eq [OF assms(1)] c_def]
  define j where "j = uint (msecs_to_jiffies m)"
  have c: "32 * uint m \<le> 125 * c" "125 * c \<le> 32 * uint m + 124"
    unfolding c_def by linarith+
  have j: "j = c \<or> j = c + 1" using f unfolding j_def by (rule conjunct1)
  have "uint m < 2147483648" using m(2) by simp
  then have "32 * uint m \<le> j * 125" "j * 125 < 32 * 4294967296"
    using j c by auto
  then have "uint m \<le> j * 125 div 32" "j * 125 div 32 < 4294967296" by linarith+
  moreover from this m(1) have "j * 125 div 32 mod 4294967296 = j * 125 div 32"
    by (intro mod_pos_pos_trivial) linarith+
  ultimately show ?thesis
    using f by (simp add: jiffies_to_msecs_eq j_def)
qed

theorem msecs_to_jiffies_ceiling_witness:
  "uint (msecs_to_jiffies 10) = 3 \<and> uint (jiffies_to_msecs 3) \<ge> 10"
proof -
  have "0 \<le> sint (10 :: u32)" by simp
  from msecs_to_jiffies_ceiling [OF this] have 1: "uint (msecs_to_jiffies 10) = 3"
    and 2: "10 \<le> uint (jiffies_to_msecs (msecs_to_jiffies 10))" by simp_all
  from 1 have "msecs_to_jiffies 10 = 3" by (metis word_of_int_uint of_int_numeral)
  with 1 2 show ?thesis by simp
qed

section \<open>Properties of the timespec operations\<close>

lemma normalize_down_spec:
  "normalize_down s n = (s', n') \<Longrightarrow>
   \<exists>k. s' = s + of_int k \<and> n = n' + k * NSEC_PER_SEC \<and> n' < NSEC_PER_SEC \<and> (0 \<le> n \<longrightarrow> 0 \<le> n')"
proof (induction s n rule: normalize_down.induct)
  case (1 s n)
  show ?case
  proof (cases "n \<ge> NSEC_PER_SEC")
    case True
    then have "normalize_down (s + 1) (n - NSEC_PER_SEC) = (s', n')"
      using 1(2) by (simp add: normalize_down.simps [of s])
    from 1(1) [OF True this] obtain k where k: "s' = s + 1 + of_int k"
      "n - NSEC_PER_SEC = n' + k * NSEC_PER_SEC" "n' < NSEC_PER_SEC"
      "0 \<le> n - NSEC_PER_SEC \<longrightarrow> 0 \<le> n'" by blast
    then show ?thesis
      using True by (intro exI [of _ "k + 1"]) (auto simp: algebra_simps)
  next
    case False
    then show ?thesis
      using 1(2) by (intro exI [of _ 0]) (auto simp: normalize_down.simps [of s])
  qed
qed

lemma normalize_up_spec:
  "normalize_up s n = (s', n') \<Longrightarrow> n < NSEC_PER_SEC \<Longrightarrow>
   \<exists>k. s' = s + of_int k \<and> n = n' + k * NSEC_PER_SEC \<and> 0 \<le> n' \<and> n' < NSEC_PER_SEC"
proof (induction s n rule: normalize_up.induct)
  case (1 s n)
  show ?case
  proof (cases "n < 0")
    case True
    then have "normalize_up (s - 1) (n + NSEC_PER_SEC) = (s', n')" "n + NSEC_PER_SEC < NSEC_PER_SEC"
      using 1(2) by (simp_all add: normalize_up.simps [of s])
    from 1(1) [OF True this] obtain k where k: "s' = s - 1 + of_int k"
      "n + NSEC_PER_SEC = n' + k * NSEC_PER_SEC" "0 \<le> n'" "n' < NSEC_PER_SEC" by blast
    then show ?thesis
      by (intro exI [of _ "k - 1"]) (auto simp: algebra_simps)
  next
    case False
    then show ?thesis
      using 1(2,3) by (intro exI [of _ 0]) (auto simp: normalize_up.simps [of s])
  qed
qed

lemma set_normalized_timespec_eq:
  "set_normalized_timespec s n =
    \<lparr>tv_sec = s + of_int (n div NSEC_PER_SEC), tv_nsec = of_int (n mod NSEC_PER_SEC)\<rparr>"
proof -
  obtain s1 n1 where 1: "normalize_down s n = (s1, n1)" by fastforce
  obtain s2 n2 where 2: "normalize_up s1 n1 = (s2, n2)" by fastforce
  obtain k where k: "s1 = s + of_int k" "n = n1 + k * NSEC_PER_SEC" "n1 < NSEC_PER_SEC"
    using normalize_down_spec [OF 1] by blast
  obtain l where l: "s2 = s1 + of_int l" "n1 = n2 + l * NSEC_PER_SEC" "0 \<le> n2" "n2 < NSEC_PER_SEC"
    using normalize_up_spec [OF 2 k(3)] by blast
  have n: "n = NSEC_PER_SEC * (k + l) + n2"
    using k(2) l(2) by (simp add: algebra_simps)
  have "n div NSEC_PER_SEC = k + l" "n mod NSEC_PER_SEC = n2"
    by (rule int_div_pos_eq [OF n l(3,4)], rule int_mod_pos_eq [OF n l(3,4)])
  then show ?thesis
    using 1 2 k(1) l(1) by (simp add: set_normalized_timespec_def algebra_simps)
qed

text \<open>
  (C35) Adding two valid times gives a valid time; it is the exact sum whenever the seconds fit a
  \<open>time_t\<close>, and otherwise its seconds are the largest \<open>time_t\<close>, never a negative wrapped value.
\<close>

theorem timespec_add_safe_saturates:
  assumes "timespec_valid a" and "timespec_valid b"
  defines "c \<equiv> (uint (tv_nsec a) + uint (tv_nsec b)) div NSEC_PER_SEC"
  shows "timespec_valid (timespec_add_safe a b) \<and>
    sint (tv_sec (timespec_add_safe a b)) = min (sint (tv_sec a) + sint (tv_sec b) + c) (2 ^ 31 - 1) \<and>
    uint (tv_nsec (timespec_add_safe a b)) = (uint (tv_nsec a) + uint (tv_nsec b)) mod NSEC_PER_SEC"
proof -
  define n where "n = uint (tv_nsec a) + uint (tv_nsec b)"
  have v: "uint (tv_sec a) < 2 ^ 31" "uint (tv_sec b) < 2 ^ 31"
    "uint (tv_nsec a) < 1000000000" "uint (tv_nsec b) < 1000000000"
    using assms(1,2) by (auto simp: timespec_valid_def sint_u32_nonneg word_less_def)
  have s: "sint (tv_sec a) = uint (tv_sec a)" "sint (tv_sec b) = uint (tv_sec b)"
    using v(1,2) by (simp_all add: sint_u32)
  have "uint (tv_nsec a + tv_nsec b) = n"
    using v(3,4) by (simp add: n_def uint_word_ariths)
  then have n: "sint (tv_nsec a + tv_nsec b) = n"
    using v(3,4) by (simp add: sint_u32 n_def)
  have nn: "0 \<le> n mod NSEC_PER_SEC" "n mod NSEC_PER_SEC < 1000000000" "0 \<le> c" "c \<le> 1"
  proof -
    have "0 \<le> n" "n < 2 * 1000000000" using v(3,4) by (simp_all add: n_def)
    then have "0 \<le> n div 1000000000" "n div 1000000000 \<le> 1" by linarith+
    then show "0 \<le> c" "c \<le> 1" by (simp_all add: c_def n_def NSEC_PER_SEC_def)
  qed (simp_all add: NSEC_PER_SEC_def)
  define res where "res = \<lparr>tv_sec = tv_sec a + tv_sec b + of_int c, tv_nsec = of_int (n mod NSEC_PER_SEC) :: ulong\<rparr>"
  define S where "S = uint (tv_sec a) + uint (tv_sec b) + c"
  have res: "set_normalized_timespec (tv_sec a + tv_sec b) (sint (tv_nsec a + tv_nsec b)) = res"
    by (simp add: set_normalized_timespec_eq n res_def c_def n_def)
  have S: "0 \<le> S" "S < 2 ^ 32" "uint (tv_sec a) \<le> S" "uint (tv_sec b) \<le> S"
    using v(1,2) nn(3,4) by (auto simp: S_def)
  have "tv_sec res = of_int S"
    by (simp add: res_def S_def)
  then have r: "uint (tv_sec res) = S" using S by (simp add: uint_of_int_u32)
  have ns: "uint (tv_nsec res) = n mod NSEC_PER_SEC"
    using nn by (simp add: res_def uint_of_int_u32)
  have max: "sint TIME_T_MAX = 2 ^ 31 - 1" by (simp add: TIME_T_MAX_def)
  show ?thesis
  proof (cases "S < 2 ^ 31")
    case True
    then have "sint (tv_sec res) = S" using r by (simp add: sint_u32)
    then have "timespec_add_safe a b = res"
      using S s by (simp add: timespec_add_safe_def res)
    then show ?thesis
      using \<open>sint (tv_sec res) = S\<close> S(1) True ns nn s
      by (simp add: timespec_valid_def word_less_def S_def n_def)
  next
    case False
    then have "sint (tv_sec res) < 0" using r S by (simp add: sint_u32)
    then have "sint (tv_sec res) < sint (tv_sec a)" using s(1) by (simp add: less_le_trans)
    then have "timespec_add_safe a b = res\<lparr>tv_sec := TIME_T_MAX\<rparr>"
      by (simp add: timespec_add_safe_def res)
    then show ?thesis
      using max False ns nn s by (simp add: timespec_valid_def word_less_def S_def n_def)
  qed
qed

theorem timespec_add_safe_saturates_witness:
  "sint (tv_sec (timespec_add_safe \<lparr>tv_sec = 0x7fffffff, tv_nsec = 600000000\<rparr>
      \<lparr>tv_sec = 0, tv_nsec = 600000000\<rparr>)) = 2 ^ 31 - 1"
  using timespec_add_safe_saturates [of "\<lparr>tv_sec = 0x7fffffff, tv_nsec = 600000000\<rparr>"
      "\<lparr>tv_sec = 0, tv_nsec = 600000000\<rparr>"]
  by (simp add: timespec_valid_def NSEC_PER_SEC_def)

end
