(* ===== verification/Vsprintf.thy ===== *)
theory Vsprintf
  imports Kernel_Prelude
begin

text \<open>
  Number parsing and printing, \<open>lib/vsprintf.c\<close>.

  A C string is the list of its characters before the terminating zero, and reading at the end of
  the list gives that zero.  A parser returns the value and the rest of the string, to which
  \<open>endp\<close> points.  A printer returns the characters it emits; the code advances \<open>buf\<close> over all of
  them and stores those that lie before \<open>end\<close>.  \<open>unsigned long long\<close> is a 64-bit word.
\<close>

section \<open>Characters\<close>

type_synonym cstring = string

abbreviation code :: "char \<Rightarrow> nat" where
  "code c \<equiv> of_char c"

definition cp_at :: "cstring \<Rightarrow> nat \<Rightarrow> nat" where
  "cp_at cp i = (if i < length cp then code (cp ! i) else 0)"

definition isdigit :: "nat \<Rightarrow> bool" where
  "isdigit c \<longleftrightarrow> 48 \<le> c \<and> c \<le> 57"

definition isxdigit :: "nat \<Rightarrow> bool" where
  "isxdigit c \<longleftrightarrow> 48 \<le> c \<and> c \<le> 57 \<or> 65 \<le> c \<and> c \<le> 70 \<or> 97 \<le> c \<and> c \<le> 102"

definition TOLOWER :: "nat \<Rightarrow> nat" where
  "TOLOWER x = x OR 0x20"

section \<open>Parsing\<close>

definition simple_guess_base :: "cstring \<Rightarrow> nat" where
  "simple_guess_base cp =
     (if cp_at cp 0 = 48 then
        if TOLOWER (cp_at cp 1) = 120 \<and> isxdigit (cp_at cp 2) then 16 else 8
      else 10)"

definition digit_value :: "nat \<Rightarrow> nat" where
  "digit_value c = (if isdigit c then c - 48 else TOLOWER c - 97 + 10)"

fun strtoull_loop :: "nat \<Rightarrow> u64 \<Rightarrow> cstring \<Rightarrow> u64 \<times> cstring" where
  "strtoull_loop base result [] = (result, [])"
| "strtoull_loop base result (c # cp) =
     (if isxdigit (code c) then
        let value = digit_value (code c)
        in if value \<ge> base then (result, c # cp)
           else strtoull_loop base (result * of_nat base + of_nat value) cp
      else (result, c # cp))"

definition simple_strtoull :: "cstring \<Rightarrow> nat \<Rightarrow> u64 \<times> cstring" where
  "simple_strtoull cp base =
     (let base = (if base = 0 then simple_guess_base cp else base);
          cp = (if base = 16 \<and> cp_at cp 0 = 48 \<and> TOLOWER (cp_at cp 1) = 120 then drop 2 cp else cp)
      in strtoull_loop base 0 cp)"

definition simple_strtoul :: "cstring \<Rightarrow> nat \<Rightarrow> ulong \<times> cstring" where
  "simple_strtoul cp base = (let (v, rest) = simple_strtoull cp base in (ucast v, rest))"

definition simple_strtol :: "cstring \<Rightarrow> nat \<Rightarrow> int \<times> cstring" where
  "simple_strtol cp base =
     (if cp_at cp 0 = 45 then
        let (v, rest) = simple_strtoul (drop 1 cp) base in (sint (- v), rest)
      else let (v, rest) = simple_strtoul cp base in (sint v, rest))"

definition simple_strtoll :: "cstring \<Rightarrow> nat \<Rightarrow> int \<times> cstring" where
  "simple_strtoll cp base =
     (if cp_at cp 0 = 45 then
        let (v, rest) = simple_strtoull (drop 1 cp) base in (sint (- v), rest)
      else let (v, rest) = simple_strtoull cp base in (sint v, rest))"

text \<open>
  The strict variants return the error number and the value stored through \<open>res\<close>.  The tail has to
  be the end of the string, or a newline that is its last character.
\<close>

definition strict_tail_ok :: "cstring \<Rightarrow> bool" where
  "strict_tail_ok tail \<longleftrightarrow> tail = [] \<or> length tail = 1 \<and> code (tail ! 0) = 10"

definition strict_strtoul :: "cstring \<Rightarrow> nat \<Rightarrow> int \<times> ulong" where
  "strict_strtoul cp base =
     (if cp = [] then (- EINVAL, 0)
      else
        let (val, tail) = simple_strtoul cp base
        in if length tail = length cp then (- EINVAL, 0)
           else if strict_tail_ok tail then (0, val)
           else (- EINVAL, 0))"

definition strict_strtol :: "cstring \<Rightarrow> nat \<Rightarrow> int \<times> ulong" where
  "strict_strtol cp base =
     (if cp_at cp 0 = 45 then
        let (ret, res) = strict_strtoul (drop 1 cp) base
        in (ret, if ret = 0 then - res else res)
      else strict_strtoul cp base)"

definition strict_strtoull :: "cstring \<Rightarrow> nat \<Rightarrow> int \<times> u64" where
  "strict_strtoull cp base =
     (if cp = [] then (- EINVAL, 0)
      else
        let (val, tail) = simple_strtoull cp base
        in if length tail = length cp then (- EINVAL, 0)
           else if strict_tail_ok tail then (0, val)
           else (- EINVAL, 0))"

definition strict_strtoll :: "cstring \<Rightarrow> nat \<Rightarrow> int \<times> u64" where
  "strict_strtoll cp base =
     (if cp_at cp 0 = 45 then
        let (ret, res) = strict_strtoull (drop 1 cp) base
        in (ret, if ret = 0 then - res else res)
      else strict_strtoull cp base)"

text \<open>\<open>skip_atoi\<close> keeps its running value in an \<open>int\<close>.\<close>

fun skip_atoi_loop :: "u32 \<Rightarrow> cstring \<Rightarrow> u32 \<times> cstring" where
  "skip_atoi_loop i [] = (i, [])"
| "skip_atoi_loop i (c # s) =
     (if isdigit (code c) then skip_atoi_loop (i * 10 + of_nat (code c) - 48) s else (i, c # s))"

definition skip_atoi :: "cstring \<Rightarrow> int \<times> cstring" where
  "skip_atoi s = (let (i, rest) = skip_atoi_loop 0 s in (sint i, rest))"

section \<open>Decimal output\<close>

text \<open>
  The digits are computed from the hexadecimal digits of \<open>q\<close> with multiplications for the
  divisions by ten; \<open>q\<close> is below 100000, so no intermediate value comes near 32 bits.  The result
  has the least significant digit first.
\<close>

definition dchar :: "nat \<Rightarrow> char" where
  "dchar d = char_of (d + 48)"

definition put_dec_trunc :: "nat \<Rightarrow> cstring" where
  "put_dec_trunc q =
     (let d1 = drop_bit 4 q AND 0xf;
          d2 = drop_bit 8 q AND 0xf;
          d3 = drop_bit 12 q;
          d0 = 6 * (d3 + d2 + d1) + (q AND 0xf);
          q = drop_bit 11 (d0 * 0xcd);
          d0 = d0 - 10 * q;
          d1 = q + 9 * d3 + 5 * d2 + d1
      in dchar d0 #
        (if d1 \<noteq> 0 then
           let q = drop_bit 11 (d1 * 0xcd);
               d1 = d1 - 10 * q;
               d2 = q + 2 * d2
           in dchar d1 #
             (if d2 \<noteq> 0 \<or> d3 \<noteq> 0 then
                let q = drop_bit 7 (d2 * 0xd);
                    d2 = d2 - 10 * q;
                    d3 = q + 4 * d3
                in dchar d2 #
                  (if d3 \<noteq> 0 then
                     let q = drop_bit 11 (d3 * 0xcd);
                         d3 = d3 - 10 * q
                     in dchar d3 # (if q \<noteq> 0 then [dchar q] else [])
                   else [])
              else [])
         else []))"

definition put_dec_full :: "nat \<Rightarrow> cstring" where
  "put_dec_full q =
     (let d1 = drop_bit 4 q AND 0xf;
          d2 = drop_bit 8 q AND 0xf;
          d3 = drop_bit 12 q;
          d0 = 6 * (d3 + d2 + d1) + (q AND 0xf);
          q = drop_bit 11 (d0 * 0xcd);
          d0 = d0 - 10 * q;
          d1 = q + 9 * d3 + 5 * d2 + d1;
          q1 = drop_bit 11 (d1 * 0xcd);
          d1 = d1 - 10 * q1;
          d2 = q1 + 2 * d2;
          q2 = drop_bit 7 (d2 * 0xd);
          d2 = d2 - 10 * q2;
          d3 = q2 + 4 * d3;
          q3 = drop_bit 11 (d3 * 0xcd);
          d3 = d3 - 10 * q3
      in [dchar d0, dchar d1, dchar d2, dchar d3, dchar q3])"

function put_dec :: "u64 \<Rightarrow> cstring" where
  "put_dec num =
     (if num < 100000 then put_dec_trunc (unat num)
      else put_dec_full (unat (num mod 100000)) @ put_dec (num div 100000))"
  by auto
termination
proof (relation "measure unat", goal_cases)
  case (2 num)
  then have "100000 \<le> unat num" by (simp add: word_less_nat_alt)
  then show ?case by (simp add: unat_div)
qed simp

declare put_dec.simps [simp del]

section \<open>Formatted numbers\<close>

record printf_spec =
  f_zeropad :: bool
  f_sign :: bool
  f_plus :: bool
  f_space :: bool
  f_left :: bool
  f_small :: bool
  f_special :: bool
  ps_base :: nat
  field_width :: int
  precision :: int

text \<open>\<open>field_width\<close> and \<open>precision\<close> are 16 bits wide.  \<open>while (--w >= 0)\<close> emits \<open>w\<close> characters.\<close>

definition s16 :: "int \<Rightarrow> int" where
  "s16 i = signed_take_bit 15 i"

definition pad_loop :: "char \<Rightarrow> int \<Rightarrow> cstring \<times> int" where
  "pad_loop c w =
     (let w = s16 (w - 1)
      in if w \<ge> 0 then (replicate (nat (w + 1)) c, - 1) else ([], w))"

definition hex_digits :: cstring where
  "hex_digits = ''0123456789ABCDEF''"

text \<open>Base 8 or 16, least significant digit first.\<close>

function number_digits :: "nat \<Rightarrow> nat \<Rightarrow> u64 \<Rightarrow> cstring" where
  "number_digits b locase num =
     (let msk = b - 1; shift = (if b = 16 then 4 else 3 :: nat);
          c = char_of (code (hex_digits ! unat ((num AND 0xff) AND of_nat msk)) OR locase);
          num' = drop_bit shift num
      in c # (if num' \<noteq> 0 then number_digits b locase num' else []))"
  by auto
termination
proof (relation "measure (\<lambda>(_, _, n). unat n)", goal_cases)
  case (2 b locase num msk shift c num')
  then have "unat num' = unat num div 2 ^ shift" "(2 :: nat) ^ shift > 1"
    by (auto simp: drop_bit_eq_div unat_div)
  moreover have "unat num' \<noteq> 0" using 2 by (simp add: unat_eq_zero)
  ultimately have "unat num' < unat num"
    by (metis div_0 div_less_dividend gr0I)
  then show ?case by simp
qed simp

declare number_digits.simps [simp del]

text \<open>
  \<open>number\<close> in its four parts: the sign, the prefix, the digits, and the output with its padding.
\<close>

definition number_sign :: "u64 \<Rightarrow> printf_spec \<Rightarrow> cstring \<times> u64 \<times> int" where
  "number_sign num spec =
     (let fw = field_width spec in
      if f_sign spec then
        if sint num < 0 then (''-'', - num, s16 (fw - 1))
        else if f_plus spec then (''+'', num, s16 (fw - 1))
        else if f_space spec then ('' '', num, s16 (fw - 1))
        else ([], num, fw)
      else ([], num, fw))"

definition number_pfx :: "printf_spec \<Rightarrow> int \<Rightarrow> cstring \<times> int" where
  "number_pfx spec fw =
     (let need_pfx = f_special spec \<and> ps_base spec \<noteq> 10; locase = (if f_small spec then 0x20 else 0 :: nat)
      in if need_pfx then
           if ps_base spec = 16 then ([CHR ''0'', char_of (88 OR locase)], s16 (s16 (fw - 1) - 1))
           else (''0'', s16 (fw - 1))
         else ([], fw))"

definition number_tmp :: "u64 \<Rightarrow> printf_spec \<Rightarrow> cstring" where
  "number_tmp num spec =
     (let locase = (if f_small spec then 0x20 else 0 :: nat) in
      if num = 0 then ''0''
      else if ps_base spec \<noteq> 10 then number_digits (ps_base spec) locase num
      else put_dec num)"

definition number_emit :: "printf_spec \<Rightarrow> cstring \<Rightarrow> cstring \<Rightarrow> cstring \<Rightarrow> int \<Rightarrow> cstring" where
  "number_emit spec sign pfx tmp fw =
     (let zeropad = (f_zeropad spec \<and> \<not> f_left spec);
          i = int (length tmp);
          prec = (if i > precision spec then i else precision spec);
          fw = s16 (fw - prec);
          (lead, fw) = (if \<not> (zeropad \<or> f_left spec) then pad_loop CHR '' '' fw else ([], fw));
          (mid, fw) =
            (if \<not> f_left spec then pad_loop (if zeropad then CHR ''0'' else CHR '' '') fw
             else ([], fw));
          zeros = replicate (nat (prec - i)) CHR ''0'';
          (trail, fw) = pad_loop CHR '' '' fw
      in lead @ sign @ pfx @ mid @ zeros @ rev tmp @ trail)"

definition number :: "u64 \<Rightarrow> printf_spec \<Rightarrow> cstring" where
  "number num spec =
     (let (sign, num, fw) = number_sign num spec;
          (pfx, fw) = number_pfx spec fw
      in number_emit spec sign pfx (number_tmp num spec) fw)"

section \<open>Decimal digits\<close>

fun dec_digits :: "nat \<Rightarrow> nat list" where
  "dec_digits n = (if n < 10 then [n] else n mod 10 # dec_digits (n div 10))"

declare dec_digits.simps [simp del]

lemma nat_and_15: "(n :: nat) AND 15 = n mod 16"
  using take_bit_eq_mask [of 4 n] by (simp add: take_bit_eq_mod mask_eq_exp_minus_1)

lemma div10_cd:
  assumes "(x :: nat) \<le> 400"
  shows "drop_bit 11 (x * 205) = x div 10"
proof -
  have "10 * (x div 10) \<le> x" "x < 10 * (x div 10) + 10" by linarith+
  then have "x * 205 div 2048 = x div 10"
    using assms by (intro div_nat_eqI) auto
  then show ?thesis by (simp add: drop_bit_eq_div)
qed

lemma div10_d:
  assumes "(x :: nat) \<le> 68"
  shows "drop_bit 7 (x * 13) = x div 10"
proof -
  have "10 * (x div 10) \<le> x" "x < 10 * (x div 10) + 10" by linarith+
  moreover have "x div 10 \<le> 5 \<or> x div 10 = 6" using assms by linarith
  ultimately have "x * 13 div 128 = x div 10"
    using assms by (intro div_nat_eqI) auto
  then show ?thesis by (simp add: drop_bit_eq_div)
qed

lemma minus_10_div: "x - 10 * (x div 10) = x mod (10 :: nat)"
  by (simp add: minus_mult_div_eq_mod)

text \<open>The intermediate values of the conversion, named after the code's variables.\<close>

lemma bcd_stages:
  fixes q :: nat
  assumes "q < 100000"
  defines "a \<equiv> drop_bit 4 q AND 0xf" and "b \<equiv> drop_bit 8 q AND 0xf" and "c \<equiv> drop_bit 12 q"
  defines "x0 \<equiv> 6 * (c + b + a) + (q AND 0xf)"
  defines "x1 \<equiv> x0 div 10 + 9 * c + 5 * b + a"
  defines "x2 \<equiv> x1 div 10 + 2 * b"
  defines "x3 \<equiv> x2 div 10 + 4 * c"
  shows "x0 \<le> 400" "x1 \<le> 400" "x2 \<le> 68" "x3 \<le> 400"
    "x0 mod 10 = q mod 10" "x1 mod 10 = q div 10 mod 10" "x2 mod 10 = q div 100 mod 10"
    "x3 = q div 1000" "x1 = 0 \<longleftrightarrow> q div 10 = 0" "x2 = 0 \<and> c = 0 \<longleftrightarrow> q div 100 = 0"
proof -
  define e where "e = q mod 16"
  have abc: "a = q div 16 mod 16" "b = q div 256 mod 16" "c = q div 4096"
    by (simp_all add: a_def b_def c_def drop_bit_eq_div nat_and_15)
  have "q div 16 div 16 = q div 256" "q div 256 div 16 = q div 4096"
    by (simp_all add: div_mult2_eq [symmetric])
  then have q: "q = 4096 * c + 256 * b + 16 * a + e"
    using mult_div_mod_eq [of 16 q] mult_div_mod_eq [of 16 "q div 16"]
      mult_div_mod_eq [of 16 "q div 256"]
    unfolding abc e_def by linarith
  have bd: "a \<le> 15" "b \<le> 15" "e \<le> 15" "c \<le> 24"
    using assms(1) by (auto simp: abc e_def)
  have x0: "x0 = 6 * (c + b + a) + e" by (simp add: x0_def e_def nat_and_15)
  show "x0 \<le> 400" using bd by (simp add: x0)
  have q0: "q = 10 * (409 * c + 25 * b + a) + x0" using q by (simp add: x0)
  show "x0 mod 10 = q mod 10" unfolding q0 by (rule mod_mult_self4 [symmetric])
  have "q div 10 = 409 * c + 25 * b + a + x0 div 10"
    unfolding q0 by (rule div_mult_self4) simp
  then have q1: "q div 10 = 10 * (40 * c + 2 * b) + x1" by (simp add: x1_def)
  show "x1 mod 10 = q div 10 mod 10" unfolding q1 by (rule mod_mult_self4 [symmetric])
  show "x1 = 0 \<longleftrightarrow> q div 10 = 0" by (auto simp: q1 x1_def)
  show x1: "x1 \<le> 400" using bd by (simp add: x1_def x0)
  have "q div 100 = q div 10 div 10" by (simp add: div_mult2_eq [symmetric])
  also have "\<dots> = 40 * c + 2 * b + x1 div 10"
    unfolding q1 by (rule div_mult_self4) simp
  finally have q2: "q div 100 = 10 * (4 * c) + x2" by (simp add: x2_def)
  show "x2 mod 10 = q div 100 mod 10" unfolding q2 by (rule mod_mult_self4 [symmetric])
  show "x2 = 0 \<and> c = 0 \<longleftrightarrow> q div 100 = 0" by (auto simp: q2)
  have "x1 div 10 \<le> 36" using bd by (simp add: x1_def x0)
  then show x2: "x2 \<le> 68" using bd by (simp add: x2_def)
  have "q div 1000 = q div 100 div 10" by (simp add: div_mult2_eq [symmetric])
  also have "\<dots> = 4 * c + x2 div 10"
    unfolding q2 by (rule div_mult_self4) simp
  finally show "x3 = q div 1000" by (simp add: x3_def)
  show "x3 \<le> 400" using bd x2 by (simp add: x3_def)
qed

lemma put_dec_full_eq:
  assumes "q < 100000"
  shows "put_dec_full q =
    map dchar [q mod 10, q div 10 mod 10, q div 100 mod 10, q div 1000 mod 10, q div 10000]"
proof -
  have "q div 10000 = q div 1000 div 10" by (simp add: div_mult2_eq [symmetric])
  moreover have "drop_bit 11 (q div 1000 * 205) = q div 1000 div 10"
    by (rule div10_cd) (use assms in simp)
  ultimately show ?thesis
    by (simp only: put_dec_full_def Let_def div10_cd div10_d minus_10_div bcd_stages [OF assms]
        list.map)
qed

lemma put_dec_trunc_eq:
  assumes "q < 100000"
  shows "put_dec_trunc q =
    dchar (q mod 10) # (if q div 10 \<noteq> 0 then dchar (q div 10 mod 10) #
      (if q div 100 \<noteq> 0 then dchar (q div 100 mod 10) #
        (if q div 1000 \<noteq> 0 then dchar (q div 1000 mod 10) #
          (if q div 10000 \<noteq> 0 then [dchar (q div 10000)] else []) else []) else []) else [])"
proof -
  have "q div 10000 = q div 1000 div 10" by (simp add: div_mult2_eq [symmetric])
  moreover have "drop_bit 11 (q div 1000 * 205) = q div 1000 div 10"
    by (rule div10_cd) (use assms in simp)
  ultimately show ?thesis
    by (simp only: put_dec_trunc_def Let_def div10_cd div10_d minus_10_div
        de_Morgan_conj [symmetric] bcd_stages [OF assms])
qed

lemma dec_digits_trunc:
  assumes "q < 100000"
  shows "map dchar (dec_digits q) =
    dchar (q mod 10) # (if q div 10 \<noteq> 0 then dchar (q div 10 mod 10) #
      (if q div 100 \<noteq> 0 then dchar (q div 100 mod 10) #
        (if q div 1000 \<noteq> 0 then dchar (q div 1000 mod 10) #
          (if q div 10000 \<noteq> 0 then [dchar (q div 10000)] else []) else []) else []) else [])"
proof -
  have d: "q div 10 div 10 = q div 100" "q div 100 div 10 = q div 1000" "q div 1000 div 10 = q div 10000"
    by (simp_all add: div_mult2_eq [symmetric])
  have step: "map dchar (dec_digits n) =
      dchar (n mod 10) # (if n div 10 \<noteq> 0 then map dchar (dec_digits (n div 10)) else [])" for n
    by (subst dec_digits.simps) auto
  have "q div 10000 < 10" using assms by simp
  then have "map dchar (dec_digits (q div 10000)) = [dchar (q div 10000)]"
    by (simp add: dec_digits.simps)
  then show ?thesis
    by (simp only: step [of q] step [of "q div 10"] step [of "q div 100"] step [of "q div 1000"] d)
qed

lemma dec_digits_full:
  assumes "n \<ge> 100000"
  shows "dec_digits n =
    [n mod 10, n div 10 mod 10, n div 100 mod 10, n div 1000 mod 10, n div 10000 mod 10]
      @ dec_digits (n div 100000)"
proof -
  have d: "n div 10 div 10 = n div 100" "n div 100 div 10 = n div 1000" "n div 1000 div 10 = n div 10000"
    "n div 10000 div 10 = n div 100000"
    by (simp_all add: div_mult2_eq [symmetric])
  have step: "dec_digits m = m mod 10 # dec_digits (m div 10)" if "m \<ge> 10" for m
    using that by (subst dec_digits.simps) simp
  have "n div 10 \<ge> 10" "n div 100 \<ge> 10" "n div 1000 \<ge> 10" "n div 10000 \<ge> 10"
    using assms by simp_all
  then show ?thesis
    using step [of n] step [of "n div 10"] step [of "n div 100"] step [of "n div 1000"]
      step [of "n div 10000"] assms by (simp add: d)
qed

lemma mod_100000_digits:
  fixes n :: nat
  defines "r \<equiv> n mod 100000"
  shows "r mod 10 = n mod 10" "r div 10 mod 10 = n div 10 mod 10" "r div 100 mod 10 = n div 100 mod 10"
    "r div 1000 mod 10 = n div 1000 mod 10" "r div 10000 = n div 10000 mod 10"
proof -
  define k where "k = n div 100000"
  have n: "n = 10 * (10000 * k) + r" "n = 100 * (1000 * k) + r" "n = 1000 * (100 * k) + r"
    "n = 10000 * (10 * k) + r" by (simp_all add: k_def r_def)
  show "r mod 10 = n mod 10" by (subst n(1)) (simp only: mod_mult_self4)
  have "n div 10 = 10000 * k + r div 10" by (subst n(1), rule div_mult_self4) simp
  then show "r div 10 mod 10 = n div 10 mod 10"
    using mod_mult_self4 [of 10 "1000 * k" "r div 10"] by simp
  have "n div 100 = 1000 * k + r div 100" by (subst n(2), rule div_mult_self4) simp
  then show "r div 100 mod 10 = n div 100 mod 10"
    using mod_mult_self4 [of 10 "100 * k" "r div 100"] by simp
  have "n div 1000 = 100 * k + r div 1000" by (subst n(3), rule div_mult_self4) simp
  then show "r div 1000 mod 10 = n div 1000 mod 10"
    using mod_mult_self4 [of 10 "10 * k" "r div 1000"] by simp
  have "n div 10000 = 10 * k + r div 10000" by (subst n(4), rule div_mult_self4) simp
  moreover have "r div 10000 < 10" by (simp add: r_def less_mult_imp_div_less)
  ultimately show "r div 10000 = n div 10000 mod 10"
    using mod_mult_self4 [of 10 k "r div 10000"] by simp
qed

lemma put_dec_eq: "put_dec num = map dchar (dec_digits (unat num))"
proof (induction num rule: put_dec.induct)
  case (1 num)
  show ?case
  proof (cases "num < 100000")
    case True
    then have "unat num < 100000" by (simp add: word_less_nat_alt)
    then show ?thesis
      using True put_dec.simps [of num] put_dec_trunc_eq dec_digits_trunc by simp
  next
    case False
    then have n: "unat num \<ge> 100000" by (simp add: word_less_nat_alt)
    have r: "unat (num mod 100000) = unat num mod 100000" "unat (num div 100000) = unat num div 100000"
      by (simp_all add: unat_mod unat_div)
    have "put_dec_full (unat num mod 100000) = map dchar [unat num mod 10, unat num div 10 mod 10,
        unat num div 100 mod 10, unat num div 1000 mod 10, unat num div 10000 mod 10]"
      by (simp only: put_dec_full_eq mod_100000_digits mod_less_divisor zero_less_numeral)
    then show ?thesis
      using False 1 put_dec.simps [of num] dec_digits_full [OF n] r by simp
  qed
qed

section \<open>Printing and parsing back\<close>

lemma code_dchar: "d < 10 \<Longrightarrow> code (dchar d) = d + 48"
  by (simp add: dchar_def)

lemma dec_digits_less: "d \<in> set (dec_digits n) \<Longrightarrow> d < 10"
proof (induction n rule: dec_digits.induct)
  case (1 n)
  then show ?case by (subst (asm) dec_digits.simps) (auto split: if_splits)
qed

lemma strtoull_loop_digits:
  "\<forall>d\<in>set ds. d < 10 \<Longrightarrow>
   strtoull_loop 10 acc (map dchar ds) = (foldl (\<lambda>r d. r * 10 + of_nat d) acc ds, [])"
proof (induction ds arbitrary: acc)
  case (Cons d ds)
  have "code (dchar d) = d + 48" "d < 10" using Cons.prems by (simp_all add: code_dchar)
  then have "isxdigit (code (dchar d))" "digit_value (code (dchar d)) = d"
    by (simp_all add: isxdigit_def digit_value_def isdigit_def)
  then show ?case
    using Cons by simp
qed simp

lemma foldl_dec_digits:
  "foldl (\<lambda>r d. r * 10 + of_nat d) (0 :: u64) (rev (dec_digits n)) = of_nat n"
proof (induction n rule: dec_digits.induct)
  case (1 n)
  have "of_nat (n div 10) * 10 + of_nat (n mod 10) = (of_nat n :: u64)"
    by (metis div_mult_mod_eq of_nat_add of_nat_mult of_nat_numeral)
  then show ?case
    using 1 by (subst dec_digits.simps) (auto simp: dec_digits.simps [of n])
qed

lemma dec_digits_not_Nil: "dec_digits n \<noteq> []"
  by (subst dec_digits.simps) simp

lemma simple_strtoull_digits:
  "simple_strtoull (rev (put_dec num)) 10 = (num, [])"
  unfolding put_dec_eq
  using strtoull_loop_digits [of "rev (dec_digits (unat num))" 0] foldl_dec_digits [of "unat num"]
    dec_digits_less
  by (simp add: simple_strtoull_def rev_map Let_def)

definition dec_spec :: printf_spec where
  "dec_spec = \<lparr>f_zeropad = False, f_sign = True, f_plus = False, f_space = False, f_left = False,
     f_small = False, f_special = False, ps_base = 10, field_width = - 1, precision = - 1\<rparr>"

lemma length_dec_digits: "n < 2 ^ k \<Longrightarrow> length (dec_digits n) \<le> max 1 k"
proof (induction n arbitrary: k rule: dec_digits.induct)
  case (1 n)
  show ?case
  proof (cases "n < 10")
    case False
    then obtain j where k: "k = Suc j" using 1(2) by (cases k) auto
    have "n div 10 < 2 ^ j" using 1(2) k by simp
    moreover have "1 \<le> j" using False 1(2) k by (cases j) auto
    ultimately show ?thesis
      using 1(1) [of j] False k by (subst dec_digits.simps) auto
  qed (simp add: dec_digits.simps)
qed

lemma length_put_dec: "length (put_dec num) \<le> 64"
proof -
  have "unat num < 2 ^ 64" using unsigned_less [of num] by simp
  then show ?thesis using length_dec_digits [of "unat num" 64] by (simp add: put_dec_eq)
qed

lemma s16_id: "- 32768 \<le> i \<Longrightarrow> i \<le> 32767 \<Longrightarrow> s16 i = i"
  unfolding s16_def by (rule signed_take_bit_int_eq_self) auto

lemma pad_loop_neg [simp]: "- 32768 < w \<Longrightarrow> w \<le> 0 \<Longrightarrow> pad_loop c w = ([], w - 1)"
  by (simp add: pad_loop_def s16_id)

lemma pad_loop_pos [simp]: "0 < w \<Longrightarrow> w \<le> 32767 \<Longrightarrow> pad_loop c w = (replicate (nat w) c, - 1)"
  by (simp add: pad_loop_def s16_id)

lemma char_of_48: "char_of (48 :: nat) = CHR ''0''"
  by code_simp

lemma number_tmp_dec: "ps_base spec = 10 \<Longrightarrow> number_tmp num spec = put_dec num"
  by (simp add: number_tmp_def put_dec_eq dec_digits.simps dchar_def char_of_48)

lemma number_emit_unpadded:
  assumes "fw \<le> 0" "- 100 \<le> fw" "precision spec \<le> int (length tmp)" "length tmp \<le> 64"
  shows "number_emit spec sign pfx tmp fw = sign @ pfx @ rev tmp"
proof -
  define w where "w = fw - int (length tmp)"
  have w: "w \<le> 0" "- 200 \<le> w" "s16 w = w" using assms by (simp_all add: w_def s16_id)
  have "(if int (length tmp) > precision spec then int (length tmp) else precision spec) = int (length tmp)"
    using assms(3) by simp
  then show ?thesis
    using w by (simp add: number_emit_def Let_def w_def [symmetric])
qed

lemma number_dec:
  "number num dec_spec = (if sint num < 0 then CHR ''-'' # rev (put_dec (- num)) else rev (put_dec num))"
proof -
  have "number_emit dec_spec sg [] (put_dec n) fw = sg @ rev (put_dec n)" if "fw \<in> {- 1, - 2}" for sg n fw
    using number_emit_unpadded [of fw dec_spec "put_dec n" sg "[]"] that length_put_dec [of n]
    by (auto simp: dec_spec_def)
  then show ?thesis
    by (simp add: number_def number_sign_def number_pfx_def number_tmp_dec dec_spec_def s16_id
        del: split_paired_All)
qed


section \<open>Field width\<close>

lemma length_number_digits:
  "unat num < 2 ^ k \<Longrightarrow> length (number_digits b l num) \<le> max 1 k"
proof (induction b l num arbitrary: k rule: number_digits.induct)
  case (1 b l num)
  define sh where "sh = (if b = 16 then 4 else 3 :: nat)"
  show ?case
  proof (cases "drop_bit sh num = 0")
    case True
    then show ?thesis by (subst number_digits.simps) (simp add: sh_def Let_def)
  next
    case False
    have u: "unat (drop_bit sh num) = unat num div 2 ^ sh"
      by (simp add: drop_bit_eq_div unat_div sh_def)
    then have "unat num div 2 ^ sh \<noteq> 0" using False by (metis unat_eq_zero)
    then have "2 ^ sh \<le> unat num" by (simp add: div_eq_0_iff)
    then have "(2 :: nat) ^ sh < 2 ^ k" using 1(2) by (rule le_less_trans)
    then have "sh < k" by (rule power_less_imp_less_exp [rotated]) simp
    then obtain j where k: "k = Suc j" "3 \<le> j" by (cases k) (auto simp: sh_def split: if_splits)
    have "unat num div 2 ^ sh \<le> unat num div 2"
      by (rule div_le_mono2) (auto simp: sh_def)
    then have "unat (drop_bit sh num) < 2 ^ j" using 1(2) k u by simp
    then have "length (number_digits b l (drop_bit sh num)) \<le> max 1 j"
      using 1(1) [OF refl refl refl refl, folded sh_def, OF False] by simp
    then show ?thesis
      using False k by (subst number_digits.simps) (simp add: sh_def Let_def)
  qed
qed

lemma length_number_tmp: "length (number_tmp num spec) \<le> 64"
  using length_number_digits [of num 64] length_put_dec [of num] unsigned_less [of num]
  by (auto simp: number_tmp_def)

lemma length_pad_loops:
  assumes "- 32700 \<le> w" "w \<le> 32767"
    and "(if a then pad_loop c w else ([], w)) = (lead, w1)"
    and "(if b then pad_loop d w1 else ([], w1)) = (mid, w2)"
    and "pad_loop e w2 = (trail, w3)"
  shows "int (length lead) + int (length mid) + int (length trail) = max 0 w"
  using assms by (cases "0 < w"; cases a; cases b) auto

lemma length_number_emit:
  assumes "- 4 \<le> fw" "fw \<le> 32767" "precision spec \<le> 32000" "length tmp \<le> 64"
  shows "int (length (number_emit spec sign pfx tmp fw)) =
    int (length sign) + int (length pfx) + max fw (max (int (length tmp)) (precision spec))"
proof -
  define prec where "prec = max (int (length tmp)) (precision spec)"
  define w where "w = fw - prec"
  have w: "- 32700 \<le> w" "w \<le> 32767" "s16 w = w" using assms by (auto simp: w_def prec_def s16_id)
  obtain lead w1 where 1: "(if \<not> (f_zeropad spec \<and> \<not> f_left spec \<or> f_left spec)
      then pad_loop CHR '' '' w else ([], w)) = (lead, w1)" by fastforce
  obtain mid w2 where 2: "(if \<not> f_left spec then pad_loop (if f_zeropad spec \<and> \<not> f_left spec
      then CHR ''0'' else CHR '' '') w1 else ([], w1)) = (mid, w2)" by fastforce
  obtain trail w3 where 3: "pad_loop CHR '' '' w2 = (trail, w3)" by fastforce
  have "(if int (length tmp) > precision spec then int (length tmp) else precision spec) = prec"
    by (simp add: prec_def)
  then have "number_emit spec sign pfx tmp fw =
      lead @ sign @ pfx @ mid @ replicate (nat (prec - int (length tmp))) CHR ''0'' @ rev tmp @ trail"
    using w 1 2 3 by (simp only: number_emit_def Let_def w_def [symmetric] prod.case)
  moreover have "int (length lead) + int (length mid) + int (length trail) = max 0 w"
    by (rule length_pad_loops [OF w(1,2) 1 2 3])
  moreover have "int (nat (prec - int (length tmp))) = prec - int (length tmp)"
    by (simp add: prec_def)
  ultimately show ?thesis by (simp add: w_def prec_def [symmetric])
qed

definition natural_width :: "u64 \<Rightarrow> printf_spec \<Rightarrow> int" where
  "natural_width num spec =
     (let neg = f_sign spec \<and> sint num < 0
      in max (int (length (number_tmp (if neg then - num else num) spec))) (precision spec)
        + (if neg \<or> f_sign spec \<and> (f_plus spec \<or> f_space spec) then 1 else 0)
        + (if f_special spec \<and> ps_base spec \<noteq> 10 then if ps_base spec = 16 then 2 else 1 else 0))"

text \<open>
  The field width is a minimum: a number is printed with exactly as many characters as the
  larger of the field width and what its sign, prefix, digits and precision need; nothing is cut off.
\<close>

theorem number_field_width:
  assumes "- 1 \<le> field_width spec" "field_width spec \<le> 32767" "precision spec \<le> 32000"
  shows "int (length (number num spec)) = max (field_width spec) (natural_width num spec)"
proof -
  obtain sg n fw where 1: "number_sign num spec = (sg, n, fw)" by (cases "number_sign num spec") auto
  obtain pfx fw' where 2: "number_pfx spec fw = (pfx, fw')" by fastforce
  have s: "fw = field_width spec - int (length sg)" "length sg \<le> 1"
    "n = (if f_sign spec \<and> sint num < 0 then - num else num)"
    "int (length sg) = (if f_sign spec \<and> (sint num < 0 \<or> f_plus spec \<or> f_space spec) then 1 else 0)"
    using 1 assms(1,2) by (auto simp: number_sign_def Let_def s16_id split: if_splits)
  have p: "fw' = fw - int (length pfx)" "length pfx \<le> 2"
    "int (length pfx) = (if f_special spec \<and> ps_base spec \<noteq> 10 then if ps_base spec = 16 then 2 else 1 else 0)"
    using 2 s(1,2) assms(1,2) by (auto simp: number_pfx_def Let_def s16_id split: if_splits)
  have "int (length (number_emit spec sg pfx (number_tmp n spec) fw')) =
      int (length sg) + int (length pfx) + max fw' (max (int (length (number_tmp n spec))) (precision spec))"
    by (rule length_number_emit) (use s p assms length_number_tmp in auto)
  moreover have "natural_width num spec = max (int (length (number_tmp n spec))) (precision spec)
      + int (length sg) + int (length pfx)"
    unfolding s(3,4) p(3) natural_width_def Let_def by auto
  moreover have "number num spec = number_emit spec sg pfx (number_tmp n spec) fw'"
    by (simp add: number_def 1 2)
  ultimately show ?thesis
    using s(1) p(1) by (simp add: max_def)
qed

theorem number_field_width_witness:
  "int (length (number 42 (dec_spec\<lparr>field_width := 8\<rparr>))) = max 8 (natural_width 42 (dec_spec\<lparr>field_width := 8\<rparr>))"
  using number_field_width [of "dec_spec\<lparr>field_width := 8\<rparr>" 42] by (simp add: dec_spec_def)

section \<open>Strict parsing\<close>

definition dec_value :: "cstring \<Rightarrow> nat" where
  "dec_value ds = foldl (\<lambda>r c. r * 10 + (code c - 48)) 0 ds"

lemma xdigit_value_10:
  assumes "isxdigit c"
  shows "10 \<le> digit_value c \<longleftrightarrow> \<not> isdigit c"
  using assms by (auto simp: isxdigit_def digit_value_def isdigit_def)

lemma strtoull_loop_10:
  "strtoull_loop 10 acc cp =
    (foldl (\<lambda>r c. r * 10 + of_nat (code c - 48)) acc (takeWhile (\<lambda>c. isdigit (code c)) cp),
     dropWhile (\<lambda>c. isdigit (code c)) cp)"
proof (induction cp arbitrary: acc)
  case (Cons c cp)
  have "isdigit (code c) \<Longrightarrow> isxdigit (code c)" by (simp add: isdigit_def isxdigit_def)
  then show ?case
    using Cons xdigit_value_10 [of "code c"] by (auto simp: Let_def digit_value_def)
qed simp

lemma foldl_dec_value:
  "foldl (\<lambda>r c. r * 10 + of_nat (code c - 48)) (of_nat a :: u64) ds =
    of_nat (foldl (\<lambda>r c. r * 10 + (code c - 48)) a ds)"
proof (induction ds arbitrary: a)
  case (Cons c ds)
  have "of_nat a * 10 + of_nat (code c - 48) = (of_nat (a * 10 + (code c - 48)) :: u64)" by simp
  then show ?case using Cons by (simp only: foldl.simps)
qed simp

lemma simple_strtoul_10:
  "simple_strtoul cp 10 =
    (of_nat (dec_value (takeWhile (\<lambda>c. isdigit (code c)) cp)), dropWhile (\<lambda>c. isdigit (code c)) cp)"
proof -
  have "(ucast (of_nat n :: u64) :: ulong) = of_nat n" for n
    by (rule bit_word_eqI) (simp add: bit_simps)
  then show ?thesis
    using foldl_dec_value [of 0]
    by (simp add: simple_strtoul_def simple_strtoull_def strtoull_loop_10 dec_value_def Let_def)
qed

lemma put_dec_digits: "c \<in> set (put_dec n) \<Longrightarrow> isdigit (code c)"
  using dec_digits_less by (fastforce simp: put_dec_eq code_dchar isdigit_def)

lemma dec_value_put_dec: "dec_value (rev (put_dec n)) = unat n"
proof -
  have 1: "foldl (\<lambda>r c. r * 10 + (code c - 48)) a (map dchar ds) = foldl (\<lambda>r d. r * 10 + d) a ds"
    if "\<forall>d\<in>set ds. d < 10" for a ds
    using that by (induction ds arbitrary: a) (auto simp: code_dchar)
  have 2: "foldl (\<lambda>r d. r * 10 + d) 0 (rev (dec_digits n)) = n" for n
  proof (induction n rule: dec_digits.induct)
    case (1 n)
    then show ?case by (subst dec_digits.simps) (auto simp: dec_digits.simps [of n])
  qed
  show ?thesis
    using 1 [of "rev (dec_digits (unat n))" 0] 2 [of "unat n"] dec_digits_less
    by (simp add: dec_value_def put_dec_eq rev_map)
qed

lemma simple_strtoul_put_dec:
  assumes "\<not> isdigit (code c)"
  shows "simple_strtoul (rev (put_dec n) @ [c]) 10 = (of_nat (unat n), [c])"
proof -
  have *: "takeWhile P (xs @ [c]) = xs \<and> dropWhile P (xs @ [c]) = [c]"
    if "\<And>x. x \<in> set xs \<Longrightarrow> P x" "\<not> P c" for P and xs :: cstring
    using that by (induction xs) auto
  have "takeWhile (\<lambda>c. isdigit (code c)) (rev (put_dec n) @ [c]) = rev (put_dec n) \<and>
      dropWhile (\<lambda>c. isdigit (code c)) (rev (put_dec n) @ [c]) = [c]"
    by (rule *) (use put_dec_digits assms in auto)
  then show ?thesis by (simp add: simple_strtoul_10 dec_value_put_dec)
qed

text \<open>
  In base ten, \<open>strict_strtoul\<close> accepts exactly the non-empty strings of decimal digits,
  optionally followed by one newline, and stores their value modulo \<open>2 ^ 32\<close>; it rejects every other
  string with \<open>-EINVAL\<close> and stores zero.
\<close>

theorem strict_strtoul_accepts:
  "strict_strtoul cp 10 =
    (if \<exists>ds. ds \<noteq> [] \<and> (\<forall>c\<in>set ds. isdigit (code c)) \<and> (cp = ds \<or> cp = ds @ [char_of (10 :: nat)])
     then (0, of_nat (dec_value (takeWhile (\<lambda>c. isdigit (code c)) cp)))
     else (- EINVAL, 0))"
proof -
  let ?P = "\<lambda>c. isdigit (code c)"
  let ?d = "takeWhile ?P cp" and ?t = "dropWhile ?P cp"
  have nl: "\<not> ?P (char_of (10 :: nat))" by (simp add: isdigit_def)
  have acc: "(\<exists>ds. ds \<noteq> [] \<and> (\<forall>c\<in>set ds. ?P c) \<and> (cp = ds \<or> cp = ds @ [char_of (10 :: nat)])) \<longleftrightarrow>
      ?d \<noteq> [] \<and> (?t = [] \<or> ?t = [char_of (10 :: nat)])" (is "?L \<longleftrightarrow> ?R")
  proof
    assume ?L
    then obtain ds where "ds \<noteq> []" "\<forall>c\<in>set ds. ?P c" "cp = ds \<or> cp = ds @ [char_of (10 :: nat)]"
      by blast
    then show ?R using nl by (cases ds) (auto simp: takeWhile_append dropWhile_append)
  next
    assume r: ?R
    have "\<forall>c\<in>set ?d. ?P c" using set_takeWhileD by fastforce
    moreover have "cp = ?d \<or> cp = ?d @ [char_of (10 :: nat)]"
      using r takeWhile_dropWhile_id [of ?P cp] by (metis append_Nil2)
    ultimately show ?L using r by blast
  qed
  have tail: "strict_tail_ok t \<longleftrightarrow> t = [] \<or> t = [char_of (10 :: nat)]" for t
  proof -
    have "code c = 10 \<longleftrightarrow> c = char_of (10 :: nat)" for c
      using of_char_eq_iff [of c "char_of (10 :: nat)", where ?'a = nat] by simp
    then show ?thesis
      by (cases t) (auto simp: strict_tail_ok_def)
  qed
  have "length ?t = length cp \<longleftrightarrow> ?d = []"
    by (metis append_self_conv2 length_append add_cancel_left_left length_0_conv takeWhile_dropWhile_id)
  then show ?thesis
    unfolding acc by (auto simp: strict_strtoul_def simple_strtoul_10 tail Let_def)
qed

theorem strict_strtoul_accepts_witness: "strict_strtoul ''42'' 10 = (0, 42)"
proof -
  have "\<exists>ds. ds \<noteq> [] \<and> (\<forall>c\<in>set ds. isdigit (code c)) \<and>
      (''42'' = ds \<or> ''42'' = ds @ [char_of (10 :: nat)])"
    by (rule exI [of _ "''42''"]) (simp add: isdigit_def)
  then show ?thesis
    using strict_strtoul_accepts [of "''42''"] by (simp add: dec_value_def isdigit_def)
qed

text \<open>
  Values that do not fit are reduced rather than refused, and a hexadecimal prefix with no digit
  after it is accepted as zero.
\<close>

lemma strict_strtoul_overflow: "strict_strtoul ''4294967297'' 10 = (0, 1)"
  by code_simp

lemma strict_strtoul_bare_prefix: "strict_strtoul ''0x'' 16 = (0, 0)"
  by code_simp

end
