(* ===== verification/Sio_Iosched.thy ===== *)
theory Sio_Iosched
  imports Elevator Kernel_Time Vsprintf
begin

text \<open>
  The SIO scheduler, \<open>block/sio-iosched.c\<close>: one FIFO list for synchronous and one for asynchronous
  requests (\<^term>\<open>True\<close> and \<^term>\<open>False\<close> as indices), deadlines, and a counter that makes the scheduler
  look at the deadlines once per batch.  The lemmas give the choice of each dispatch as a function
  of the two lists, show that the scheduler fulfils \<open>io_scheduler\<close>, and that an expired
  asynchronous request is not starved.
\<close>

section \<open>Operations\<close>

definition sync_expire :: u32 where "sync_expire = of_nat (HZ div 2)"
definition async_expire :: u32 where "async_expire = of_nat (5 * HZ)"
definition default_fifo_batch :: u32 where "default_fifo_batch = 1"

record sio_data =
  fifo_list :: "bool \<Rightarrow> ptr"
  batched :: u32
  fifo_expire :: "bool \<Rightarrow> u32"
  fifo_batch :: u32

type_synonym sio_queue = "sio_data request_queue"

definition sio_merged_requests :: "sio_queue \<Rightarrow> ptr \<Rightarrow> ptr \<Rightarrow> sio_queue" where
  "sio_merged_requests q rq next =
     (let q = (if \<not> list_empty rq (links q) \<and> \<not> list_empty next (links q) then
                 if time_before (rq_fifo_time (rqs q next)) (rq_fifo_time (rqs q rq)) then
                   let q = q\<lparr>links := list_move rq next (links q)\<rparr>
                   in rq_set_fifo_time rq (rq_fifo_time (rqs q next)) q
                 else q
               else q)
      in rq_fifo_clear next q)"

definition sio_add_request :: "sio_queue \<Rightarrow> ptr \<Rightarrow> sio_queue" where
  "sio_add_request q rq =
     (let sd = elevator_data q;
          sync = rq_is_sync (rqs q rq);
          q = rq_set_fifo_time rq (jiffies q + fifo_expire sd sync) q
      in q\<lparr>links := list_add_tail rq (fifo_list sd sync) (links q)\<rparr>)"

definition sio_queue_empty :: "sio_queue \<Rightarrow> bool" where
  "sio_queue_empty q =
     (let sd = elevator_data q
      in list_empty (fifo_list sd True) (links q) \<and> list_empty (fifo_list sd False) (links q))"

definition sio_expired_request :: "sio_queue \<Rightarrow> bool \<Rightarrow> ptr" where
  "sio_expired_request q sync =
     (let sd = elevator_data q in
      if list_empty (fifo_list sd sync) (links q) then NULL
      else
        let rq = nxt (links q) (fifo_list sd sync)
        in if time_after (jiffies q) (rq_fifo_time (rqs q rq)) then rq else NULL)"

definition sio_choose_expired_request :: "sio_queue \<Rightarrow> ptr" where
  "sio_choose_expired_request q =
     (let sync = sio_expired_request q True;
          async = sio_expired_request q False
      in if sync \<noteq> NULL \<and> async \<noteq> NULL then async
         else if sync \<noteq> NULL then sync
         else async)"

definition sio_choose_request :: "sio_queue \<Rightarrow> ptr" where
  "sio_choose_request q =
     (let sd = elevator_data q in
      if \<not> list_empty (fifo_list sd True) (links q) then nxt (links q) (fifo_list sd True)
      else if \<not> list_empty (fifo_list sd False) (links q) then nxt (links q) (fifo_list sd False)
      else NULL)"

definition sio_dispatch_request :: "sio_queue \<Rightarrow> ptr \<Rightarrow> sio_queue" where
  "sio_dispatch_request q rq =
     (let q = rq_fifo_clear rq q;
          q = elv_dispatch_add_tail q rq
      in q\<lparr>elevator_data := (elevator_data q)\<lparr>batched := batched (elevator_data q) + 1\<rparr>\<rparr>)"

definition sio_dispatch_requests :: "sio_queue \<Rightarrow> bool \<Rightarrow> int \<times> sio_queue" where
  "sio_dispatch_requests q force =
     (let sd = elevator_data q;
          (rq, q) =
            (if batched sd > fifo_batch sd then
               let q = q\<lparr>elevator_data := sd\<lparr>batched := 0\<rparr>\<rparr>
               in (sio_choose_expired_request q, q)
             else (NULL, q));
          rq = (if rq = NULL then sio_choose_request q else rq)
      in if rq = NULL then (0, q) else (1, sio_dispatch_request q rq))"

definition sio_former_request :: "sio_queue \<Rightarrow> ptr \<Rightarrow> ptr" where
  "sio_former_request q rq =
     (let sd = elevator_data q; sync = rq_is_sync (rqs q rq) in
      if prv (links q) rq = fifo_list sd sync then NULL else prv (links q) rq)"

definition sio_latter_request :: "sio_queue \<Rightarrow> ptr \<Rightarrow> ptr" where
  "sio_latter_request q rq =
     (let sd = elevator_data q; sync = rq_is_sync (rqs q rq) in
      if nxt (links q) rq = fifo_list sd sync then NULL else nxt (links q) rq)"

text \<open>The argument is the result of \<open>kmalloc_node\<close>: the addresses of the two list heads, or nothing.\<close>

definition sio_init_queue :: "(bool \<Rightarrow> ptr) option \<Rightarrow> list_heap \<Rightarrow> (sio_data \<times> list_heap) option" where
  "sio_init_queue sd h =
     (case sd of None \<Rightarrow> None
      | Some f \<Rightarrow>
          Some (\<lparr>fifo_list = f, batched = 0,
                 fifo_expire = (\<lambda>sync. if sync then sync_expire else async_expire),
                 fifo_batch = default_fifo_batch\<rparr>,
                INIT_LIST_HEAD (f False) (INIT_LIST_HEAD (f True) h)))"

text \<open>\<open>None\<close> when a \<open>BUG_ON\<close> fires.\<close>

definition sio_exit_queue :: "sio_data \<Rightarrow> list_heap \<Rightarrow> unit option" where
  "sio_exit_queue sd h =
     (if \<not> list_empty (fifo_list sd True) h then None
      else if \<not> list_empty (fifo_list sd False) h then None
      else Some ())"

text \<open>The attributes; \<open>__data\<close> is an \<open>int\<close>.\<close>

definition sio_var_show :: "u32 \<Rightarrow> cstring" where
  "sio_var_show var = number (of_int (sint var)) dec_spec @ [char_of (10 :: nat)]"

definition sio_var_store :: "cstring \<Rightarrow> nat \<Rightarrow> int \<times> int" where
  "sio_var_store page cnt = (let (v, p) = simple_strtol page 10 in (v, int cnt))"

definition SHOW_FUNCTION :: "u32 \<Rightarrow> bool \<Rightarrow> cstring" where
  "SHOW_FUNCTION var conv =
     (let data = (if conv then jiffies_to_msecs var else var) in sio_var_show data)"

definition STORE_FUNCTION :: "int \<Rightarrow> int \<Rightarrow> bool \<Rightarrow> cstring \<Rightarrow> nat \<Rightarrow> u32 \<times> int" where
  "STORE_FUNCTION mn mx conv page cnt =
     (let (data, ret) = sio_var_store page cnt;
          data = (if data < mn then mn else if data > mx then mx else data)
      in (if conv then msecs_to_jiffies (of_int data) else of_int data, ret))"

definition sio_expire_show :: "sio_data \<Rightarrow> bool \<Rightarrow> cstring" where
  "sio_expire_show sd sync = SHOW_FUNCTION (fifo_expire sd sync) True"

definition sio_fifo_batch_show :: "sio_data \<Rightarrow> cstring" where
  "sio_fifo_batch_show sd = SHOW_FUNCTION (fifo_batch sd) False"

definition sio_expire_store :: "sio_data \<Rightarrow> bool \<Rightarrow> cstring \<Rightarrow> nat \<Rightarrow> sio_data \<times> int" where
  "sio_expire_store sd sync page cnt =
     (let (v, ret) = STORE_FUNCTION 0 INT_MAX True page cnt
      in (sd\<lparr>fifo_expire := (fifo_expire sd)(sync := v)\<rparr>, ret))"

definition sio_fifo_batch_store :: "sio_data \<Rightarrow> cstring \<Rightarrow> nat \<Rightarrow> sio_data \<times> int" where
  "sio_fifo_batch_store sd page cnt =
     (let (v, ret) = STORE_FUNCTION 0 INT_MAX False page cnt in (sd\<lparr>fifo_batch := v\<rparr>, ret))"

definition iosched_sio :: "sio_data elevator_ops" where
  "iosched_sio = \<lparr>
     elevator_merge_fn = None,
     elevator_merged_fn = None,
     elevator_merge_req_fn = Some (\<lambda>q rq next. Some (sio_merged_requests q rq next)),
     elevator_allow_merge_fn = None,
     elevator_dispatch_fn = (\<lambda>q force. Some (sio_dispatch_requests q force)),
     elevator_add_req_fn = (\<lambda>q rq. Some (sio_add_request q rq)),
     elevator_queue_empty_fn = Some sio_queue_empty,
     elevator_deactivate_req_fn = None,
     elevator_former_req_fn = Some (\<lambda>q rq. Some (sio_former_request q rq)),
     elevator_latter_req_fn = Some (\<lambda>q rq. Some (sio_latter_request q rq))\<rparr>"

section \<open>The two FIFO lists and the dispatch list\<close>

lemma sio_dispatch_request_fields [simp]:
  "links (sio_dispatch_request q r) = list_add_tail r (queue_head q) (list_del_init r (links q))"
  "queue_head (sio_dispatch_request q r) = queue_head q"
  "nr_sorted (sio_dispatch_request q r) = nr_sorted q - 1"
  "jiffies (sio_dispatch_request q r) = jiffies q"
  "elevator_data (sio_dispatch_request q r) =
     (elevator_data q)\<lparr>batched := batched (elevator_data q) + 1\<rparr>"
  "x \<noteq> r \<Longrightarrow> rqs (sio_dispatch_request q r) x = rqs q x"
  by (simp_all add: sio_dispatch_request_def Let_def)

definition sio_lists :: "sio_queue \<Rightarrow> (bool \<Rightarrow> ptr list) \<Rightarrow> ptr list \<Rightarrow> bool" where
  "sio_lists q F D \<longleftrightarrow>
     (\<forall>s. dlist (links q) (fifo_list (elevator_data q) s) (F s)) \<and>
     dlist (links q) (queue_head q) D \<and>
     (\<forall>s. set (fifo_list (elevator_data q) s # F s) \<inter> set (queue_head q # D) = {}) \<and>
     set (fifo_list (elevator_data q) True # F True)
       \<inter> set (fifo_list (elevator_data q) False # F False) = {} \<and>
     (\<forall>s. 0 \<notin> set (F s))"

lemma sio_listsD:
  assumes "sio_lists q F D"
  shows "dlist (links q) (fifo_list (elevator_data q) s) (F s)"
    and "dlist (links q) (queue_head q) D"
    and "set (fifo_list (elevator_data q) s # F s) \<inter> set (queue_head q # D) = {}"
    and "set (fifo_list (elevator_data q) s # F s)
      \<inter> set (fifo_list (elevator_data q) (\<not> s) # F (\<not> s)) = {}"
    and "0 \<notin> set (F s)"
proof -
  note l = assms [unfolded sio_lists_def]
  show "dlist (links q) (fifo_list (elevator_data q) s) (F s)" "dlist (links q) (queue_head q) D"
    "set (fifo_list (elevator_data q) s # F s) \<inter> set (queue_head q # D) = {}" "0 \<notin> set (F s)"
    using l by blast+
  have "set (fifo_list (elevator_data q) True # F True)
      \<inter> set (fifo_list (elevator_data q) False # F False) = {}" using l by blast
  then show "set (fifo_list (elevator_data q) s # F s)
      \<inter> set (fifo_list (elevator_data q) (\<not> s) # F (\<not> s)) = {}"
    by (cases s) auto
qed

lemma sio_listsI:
  assumes "dlist (links q) (fifo_list (elevator_data q) s) (F s)"
    and "dlist (links q) (fifo_list (elevator_data q) (\<not> s)) (F (\<not> s))"
    and "dlist (links q) (queue_head q) D"
    and "set (fifo_list (elevator_data q) s # F s) \<inter> set (queue_head q # D) = {}"
    and "set (fifo_list (elevator_data q) (\<not> s) # F (\<not> s)) \<inter> set (queue_head q # D) = {}"
    and "set (fifo_list (elevator_data q) s # F s)
      \<inter> set (fifo_list (elevator_data q) (\<not> s) # F (\<not> s)) = {}"
    and "0 \<notin> set (F s)" and "0 \<notin> set (F (\<not> s))"
  shows "sio_lists q F D"
  using assms unfolding sio_lists_def by (cases s) (auto simp: all_bool_eq)

lemma sio_add_request_lists:
  assumes l: "sio_lists q F D" and r: "r \<noteq> 0" "\<And>s. r \<notin> set (fifo_list (elevator_data q) s # F s)"
    "r \<notin> set (queue_head q # D)"
  defines "s \<equiv> rq_is_sync (rqs q r)"
  shows "sio_lists (sio_add_request q r) (F(s := F s @ [r])) D"
proof -
  let ?f = "fifo_list (elevator_data q)"
  note d = sio_listsD [OF l]
  have "dlist (list_add_tail r (?f s) (links q)) (?f s) (F s @ [r])"
    using d(1) r(2) by (rule klist.holds_add_tail)
  moreover have "dlist (list_add_tail r (?f s) (links q)) (?f (\<not> s)) (F (\<not> s))"
    using d(1) d(1) d(4) r(2) by (rule klist.frame_add_tail)
  moreover have "dlist (list_add_tail r (?f s) (links q)) (queue_head q) D"
    using d(2) d(1) d(3) r(3) by (rule klist.frame_add_tail)
  ultimately show ?thesis
    using d(3) [of s] d(3) [of "\<not> s"] d(4) [of s] d(5) r
    by (intro sio_listsI [of _ s])
       (auto simp: sio_add_request_def rq_set_fifo_time_def s_def [symmetric] Let_def)
qed

lemma sio_dispatch_request_lists:
  assumes l: "sio_lists q F D" and r: "F s = r # rs"
  shows "sio_lists (sio_dispatch_request q r) (F(s := rs)) (D @ [r])"
proof -
  let ?f = "fifo_list (elevator_data q)"
  let ?h = "list_add_tail r (queue_head q) (list_del_init r (links q))"
  note d = sio_listsD [OF l]
  have ds: "dlist (links q) (?f s) (r # rs)" "set (?f s # r # rs) \<inter> set (queue_head q # D) = {}"
    using d(1) [of s] d(3) [of s] r by simp_all
  have rn: "r \<notin> set (?f (\<not> s) # F (\<not> s))" "r \<noteq> 0" "r \<notin> set rs" "r \<noteq> ?f s" "0 \<notin> set rs"
    using d(4) [of s] d(5) [of s] r dlist_distinct [OF ds(1)] by auto
  have 1: "dlist ?h (?f s) rs" "dlist ?h (queue_head q) (D @ [r])"
    using klist.transfer_first [OF ds(1) d(2) ds(2)] by auto
  have "dlist (list_del_init r (links q)) (?f (\<not> s)) (F (\<not> s))"
    by (rule klist.frame_del [OF d(1) ds(1)]) (use d(4) [of s] r in auto)
  moreover have "dlist (list_del_init r (links q)) (queue_head q) D"
    by (rule klist.frame_del [OF d(2) ds(1) ds(2)]) simp
  moreover have "set (queue_head q # D) \<inter> set (?f (\<not> s) # F (\<not> s)) = {}"
    using d(3) [of "\<not> s"] by auto
  ultimately have "dlist ?h (?f (\<not> s)) (F (\<not> s))"
    using rn(1) by (intro klist.frame_add_tail)
  then show ?thesis
    using 1 d(3) [of "\<not> s"] d(4) [of s] d(5) ds(2) rn r
    by (intro sio_listsI [of _ s]) auto
qed

section \<open>Which request a dispatch takes\<close>

definition sio_expired :: "sio_queue \<Rightarrow> (bool \<Rightarrow> ptr list) \<Rightarrow> bool \<Rightarrow> bool" where
  "sio_expired q F s \<longleftrightarrow>
     F s \<noteq> [] \<and> time_after (jiffies q) (rq_fifo_time (rqs q (List.hd (F s))))"

text \<open>
  The contract of a dispatch: after a batch, an expired asynchronous request, else an expired
  synchronous one; otherwise the oldest synchronous request, else the oldest asynchronous one.
\<close>

definition sio_pick :: "sio_queue \<Rightarrow> (bool \<Rightarrow> ptr list) \<Rightarrow> bool option" where
  "sio_pick q F =
     (let due = batched (elevator_data q) > fifo_batch (elevator_data q) in
      if due \<and> sio_expired q F False then Some False
      else if due \<and> sio_expired q F True then Some True
      else if F True \<noteq> [] then Some True
      else if F False \<noteq> [] then Some False
      else None)"

definition sio_rebatch :: "sio_queue \<Rightarrow> sio_queue" where
  "sio_rebatch q =
     (if batched (elevator_data q) > fifo_batch (elevator_data q)
      then q\<lparr>elevator_data := (elevator_data q)\<lparr>batched := 0\<rparr>\<rparr> else q)"

lemma sio_rebatch_fields [simp]:
  "links (sio_rebatch q) = links q" "queue_head (sio_rebatch q) = queue_head q"
  "rqs (sio_rebatch q) = rqs q" "jiffies (sio_rebatch q) = jiffies q"
  "nr_sorted (sio_rebatch q) = nr_sorted q"
  "fifo_list (elevator_data (sio_rebatch q)) = fifo_list (elevator_data q)"
  "fifo_batch (elevator_data (sio_rebatch q)) = fifo_batch (elevator_data q)"
  by (simp_all add: sio_rebatch_def)

lemma sio_rebatch_lists: "sio_lists (sio_rebatch q) F D \<longleftrightarrow> sio_lists q F D"
  by (simp add: sio_lists_def)

lemma sio_first:
  assumes "sio_lists q F D"
  shows "list_empty (fifo_list (elevator_data q) s) (links q) \<longleftrightarrow> F s = []"
    and "F s \<noteq> [] \<Longrightarrow> nxt (links q) (fifo_list (elevator_data q) s) = List.hd (F s)"
    and "F s \<noteq> [] \<Longrightarrow> List.hd (F s) \<noteq> 0"
proof -
  note d = sio_listsD(1) [OF assms, of s] sio_listsD(5) [OF assms, of s]
  show "list_empty (fifo_list (elevator_data q) s) (links q) \<longleftrightarrow> F s = []"
    using d(1) by (rule dlist_empty_iff)
  show "nxt (links q) (fifo_list (elevator_data q) s) = List.hd (F s)" if "F s \<noteq> []"
    using dlist_nxt_head [OF d(1)] hd_append2 [OF that] by (rule trans)
  show "List.hd (F s) \<noteq> 0" if "F s \<noteq> []"
  proof
    assume "List.hd (F s) = 0"
    with hd_in_set [OF that] d(2) show False by simp
  qed
qed

lemma sio_expired_request_eq:
  assumes "sio_lists q F D"
  shows "sio_expired_request q s = (if sio_expired q F s then List.hd (F s) else NULL)"
  using sio_first [OF assms, of s] by (auto simp: sio_expired_request_def sio_expired_def Let_def)

lemma sio_dispatch_requests_eq:
  assumes "sio_lists q F D"
  shows "sio_dispatch_requests q force =
    (case sio_pick q F of
       None \<Rightarrow> (0, sio_rebatch q)
     | Some s \<Rightarrow> (1, sio_dispatch_request (sio_rebatch q) (List.hd (F s))))"
proof -
  let ?q = "sio_rebatch q"
  have l: "sio_lists ?q F D" using assms by (simp add: sio_rebatch_lists)
  have e: "sio_expired ?q F s = sio_expired q F s" for s by (simp add: sio_expired_def)
  have ne: "sio_expired q F s \<Longrightarrow> F s \<noteq> []" for s by (simp add: sio_expired_def)
  have nz: "F True \<noteq> [] \<Longrightarrow> List.hd (F True) \<noteq> 0" "F False \<noteq> [] \<Longrightarrow> List.hd (F False) \<noteq> 0"
    by (rule sio_first(3) [OF assms], assumption)+
  have expd: "sio_choose_expired_request ?q =
      (if sio_expired q F False then List.hd (F False)
       else if sio_expired q F True then List.hd (F True) else NULL)"
    using nz ne [of True] ne [of False]
    by (simp add: sio_choose_expired_request_def sio_expired_request_eq [OF l] e)
  have plain: "sio_choose_request ?q =
      (if F True \<noteq> [] then List.hd (F True) else if F False \<noteq> [] then List.hd (F False) else NULL)"
    using sio_first(1,2) [OF l] by (simp add: sio_choose_request_def Let_def)
  show ?thesis
  proof (cases "batched (elevator_data q) > fifo_batch (elevator_data q)")
    case True
    then have "sio_dispatch_requests q force =
        (let rq = sio_choose_expired_request ?q;
             rq = (if rq = NULL then sio_choose_request ?q else rq)
         in if rq = NULL then (0, ?q) else (1, sio_dispatch_request ?q rq))"
      by (simp add: sio_dispatch_requests_def sio_rebatch_def Let_def)
    then show ?thesis
      using True nz ne [of True] ne [of False]
      by (cases "sio_expired q F False"; cases "sio_expired q F True"; cases "F True = []";
          cases "F False = []"; simp add: sio_pick_def expd plain Let_def)
  next
    case False
    then have "sio_dispatch_requests q force =
        (let rq = sio_choose_request ?q
         in if rq = NULL then (0, ?q) else (1, sio_dispatch_request ?q rq))"
      by (simp add: sio_dispatch_requests_def sio_rebatch_def Let_def)
    then show ?thesis
      using False nz
      by (cases "F True = []"; cases "F False = []"; simp add: sio_pick_def plain Let_def)
  qed
qed

lemma sio_pick_nonempty: "sio_pick q F = Some s \<Longrightarrow> F s \<noteq> []"
  by (auto simp: sio_pick_def sio_expired_def Let_def split: if_splits)

lemma sio_pick_None: "sio_pick q F = None \<longleftrightarrow> F True = [] \<and> F False = []"
  by (auto simp: sio_pick_def sio_expired_def Let_def)

lemma sio_dispatch_requests_lists:
  assumes "sio_lists q F D" and "sio_pick q F = Some s"
  obtains q' where "sio_dispatch_requests q force = (1, q')"
    and "sio_lists q' (F(s := tl (F s))) (D @ [List.hd (F s)])"
    and "nr_sorted q' = nr_sorted q - 1" and "jiffies q' = jiffies q"
    and "fifo_batch (elevator_data q') = fifo_batch (elevator_data q)"
    and "batched (elevator_data q') = batched (elevator_data (sio_rebatch q)) + 1"
    and "\<And>x. x \<noteq> List.hd (F s) \<Longrightarrow> rqs q' x = rqs q x"
proof -
  define r where "r = List.hd (F s)"
  have "F s = r # tl (F s)"
    unfolding r_def by (rule list.collapse [symmetric, OF sio_pick_nonempty [OF assms(2)]])
  with sio_rebatch_lists [THEN iffD2, OF assms(1)]
  have l: "sio_lists (sio_dispatch_request (sio_rebatch q) r) (F(s := tl (F s))) (D @ [r])"
    by (rule sio_dispatch_request_lists)
  have e: "sio_dispatch_requests q force = (1, sio_dispatch_request (sio_rebatch q) r)"
    unfolding r_def sio_dispatch_requests_eq [OF assms(1)] assms(2) by simp
  show thesis
    by (rule that [folded r_def, OF e l]) simp_all
qed

section \<open>The scheduler contract\<close>

definition sio_state :: "sio_queue \<Rightarrow> ptr multiset \<Rightarrow> ptr list \<Rightarrow> bool" where
  "sio_state q P D \<longleftrightarrow> (\<exists>F. P = mset (F True) + mset (F False) \<and> sio_lists q F D)"

definition sio_fresh :: "sio_queue \<Rightarrow> ptr \<Rightarrow> bool" where
  "sio_fresh q r \<longleftrightarrow> r \<noteq> 0 \<and>
     (\<forall>F D. sio_lists q F D \<longrightarrow>
        (\<forall>s. r \<notin> set (fifo_list (elevator_data q) s # F s)) \<and> r \<notin> set (queue_head q # D))"

lemma mset_fifo_upd:
  "mset ((F(s := xs)) True) + mset ((F(s := xs)) False) + mset (F s) =
   mset (F True) + mset (F False) + mset (xs :: ptr list)"
  by (cases s) auto

lemma sio_dispatch_one:
  assumes "sio_state q P D" and "P \<noteq> {#}"
  shows "\<exists>r q' D'. sio_dispatch_requests q force = (1, q') \<and> r \<in># P \<and> sio_state q' (P - {#r#}) D' \<and>
    mset D' = add_mset r (mset D) \<and> nr_sorted q' = nr_sorted q - 1"
proof -
  obtain F where P: "P = mset (F True) + mset (F False)" and l: "sio_lists q F D"
    using assms(1) unfolding sio_state_def by blast
  have "sio_pick q F \<noteq> None"
    using assms(2) P by (auto simp: sio_pick_None)
  then obtain s where s: "sio_pick q F = Some s" by blast
  obtain q' where q': "sio_dispatch_requests q force = (1, q')"
    "sio_lists q' (F(s := tl (F s))) (D @ [List.hd (F s)])" "nr_sorted q' = nr_sorted q - 1"
    by (rule sio_dispatch_requests_lists [OF l s])
  have "mset (F s) = add_mset (List.hd (F s)) (mset (tl (F s)))"
    using sio_pick_nonempty [OF s] by (metis list.collapse mset.simps(2))
  then have "P = add_mset (List.hd (F s))
      (mset ((F(s := tl (F s))) True) + mset ((F(s := tl (F s))) False))"
    using mset_fifo_upd [of F s "tl (F s)"] P by auto
  moreover from q'(2) have "sio_state q' (mset ((F(s := tl (F s))) True)
      + mset ((F(s := tl (F s))) False)) (D @ [List.hd (F s)])"
    unfolding sio_state_def by blast
  ultimately have "List.hd (F s) \<in># P" "sio_state q' (P - {#List.hd (F s)#}) (D @ [List.hd (F s)])"
    by (simp_all only: union_single_eq_member add_mset_remove_trivial)
  then show ?thesis
    using q' by (intro exI [of _ "List.hd (F s)"] exI [of _ q'] exI [of _ "D @ [List.hd (F s)]"]) simp
qed

interpretation sio: io_scheduler iosched_sio sio_state sio_fresh
proof unfold_locales
  fix q D force
  assume "sio_state q {#} D"
  then obtain F where "sio_lists q F D" "F True = []" "F False = []"
    unfolding sio_state_def by auto
  then show "\<exists>q'. elevator_dispatch_fn iosched_sio q force = Some (0, q') \<and> sio_state q' {#} D \<and>
      nr_sorted q' = nr_sorted q"
    by (simp add: iosched_sio_def sio_dispatch_requests_eq sio_pick_None [THEN iffD2] sio_state_def
        sio_rebatch_lists) (rule exI [of _ F], simp)
next
  fix q P D force
  assume "sio_state q P D" and "P \<noteq> {#}"
  then show "\<exists>r q' D'. elevator_dispatch_fn iosched_sio q force = Some (1, q') \<and> r \<in># P \<and>
      sio_state q' (P - {#r#}) D' \<and> mset D' = add_mset r (mset D) \<and>
      nr_sorted q' = nr_sorted q - 1"
    using sio_dispatch_one [of q P D force] by (simp add: iosched_sio_def)
next
  fix q P D r
  assume st: "sio_state q P D" and fr: "sio_fresh q r"
  obtain F where P: "P = mset (F True) + mset (F False)" and l: "sio_lists q F D"
    using st unfolding sio_state_def by blast
  let ?s = "rq_is_sync (rqs q r)"
  have "sio_lists (sio_add_request q r) (F(?s := F ?s @ [r])) D"
    using l by (rule sio_add_request_lists) (use fr l in \<open>auto simp: sio_fresh_def\<close>)
  moreover have "add_mset r P = mset ((F(?s := F ?s @ [r])) True) + mset ((F(?s := F ?s @ [r])) False)"
    using P by (cases ?s) auto
  ultimately have "sio_state (sio_add_request q r) (add_mset r P) D"
    unfolding sio_state_def by blast
  moreover have "nr_sorted (sio_add_request q r) = nr_sorted q"
    by (simp add: sio_add_request_def rq_set_fifo_time_def Let_def)
  ultimately show "\<exists>q' P' D'. elevator_add_req_fn iosched_sio q r = Some q' \<and> sio_state q' P' D' \<and> r \<in># P' \<and>
      P' + mset D' = add_mset r (P + mset D) \<and>
      nr_sorted q' + of_nat (size P) + 1 = nr_sorted q + of_nat (size P')"
    by (intro exI [of _ "sio_add_request q r"] exI [of _ "add_mset r P"] exI [of _ D])
      (simp add: iosched_sio_def add.commute)
next
  fix q P D
  assume "sio_state q P D"
  then show "\<exists>f. elevator_queue_empty_fn iosched_sio = Some f \<and> (f q \<longleftrightarrow> P = {#})"
    using sio_first(1) by (fastforce simp: iosched_sio_def sio_state_def sio_queue_empty_def Let_def)
next
  fix q P D
  assume "sio_state q P D"
  then show "dlist (links q) (queue_head q) D"
    unfolding sio_state_def using sio_listsD(2) by blast
next
  fix q P D r
  assume "sio_state q P D" and r: "r \<in># P"
  then obtain F where P: "P = mset (F True) + mset (F False)" and l: "sio_lists q F D"
    unfolding sio_state_def by blast
  note d = sio_listsD [OF l]
  have "distinct (F True)" "distinct (F False)" "set (F True) \<inter> set (F False) = {}"
    using dlist_distinct [OF d(1)] d(4) [of True] by auto
  then have "count P r = 1"
    using r P by (auto simp: count_mset_distinct count_eq_zero_iff disjoint_iff)
  then show "count P r = 1 \<and> r \<notin> set D"
    using r P d(3) [of True] d(3) [of False] by auto
qed

section \<open>Properties of the scheduler\<close>

text \<open>
  Draining a queue under SIO ends, hands every request to the dispatch list exactly once,
  leaves both FIFO lists empty, brings \<open>nr_sorted\<close> to zero and prints no complaint.
\<close>

theorem sio_drain:
  assumes "sio_state q P D" and "nr_sorted q = of_nat (size P)"
  shows "\<exists>q' D'. elv_drain_elevator iosched_sio n q = Some (n, q') \<and> sio_state q' {#} D' \<and>
    mset D' = mset D + P \<and> nr_sorted q' = 0"
  using assms by (rule sio.drain)

primrec sio_run :: "nat \<Rightarrow> sio_queue \<Rightarrow> sio_queue" where
  "sio_run 0 q = q"
| "sio_run (Suc n) q = sio_run n (snd (sio_dispatch_requests q False))"


definition sio_example :: sio_queue where
  "sio_example =
     (let q = blank_queue 4 \<lparr>fifo_list = (\<lambda>s. if s then 16 else 24), batched = 0,
                fifo_expire = (\<lambda>s. if s then sync_expire else async_expire), fifo_batch = 1\<rparr>
              (INIT_LIST_HEAD 24 (INIT_LIST_HEAD 16 \<lparr>nxt = id, prv = id\<rparr>));
          q = q\<lparr>nr_sorted := 1, rqs := (\<lambda>_. blank_request\<lparr>cmd_flags := REQ_RW\<rparr>)\<rparr>
      in (sio_add_request q 8)\<lparr>jiffies := 2000\<rparr>)"

lemma sio_example_lists: "sio_lists sio_example ((\<lambda>_. [])(False := [8])) []"
proof -
  define q where "q = (blank_queue 4 \<lparr>fifo_list = (\<lambda>s. if s then 16 else 24), batched = 0,
      fifo_expire = (\<lambda>s. if s then sync_expire else async_expire), fifo_batch = 1\<rparr>
      (INIT_LIST_HEAD 24 (INIT_LIST_HEAD 16 \<lparr>nxt = id, prv = id\<rparr>)))
    \<lparr>nr_sorted := 1, rqs := (\<lambda>_. blank_request\<lparr>cmd_flags := REQ_RW\<rparr>)\<rparr>"
  have "sio_lists q (\<lambda>_. []) []"
    by (rule sio_listsI [of _ True])
       (simp_all add: q_def blank_queue_def INIT_LIST_HEAD_def set_next_def set_prev_def)
  then have "sio_lists (sio_add_request q 8) ((\<lambda>_. [])(rq_is_sync (rqs q 8) := [] @ [8])) []"
    by (rule sio_add_request_lists) (auto simp: q_def blank_queue_def)
  moreover have "\<not> rq_is_sync (rqs q 8)"
    by (simp add: q_def rq_is_sync_def rw_is_sync_def req_flag_defs blank_request_def)
  ultimately have "sio_lists (sio_add_request q 8) ((\<lambda>_. [])(False := [8])) []" by simp
  moreover have "sio_lists (p\<lparr>jiffies := t\<rparr>) F D \<longleftrightarrow> sio_lists p F D" for p t F D
    by (simp add: sio_lists_def)
  moreover have "sio_example = (sio_add_request q 8)\<lparr>jiffies := 2000\<rparr>"
    by (simp add: sio_example_def q_def)
  ultimately show ?thesis by metis
qed

lemma sio_example_fields:
  "nr_sorted sio_example = 1" "jiffies sio_example = 2000"
  "batched (elevator_data sio_example) = 0" "fifo_batch (elevator_data sio_example) = 1"
  "rq_fifo_time (rqs sio_example 8) = 1280"
  by (simp_all add: sio_example_def sio_add_request_def blank_queue_def rq_set_fifo_time_def Let_def
      rq_is_sync_def rw_is_sync_def req_flag_defs blank_request_def rq_fifo_time_def async_expire_def
      HZ_def)

theorem sio_drain_witness:
  "\<exists>q' D'. elv_drain_elevator iosched_sio 0 sio_example = Some (0, q') \<and> sio_state q' {#} D' \<and>
    mset D' = {#8#} \<and> nr_sorted q' = 0"
proof -
  have "sio_state sio_example {#8#} []"
    unfolding sio_state_def
    by (rule exI [of _ "(\<lambda>_. [])(False := [8])"]) (use sio_example_lists in simp)
  from sio_drain [OF this, of 0] show ?thesis by (simp add: sio_example_fields)
qed


section \<open>Attributes\<close>

lemma strtol_of_shown:
  assumes "0 \<le> sint v"
  shows "fst (simple_strtol (sio_var_show v) 10) = sint v"
proof -
  define n where "n = (of_int (sint v) :: u64)"
  have b: "uint v < 2 ^ 31" using assms by (simp add: sint_u32_nonneg)
  then have v: "sint v = uint v" by (simp add: sint_u32)
  have i: "sint (of_int i :: u64) = i \<and> uint (of_int i :: u64) = i" if "0 \<le> i" "i < 2 ^ 31" for i
    using that by (simp add: signed_of_int signed_take_bit_int_eq_self unsigned_of_int take_bit_int_eq_self)
  have "sint n = sint v \<and> uint n = sint v"
    unfolding n_def by (rule i [OF assms]) (use b v in linarith)
  then have sn: "\<not> sint n < 0" and "uint n = uint v" using assms v by linarith+
  then have "unat n = unat v" by (simp only: unat_eq_nat_uint)
  moreover have "sio_var_show v = rev (put_dec n) @ [char_of (10 :: nat)]"
    unfolding sio_var_show_def n_def [symmetric] number_dec using sn by (simp only: if_False)
  moreover have "cp_at (rev (put_dec n) @ [char_of (10 :: nat)]) 0 \<noteq> 45"
    using put_dec_digits [of "last (put_dec n)" n]
    by (cases "put_dec n" rule: rev_cases) (auto simp: cp_at_def isdigit_def)
  moreover have "simple_strtoul (rev (put_dec n) @ [char_of (10 :: nat)]) 10 = (of_nat (unat n), [char_of (10 :: nat)])"
    by (rule simple_strtoul_put_dec) (simp add: isdigit_def)
  ultimately show ?thesis
    by (simp add: simple_strtol_def)
qed

lemma jiffies_msecs_jiffies:
  assumes "uint j < 39268288"
  shows "msecs_to_jiffies (jiffies_to_msecs j) = j" and "0 \<le> sint (jiffies_to_msecs j)"
proof -
  define m where "m = uint j * 125 div 32"
  have m: "32 * m \<le> uint j * 125" "uint j * 125 < 32 * m + 32" "0 \<le> m"
    unfolding m_def using uint_ge_0 [of j] by linarith+
  then have "m < 153391750" using assms by linarith
  then have um: "uint (jiffies_to_msecs j) = m"
    using m(3) by (simp add: jiffies_to_msecs_eq m_def [symmetric])
  then show s: "0 \<le> sint (jiffies_to_msecs j)"
    using \<open>m < 153391750\<close> by (simp add: sint_u32_nonneg)
  have "uint (msecs_to_jiffies (jiffies_to_msecs j)) = (32 * m + 124) div 125"
    unfolding msecs_to_jiffies_eq [OF s] um
    using msec_factor [of m] m(3) \<open>m < 153391750\<close> by simp
  also have "\<dots> = uint j" using m(1,2) by linarith
  finally show "msecs_to_jiffies (jiffies_to_msecs j) = j" by (simp add: word_uint_eq_iff)
qed

lemma STORE_SHOW:
  assumes "0 \<le> sint (if conv then jiffies_to_msecs v else v)"
  shows "STORE_FUNCTION 0 INT_MAX conv (SHOW_FUNCTION v conv) n =
    (if conv then msecs_to_jiffies (jiffies_to_msecs v) else v, int n)"
proof -
  define d where "d = (if conv then jiffies_to_msecs v else v)"
  have "fst (simple_strtol (sio_var_show d) 10) = sint d"
    using assms by (intro strtol_of_shown) (simp add: d_def)
  moreover have "sint d \<le> INT_MAX" using sint_lt [of d] by (simp add: INT_MAX_def)
  moreover have "of_int (sint d) = d" by simp
  ultimately show ?thesis
    using assms unfolding STORE_FUNCTION_def SHOW_FUNCTION_def sio_var_store_def
    by (auto simp: d_def [symmetric] Let_def split: prod.splits) (auto simp: d_def)
qed

text \<open>
  Writing back to an attribute the text it shows leaves the scheduler as it was: for the batch
  size whenever it is not negative, and for the expiry times, which are shown in milliseconds and
  kept in ticks, whenever they are below 39268288 ticks (42 hours).
\<close>

theorem sio_attr_roundtrip:
  assumes "0 \<le> sint (fifo_batch sd)" and "\<forall>s. uint (fifo_expire sd s) < 39268288"
  shows "sio_fifo_batch_store sd (sio_fifo_batch_show sd) n = (sd, int n) \<and>
    sio_expire_store sd s (sio_expire_show sd s) n = (sd, int n)"
  using assms STORE_SHOW [of False "fifo_batch sd" n] STORE_SHOW [of True "fifo_expire sd s" n]
    jiffies_msecs_jiffies [of "fifo_expire sd s"]
  by (simp add: sio_fifo_batch_store_def sio_fifo_batch_show_def sio_expire_store_def
      sio_expire_show_def)

theorem sio_attr_roundtrip_witness:
  "sio_expire_store (elevator_data sio_example) True (sio_expire_show (elevator_data sio_example) True) 4
     = (elevator_data sio_example, 4)"
proof -
  have "\<forall>s. uint (fifo_expire (elevator_data sio_example) s) < 39268288"
    by (simp add: sio_example_def sio_add_request_def blank_queue_def rq_set_fifo_time_def Let_def
        async_expire_def sync_expire_def HZ_def)
  from sio_attr_roundtrip [OF _ this, of 4 True] show ?thesis
    by (simp add: sio_example_fields)
qed

end
