(* ===== verification/Rbtree_Insert.thy ===== *)
theory Rbtree_Insert
  imports Rbtree
begin

text \<open>
  The red-black invariants and \<open>rb_insert_color\<close>: the insertion on trees that the loop on the heap implements, and that
  it keeps the order and restores the invariants.
\<close>

section \<open>Red-black invariants\<close>

fun is_red :: "rbt \<Rightarrow> bool" where
  "is_red Leaf \<longleftrightarrow> False"
| "is_red (Node l x c r) \<longleftrightarrow> c = Red"

fun blacken :: "rbt \<Rightarrow> rbt" where
  "blacken Leaf = Leaf"
| "blacken (Node l x c r) = Node l x Black r"

fun bheight :: "rbt \<Rightarrow> nat" where
  "bheight Leaf = 0"
| "bheight (Node l x c r) = (if c = Black then Suc (bheight l) else bheight l)"

fun invh :: "rbt \<Rightarrow> bool" where
  "invh Leaf \<longleftrightarrow> True"
| "invh (Node l x c r) \<longleftrightarrow> bheight l = bheight r \<and> invh l \<and> invh r"

fun invc :: "rbt \<Rightarrow> bool" where
  "invc Leaf \<longleftrightarrow> True"
| "invc (Node l x c r) \<longleftrightarrow> (c = Red \<longrightarrow> \<not> is_red l \<and> \<not> is_red r) \<and> invc l \<and> invc r"

definition red_black_tree :: "rbt \<Rightarrow> bool" where
  "red_black_tree t \<longleftrightarrow> invc t \<and> invh t \<and> \<not> is_red t"

text \<open>What a context asks of the tree in its hole: the black height, and whether it may be red.\<close>

fun red_ok :: "ctx \<Rightarrow> bool" where
  "red_ok Top \<longleftrightarrow> False"
| "red_ok (InL K x c r) \<longleftrightarrow> c = Black"
| "red_ok (InR K l x c) \<longleftrightarrow> c = Black"

fun ctx_inv :: "ctx \<Rightarrow> nat \<Rightarrow> bool" where
  "ctx_inv Top n \<longleftrightarrow> True"
| "ctx_inv (InL K x c r) n \<longleftrightarrow> invc r \<and> invh r \<and> bheight r = n \<and> (c = Red \<longrightarrow> \<not> is_red r \<and> red_ok K) \<and>
     ctx_inv K (if c = Black then Suc n else n)"
| "ctx_inv (InR K l x c) n \<longleftrightarrow> invc l \<and> invh l \<and> bheight l = n \<and> (c = Red \<longrightarrow> \<not> is_red l \<and> red_ok K) \<and>
     ctx_inv K (if c = Black then Suc n else n)"

lemma colour_neq [simp]: "c \<noteq> Black \<longleftrightarrow> c = Red" "c \<noteq> Red \<longleftrightarrow> c = Black"
  by (cases c; simp)+

lemma red_black_fill:
  "red_black_tree (fill K t) \<longleftrightarrow> ctx_inv K (bheight t) \<and> invc t \<and> invh t \<and> (is_red t \<longrightarrow> red_ok K)"
proof (induction K arbitrary: t)
  case Top
  show ?case by (auto simp: red_black_tree_def)
next
  case (InL K x c r)
  show ?case unfolding fill.simps InL.IH by (cases c) auto
next
  case (InR K l x c)
  show ?case unfolding fill.simps InR.IH by (cases c) auto
qed

lemma inorder_fill_cong: "inorder t = inorder t' \<Longrightarrow> inorder (fill K t) = inorder (fill K t')"
  by (induction K arbitrary: t t') auto

lemma blacken_props [simp]:
  "inorder (blacken t) = inorder t" "rootp (blacken t) = rootp t" "\<not> is_red (blacken t)"
  "invh t \<Longrightarrow> invh (blacken t)" "invc t \<Longrightarrow> invc (blacken t)"
  by (cases t; simp)+

lemma blacken_id: "\<not> is_red t \<Longrightarrow> blacken t = t"
  by (cases t) simp_all

lemma bheight_blacken: "bheight (blacken t) = (if is_red t then Suc (bheight t) else bheight t)"
  by (cases t) simp_all

section \<open>Insertion on trees\<close>

text \<open>The tree that \<open>rb_insert_color\<close> leaves when the red tree \<open>t\<close> has come into the hole.\<close>

fun fixup :: "ctx \<Rightarrow> rbt \<Rightarrow> rbt" where
  "fixup (InL (InL K g d u) p Red s) t =
     (if is_red u then fixup K (Node (Node t p Black s) g Red (blacken u))
      else fill K (Node t p Black (Node s g Red u)))"
| "fixup (InR (InL K g d u) s p Red) (Node l x c r) =
     (if is_red u then fixup K (Node (Node s p Black (Node l x c r)) g Red (blacken u))
      else fill K (Node (Node s p Red l) x Black (Node r g Red u)))"
| "fixup (InR (InR K u g d) s p Red) t =
     (if is_red u then fixup K (Node (blacken u) g Red (Node s p Black t))
      else fill K (Node (Node u g Red s) p Black t))"
| "fixup (InL (InR K u g d) p Red s) (Node l x c r) =
     (if is_red u then fixup K (Node (blacken u) g Red (Node (Node l x c r) p Black s))
      else fill K (Node (Node u g Red l) x Black (Node r p Red s)))"
| "fixup K t = fill K t"

lemma inorder_fixup: "inorder (fixup K t) = inorder (fill K t)"
  by (induction K t rule: fixup.induct) (simp_all, (rule impI conjI inorder_fill_cong | simp)+)

lemma red_black_blacken: "red_black_tree t \<Longrightarrow> red_black_tree (blacken t)"
  by (simp add: red_black_tree_def blacken_id)

lemma red_black_done:
  assumes "ctx_inv K (bheight t)" "invc t" "invh t" "K = Top \<or> red_ok K"
  shows "red_black_tree (blacken (fill K t))"
proof (cases "K = Top")
  case True
  then show ?thesis using assms by (simp add: red_black_tree_def)
next
  case False
  then show ?thesis using assms by (intro red_black_blacken) (simp add: red_black_fill)
qed

lemma red_black_fixup:
  assumes "ctx_inv K (bheight t)" "invc t" "invh t" "is_red t"
  shows "red_black_tree (blacken (fixup K t))"
  using assms
proof (induction K t rule: fixup.induct)
  case (1 K g d u p s t)
  show ?case
  proof (cases "is_red u")
    case True
    show ?thesis unfolding fixup.simps if_P [OF True]
      by (rule "1.IH" [OF True]) (use "1.prems" True in \<open>auto simp: bheight_blacken\<close>)
  next
    case False
    show ?thesis unfolding fixup.simps if_not_P [OF False]
      by (rule red_black_blacken, unfold red_black_fill) (use "1.prems" False in auto)
  qed
next
  case (2 K g d u s p l x c r)
  show ?case
  proof (cases "is_red u")
    case True
    show ?thesis unfolding fixup.simps if_P [OF True]
      by (rule "2.IH" [OF True]) (use "2.prems" True in \<open>auto simp: bheight_blacken\<close>)
  next
    case False
    show ?thesis unfolding fixup.simps if_not_P [OF False]
      by (rule red_black_blacken, unfold red_black_fill) (use "2.prems" False in auto)
  qed
next
  case (3 K u g d s p t)
  show ?case
  proof (cases "is_red u")
    case True
    show ?thesis unfolding fixup.simps if_P [OF True]
      by (rule "3.IH" [OF True]) (use "3.prems" True in \<open>auto simp: bheight_blacken\<close>)
  next
    case False
    show ?thesis unfolding fixup.simps if_not_P [OF False]
      by (rule red_black_blacken, unfold red_black_fill) (use "3.prems" False in auto)
  qed
next
  case (4 K u g d p s l x c r)
  show ?case
  proof (cases "is_red u")
    case True
    show ?thesis unfolding fixup.simps if_P [OF True]
      by (rule "4.IH" [OF True]) (use "4.prems" True in \<open>auto simp: bheight_blacken\<close>)
  next
    case False
    show ?thesis unfolding fixup.simps if_not_P [OF False]
      by (rule red_black_blacken, unfold red_black_fill) (use "4.prems" False in auto)
  qed
qed (unfold fixup.simps, (rule red_black_done; auto)+)

section \<open>The insertion loop\<close>

lemma rootp_in: "rootp t = NULL \<or> rootp t \<in> set (inorder t)"
  by (cases t) simp_all

lemma rep_is_red: "rep F st (fill K t) \<Longrightarrow> rootp t \<noteq> NULL \<and> rb_is_red st (rootp t) \<longleftrightarrow> is_red t"
  by (cases t) (auto dest: rep_node)

lemma rep_blacken: "rep F st (fill K t) \<Longrightarrow> t \<noteq> Leaf \<Longrightarrow> rep F (rb_set_black (rootp t) st) (fill K (blacken t))"
  by (cases t) (simp_all add: rep_set_black)

lemma rep_up:
  assumes "rep F st (fill K t)"
  shows "up K = NULL \<longleftrightarrow> K = Top" "K \<noteq> Top \<Longrightarrow> rb_is_red st (up K) = (\<not> red_ok K)"
proof -
  show "up K = NULL \<longleftrightarrow> K = Top"
    using assms rep_node(1) [of F st] by (cases K) fastforce+
  show "K \<noteq> Top \<Longrightarrow> rb_is_red st (up K) = (\<not> red_ok K)"
    using assms rep_node(2) [of F st] by (cases K) fastforce+
qed

lemma rep_distinct: "rep F st (fill K t) \<Longrightarrow> distinct (inorder t @ ctx_list K)"
  by (simp add: rep_def distinct_fill)

lemma insert_loop_done:
  assumes "rep F st (fill K (Node l x c r))" "K = Top \<or> red_ok K"
  shows "rb_insert_loop x st = Some st"
  using rep_up [OF assms(1)] rep_node(5) [OF assms(1)] assms(2)
  by (subst rb_insert_loop.simps) auto

lemma insert_recolour_left:
  assumes R: "rep F st (fill (InL (K) g d (u)) t)" and t: "t = Node a p Red b" and u: "is_red u"
  shows "rep F (rb_set_red g (rb_set_black p (rb_set_black (rootp u) st))) (fill K (Node (blacken t) g Red (blacken u)))"
proof -
  have "u \<noteq> Leaf" using u by auto
  then have 1: "rep F (rb_set_black (rootp u) st) (fill (InR (K) (t) g d) (blacken u))"
    using R by (intro rep_blacken) simp_all
  then have "rep F (rb_set_black p (rb_set_black (rootp u) st)) (fill (InL (K) g d (blacken u)) (blacken t))"
    using rep_blacken [of F _ "InL (K) g d (blacken u)" t] t by simp
  then show ?thesis unfolding fill.simps by (rule rep_set_red)
qed

lemma insert_recolour_right:
  assumes R: "rep F st (fill (InR (K) (u) g d) t)" and t: "t = Node a p Red b" and u: "is_red u"
  shows "rep F (rb_set_red g (rb_set_black p (rb_set_black (rootp u) st))) (fill K (Node (blacken u) g Red (blacken t)))"
proof -
  have "u \<noteq> Leaf" using u by auto
  then have 1: "rep F (rb_set_black (rootp u) st) (fill (InL (K) g d (t)) (blacken u))"
    using R by (intro rep_blacken) simp_all
  then have "rep F (rb_set_black p (rb_set_black (rootp u) st)) (fill (InR (K) (blacken u) g d) (blacken t))"
    using rep_blacken [of F _ "InR (K) (blacken u) g d" t] t by simp
  then show ?thesis unfolding fill.simps by (rule rep_set_red)
qed

lemma insert_loop_left_left:
  assumes R: "rep F st (fill (InL (InL (K) g d (u)) p Red (s)) (Node l x Red r))"
    and IH: "\<And>st. is_red u \<Longrightarrow> rep F st (fill K (Node (Node (Node l x Red r) p Black (s)) g Red (blacken u))) \<Longrightarrow>
          \<exists>st'. rb_insert_loop g st = Some st' \<and> rep F st' (fixup K (Node (Node (Node l x Red r) p Black (s)) g Red (blacken u)))"
  shows "\<exists>st'. rb_insert_loop x st = Some st' \<and> rep F st' (fixup (InL (InL (K) g d (u)) p Red (s)) (Node l x Red r))"
proof -
  have x: "node_ok x" "rb_parent st x = p" using rep_node [OF R] by simp_all
  have p: "node_ok p" "rb_is_red st p" "rb_parent st p = g" "left_of st p = x" "right_of st p = rootp s"
    using rep_node [of F st "InL (K) g d (u)" "Node l x Red r" p Red s] R by simp_all
  have g: "node_ok g" "left_of st g = p" "right_of st g = rootp u"
    using rep_node [of F st K "Node (Node l x Red r) p Red (s)" g d u] R by simp_all
  have u: "rootp u \<noteq> NULL \<and> rb_is_red st (rootp u) \<longleftrightarrow> is_red u"
    using rep_is_red [of F st "InR (K) (Node (Node l x Red r) p Red (s)) g d" u] R by simp
  have ne: "rootp s \<noteq> x" "rootp u \<noteq> p"
    using rep_distinct [OF R] p(1) x(1) rootp_in [of s] rootp_in [of u] by auto
  show ?thesis
  proof (cases "is_red u")
    case True
    let ?s = "rb_set_red g (rb_set_black p (rb_set_black (rootp u) st))"
    have "rb_insert_loop x st = rb_insert_loop g ?s"
      using x p g u ne True by (subst rb_insert_loop.simps) simp
    moreover have "rep F ?s (fill K (Node (Node (Node l x Red r) p Black (s)) g Red (blacken u)))"
      using insert_recolour_left [OF _ _ True, of F st K g d "Node (Node l x Red r) p Red (s)"] R by simp
    ultimately show ?thesis using IH [OF True] True by simp
  next
    case False
    let ?s = "rb_rotate_right g (rb_set_red g (rb_set_black p st))"
    have 1: "rep F (rb_set_black p st) (fill (InL (K) g d (u)) (Node (Node l x Red r) p Black (s)))"
      by (rule rep_set_black) (use R in simp)
    have "rep F (rb_set_red g (rb_set_black p st)) (fill K (Node (Node (Node l x Red r) p Black (s)) g Red (u)))"
      using 1 unfolding fill.simps by (rule rep_set_red)
    then have 2: "rep F ?s (fill K (Node (Node l x Red r) p Black (Node (s) g Red (u))))"
      by (rule rep_rotate_right)
    then have "rb_insert_loop x ?s = Some ?s"
      using insert_loop_done [of F ?s "InL (K) p Black (Node (s) g Red (u))"] by simp
    moreover have "rb_insert_loop x st = rb_insert_loop x ?s"
      using x p g u ne False by (subst rb_insert_loop.simps) (auto simp: Let_def)
    ultimately show ?thesis using 2 False by simp
  qed
qed

lemma insert_loop_left_right:
  assumes R: "rep F st (fill (InR (InL (K) g d (u)) (s) p Red) (Node l x Red r))"
    and IH: "\<And>st. is_red u \<Longrightarrow> rep F st (fill K (Node (Node (s) p Black (Node l x Red r)) g Red (blacken u))) \<Longrightarrow>
          \<exists>st'. rb_insert_loop g st = Some st' \<and> rep F st' (fixup K (Node (Node (s) p Black (Node l x Red r)) g Red (blacken u)))"
  shows "\<exists>st'. rb_insert_loop x st = Some st' \<and> rep F st' (fixup (InR (InL (K) g d (u)) (s) p Red) (Node l x Red r))"
proof -
  have x: "node_ok x" "rb_parent st x = p" using rep_node [OF R] by simp_all
  have p: "node_ok p" "rb_is_red st p" "rb_parent st p = g" "right_of st p = x" "left_of st p = rootp s"
    using rep_node [of F st "InL (K) g d (u)" s p Red "Node l x Red r"] R by simp_all
  have g: "node_ok g" "left_of st g = p" "right_of st g = rootp u"
    using rep_node [of F st K "Node (s) p Red (Node l x Red r)" g d u] R by simp_all
  have u: "rootp u \<noteq> NULL \<and> rb_is_red st (rootp u) \<longleftrightarrow> is_red u"
    using rep_is_red [of F st "InR (K) (Node (s) p Red (Node l x Red r)) g d" u] R by simp
  have ne: "rootp s \<noteq> x" "rootp u \<noteq> p"
    using rep_distinct [OF R] p(1) x(1) rootp_in [of s] rootp_in [of u] by auto
  show ?thesis
  proof (cases "is_red u")
    case True
    let ?s = "rb_set_red g (rb_set_black p (rb_set_black (rootp u) st))"
    have "rb_insert_loop x st = rb_insert_loop g ?s"
      using x p g u ne True by (subst rb_insert_loop.simps) simp
    moreover have "rep F ?s (fill K (Node (Node (s) p Black (Node l x Red r)) g Red (blacken u)))"
      using insert_recolour_left [OF _ _ True, of F st K g d "Node (s) p Red (Node l x Red r)"] R by simp
    ultimately show ?thesis using IH [OF True] True by simp
  next
    case False
    let ?s = "rb_rotate_right g (rb_set_red g (rb_set_black x (rb_rotate_left p st)))"
    have "rep F (rb_rotate_left p st) (fill (InL (K) g d (u)) (Node (Node s p Red l) x Red r))"
      by (rule rep_rotate_left) (use R in simp)
    then have "rep F (rb_set_black x (rb_rotate_left p st)) (fill (InL (K) g d (u)) (Node (Node s p Red l) x Black r))"
      by (rule rep_set_black)
    then have "rep F (rb_set_red g (rb_set_black x (rb_rotate_left p st))) (fill K (Node (Node (Node s p Red l) x Black r) g Red u))"
      unfolding fill.simps by (rule rep_set_red)
    then have 2: "rep F ?s (fill K (Node (Node s p Red l) x Black (Node r g Red u)))"
      by (rule rep_rotate_right)
    then have "rb_insert_loop p ?s = Some ?s"
      using insert_loop_done [of F ?s "InL K x Black (Node r g Red u)"] by simp
    moreover have "rb_insert_loop x st = rb_insert_loop p ?s"
      using x p g u ne False by (subst rb_insert_loop.simps) (auto simp: Let_def)
    ultimately show ?thesis using 2 False by simp
  qed
qed

lemma insert_loop_right_right:
  assumes R: "rep F st (fill (InR (InR (K) (u) g d) (s) p Red) (Node l x Red r))"
    and IH: "\<And>st. is_red u \<Longrightarrow> rep F st (fill K (Node (blacken u) g Red (Node (s) p Black (Node l x Red r)))) \<Longrightarrow>
          \<exists>st'. rb_insert_loop g st = Some st' \<and> rep F st' (fixup K (Node (blacken u) g Red (Node (s) p Black (Node l x Red r))))"
  shows "\<exists>st'. rb_insert_loop x st = Some st' \<and> rep F st' (fixup (InR (InR (K) (u) g d) (s) p Red) (Node l x Red r))"
proof -
  have x: "node_ok x" "rb_parent st x = p" using rep_node [OF R] by simp_all
  have p: "node_ok p" "rb_is_red st p" "rb_parent st p = g" "right_of st p = x" "left_of st p = rootp s"
    using rep_node [of F st "InR (K) (u) g d" s p Red "Node l x Red r"] R by simp_all
  have g: "node_ok g" "right_of st g = p" "left_of st g = rootp u"
    using rep_node [of F st K u g d "Node (s) p Red (Node l x Red r)"] R by simp_all
  have u: "rootp u \<noteq> NULL \<and> rb_is_red st (rootp u) \<longleftrightarrow> is_red u"
    using rep_is_red [of F st "InL (K) g d (Node (s) p Red (Node l x Red r))" u] R by simp
  have ne: "rootp s \<noteq> x" "rootp u \<noteq> p"
    using rep_distinct [OF R] p(1) x(1) rootp_in [of s] rootp_in [of u] by auto
  show ?thesis
  proof (cases "is_red u")
    case True
    let ?s = "rb_set_red g (rb_set_black p (rb_set_black (rootp u) st))"
    have "rb_insert_loop x st = rb_insert_loop g ?s"
      using x p g u ne True by (subst rb_insert_loop.simps) simp
    moreover have "rep F ?s (fill K (Node (blacken u) g Red (Node (s) p Black (Node l x Red r))))"
      using insert_recolour_right [OF _ _ True, of F st K g d "Node (s) p Red (Node l x Red r)"] R by simp
    ultimately show ?thesis using IH [OF True] True by simp
  next
    case False
    let ?s = "rb_rotate_left g (rb_set_red g (rb_set_black p st))"
    have 1: "rep F (rb_set_black p st) (fill (InR (K) (u) g d) (Node (s) p Black (Node l x Red r)))"
      by (rule rep_set_black) (use R in simp)
    have "rep F (rb_set_red g (rb_set_black p st)) (fill K (Node (u) g Red (Node (s) p Black (Node l x Red r))))"
      using 1 unfolding fill.simps by (rule rep_set_red)
    then have 2: "rep F ?s (fill K (Node (Node (u) g Red (s)) p Black (Node l x Red r)))"
      by (rule rep_rotate_left)
    then have "rb_insert_loop x ?s = Some ?s"
      using insert_loop_done [of F ?s "InR (K) (Node (u) g Red (s)) p Black"] by simp
    moreover have "rb_insert_loop x st = rb_insert_loop x ?s"
      using x p g u ne False by (subst rb_insert_loop.simps) (auto simp: Let_def)
    ultimately show ?thesis using 2 False by simp
  qed
qed

lemma insert_loop_right_left:
  assumes R: "rep F st (fill (InL (InR (K) (u) g d) p Red (s)) (Node l x Red r))"
    and IH: "\<And>st. is_red u \<Longrightarrow> rep F st (fill K (Node (blacken u) g Red (Node (Node l x Red r) p Black (s)))) \<Longrightarrow>
          \<exists>st'. rb_insert_loop g st = Some st' \<and> rep F st' (fixup K (Node (blacken u) g Red (Node (Node l x Red r) p Black (s))))"
  shows "\<exists>st'. rb_insert_loop x st = Some st' \<and> rep F st' (fixup (InL (InR (K) (u) g d) p Red (s)) (Node l x Red r))"
proof -
  have x: "node_ok x" "rb_parent st x = p" using rep_node [OF R] by simp_all
  have p: "node_ok p" "rb_is_red st p" "rb_parent st p = g" "left_of st p = x" "right_of st p = rootp s"
    using rep_node [of F st "InR (K) (u) g d" "Node l x Red r" p Red s] R by simp_all
  have g: "node_ok g" "right_of st g = p" "left_of st g = rootp u"
    using rep_node [of F st K u g d "Node (Node l x Red r) p Red (s)"] R by simp_all
  have u: "rootp u \<noteq> NULL \<and> rb_is_red st (rootp u) \<longleftrightarrow> is_red u"
    using rep_is_red [of F st "InL (K) g d (Node (Node l x Red r) p Red (s))" u] R by simp
  have ne: "rootp s \<noteq> x" "rootp u \<noteq> p"
    using rep_distinct [OF R] p(1) x(1) rootp_in [of s] rootp_in [of u] by auto
  show ?thesis
  proof (cases "is_red u")
    case True
    let ?s = "rb_set_red g (rb_set_black p (rb_set_black (rootp u) st))"
    have "rb_insert_loop x st = rb_insert_loop g ?s"
      using x p g u ne True by (subst rb_insert_loop.simps) simp
    moreover have "rep F ?s (fill K (Node (blacken u) g Red (Node (Node l x Red r) p Black (s))))"
      using insert_recolour_right [OF _ _ True, of F st K g d "Node (Node l x Red r) p Red (s)"] R by simp
    ultimately show ?thesis using IH [OF True] True by simp
  next
    case False
    let ?s = "rb_rotate_left g (rb_set_red g (rb_set_black x (rb_rotate_right p st)))"
    have "rep F (rb_rotate_right p st) (fill (InR (K) (u) g d) (Node l x Red (Node r p Red s)))"
      by (rule rep_rotate_right) (use R in simp)
    then have "rep F (rb_set_black x (rb_rotate_right p st)) (fill (InR (K) (u) g d) (Node l x Black (Node r p Red s)))"
      by (rule rep_set_black)
    then have "rep F (rb_set_red g (rb_set_black x (rb_rotate_right p st))) (fill K (Node u g Red (Node l x Black (Node r p Red s))))"
      unfolding fill.simps by (rule rep_set_red)
    then have 2: "rep F ?s (fill K (Node (Node u g Red l) x Black (Node r p Red s)))"
      by (rule rep_rotate_left)
    then have "rb_insert_loop p ?s = Some ?s"
      using insert_loop_done [of F ?s "InR K (Node u g Red l) x Black"] by simp
    moreover have "rb_insert_loop x st = rb_insert_loop p ?s"
      using x p g u ne False by (subst rb_insert_loop.simps) (auto simp: Let_def)
    ultimately show ?thesis using 2 False by simp
  qed
qed

lemma insert_loop_fill:
  assumes "rep F st (fill K t)" "is_red t" "K = Top \<or> red_ok K"
  shows "\<exists>st'. rb_insert_loop (rootp t) st = Some st' \<and> rep F st' (fill K t)"
  using assms insert_loop_done [of F st K] by (cases t) auto

lemma insert_loop_fixup:
  assumes "rep F st (fill K t)" "is_red t" "ctx_inv K n"
  shows "\<exists>st'. rb_insert_loop (rootp t) st = Some st' \<and> rep F st' (fixup K t)"
  using assms
proof (induction K t arbitrary: st n rule: fixup.induct)
  case (1 K g d u p s t)
  then obtain l x r where t: "t = Node l x Red r" by (cases t) auto
  have "\<exists>st'. rb_insert_loop g st = Some st' \<and> rep F st' (fixup K (Node (Node t p Black s) g Red (blacken u)))"
    if "is_red u" "rep F st (fill K (Node (Node t p Black s) g Red (blacken u)))" for st
    using "1.IH" [OF that] "1.prems"(3) by auto
  then show ?case using insert_loop_left_left "1.prems"(1) unfolding t by simp
next
  case (2 K g d u s p l x c r)
  then have c: "c = Red" by simp
  have "\<exists>st'. rb_insert_loop g st = Some st' \<and>
          rep F st' (fixup K (Node (Node s p Black (Node l x c r)) g Red (blacken u)))"
    if "is_red u" "rep F st (fill K (Node (Node s p Black (Node l x c r)) g Red (blacken u)))" for st
    using "2.IH" [OF that] "2.prems"(3) by auto
  then show ?case using insert_loop_left_right "2.prems"(1) unfolding c by simp
next
  case (3 K u g d s p t)
  then obtain l x r where t: "t = Node l x Red r" by (cases t) auto
  have "\<exists>st'. rb_insert_loop g st = Some st' \<and> rep F st' (fixup K (Node (blacken u) g Red (Node s p Black t)))"
    if "is_red u" "rep F st (fill K (Node (blacken u) g Red (Node s p Black t)))" for st
    using "3.IH" [OF that] "3.prems"(3) by auto
  then show ?case using insert_loop_right_right "3.prems"(1) unfolding t by simp
next
  case (4 K u g d p s l x c r)
  then have c: "c = Red" by simp
  have "\<exists>st'. rb_insert_loop g st = Some st' \<and>
          rep F st' (fixup K (Node (blacken u) g Red (Node (Node l x c r) p Black s)))"
    if "is_red u" "rep F st (fill K (Node (blacken u) g Red (Node (Node l x c r) p Black s)))" for st
    using "4.IH" [OF that] "4.prems"(3) by auto
  then show ?case using insert_loop_right_left "4.prems"(1) unfolding c by simp
qed (unfold fixup.simps, (rule insert_loop_fill, assumption; auto)+)

text \<open>What comes before and after the hole in the order.\<close>

fun before :: "ctx \<Rightarrow> ptr list" where
  "before Top = []"
| "before (InL K x c r) = before K"
| "before (InR K l x c) = before K @ inorder l @ [x]"

fun after :: "ctx \<Rightarrow> ptr list" where
  "after Top = []"
| "after (InL K x c r) = x # inorder r @ after K"
| "after (InR K l x c) = after K"

lemma inorder_fill: "inorder (fill K t) = before K @ inorder t @ after K"
  by (induction K arbitrary: t) simp_all

text \<open>The link of the hole, which \<open>rb_link_node\<close> is called with.\<close>

fun link_of :: "ctx \<Rightarrow> rb_link" where
  "link_of Top = Root_Link"
| "link_of (InL K x c r) = Left_Link x"
| "link_of (InR K l x c) = Right_Link x"

lemma rep_link_node:
  assumes R: "rep F st (fill K Leaf)" and x: "node_ok x" "x \<notin> set (inorder (fill K Leaf))"
  shows "rep F (rb_link_node x (up K) (link_of K) st) (fill K (Node Leaf x Red Leaf))"
proof -
  let ?n = "\<lparr>rb_parent_color = of_nat (up K), rb_right = NULL, rb_left = NULL\<rparr>"
  define u where "u = upd_node x (\<lambda>_. ?n) st"
  let ?s = "rb_link_node x (up K) (link_of K) st"
  have e: "?s = write_link (link_of K) x u" by (simp add: rb_link_node_def u_def)
  have k: "ctx_at st NULL (up K) K" and d: "distinct (ctx_list K)"
    and F: "\<And>z. z \<notin> set (ctx_list K) \<Longrightarrow> nodes st z = F z"
    using R unfolding rep_fill by simp_all
  have x': "x \<notin> set (ctx_list K)" using x(2) by (simp add: set_fill)
  have al: "ptr_al (up K)" using ctx_at_al [OF k] .
  have q: "up K \<noteq> x" using ctx_at_parent [OF k] x' x(1) by auto
  have g: "nodes u y = nodes st y" if "y \<noteq> x" for y using that by (simp add: u_def nodes_upd)
  have w: "nodes ?s y = nodes st y" if "y \<noteq> x" "y \<noteq> up K \<or> K = Top" for y
    using that unfolding e by (cases K) (simp_all add: g node_frame)
  have n: "nodes ?s x = ?n" using q unfolding e by (cases K) (simp_all add: u_def nodes_upd node_frame)
  have a: "agree st ?s y" if "y \<noteq> x" "y \<noteq> up K \<or> K = Top" for y
    using w [OF that] by (simp add: agree_def rb_parent_def rb_is_red_def rb_color_def)
  have "ctx_at ?s x (up K) K"
  proof (rule ctx_at_hole [OF k d])
    show "agree st ?s z" if "z \<in> set (ctx_list K)" "z \<noteq> up K" for z by (rule a) (use that x' in auto)
    show "rb_root ?s = (if up K = NULL then x else rb_root st)"
      using ctx_at_Top [OF k] unfolding e by (cases K) (auto simp: rb_access u_def)
    have "rb_parent u y = rb_parent st y \<and> rb_is_red u y = rb_is_red st y" if "y \<noteq> x" for y
      using g [OF that] by (simp add: rb_parent_def rb_is_red_def rb_color_def)
    then show "rb_parent ?s (up K) = rb_parent st (up K) \<and> rb_is_red ?s (up K) = rb_is_red st (up K)" if "up K \<noteq> NULL"
      using that q unfolding e by (cases K) (simp_all add: rb_access)
  qed (unfold e, (cases K; use q g in \<open>simp add: access_set_left access_set_right\<close>)+)
  moreover have "tree_at ?s x (up K) (Node Leaf x Red Leaf)"
    using x(1) n fresh_node [OF al] unat_of_nat_al [OF al] by (simp add: rb_parent_def rb_is_red_def rb_color_def)
  moreover have "nodes ?s z = F z" if "z \<notin> insert x (set (ctx_list K))" for z
    using w [of z] F [of z] that ctx_at_parent [OF k] ctx_at_Top [OF k] by auto
  ultimately show ?thesis using d x' unfolding rep_fill by simp
qed

section \<open>Insertion\<close>

lemma rep_blacken_root: "rep F st T \<Longrightarrow> T \<noteq> Leaf \<Longrightarrow> rep F (rb_set_black (rb_root st) st) (blacken T)"
  using rep_blacken [of F st Top T] tree_at_rootp [of st "rb_root st" NULL T] by (simp add: rep_def)

lemma insert_color_fixup:
  assumes R: "rep F st (fill K t)" and t: "is_red t" and k: "ctx_inv K n"
  shows "\<exists>st'. rb_insert_color (rootp t) st = Some st' \<and> rep F st' (blacken (fixup K t))"
proof -
  obtain st' where l: "rb_insert_loop (rootp t) st = Some st'" and R': "rep F st' (fixup K t)"
    using insert_loop_fixup [OF R t k] by blast
  have "inorder (fixup K t) \<noteq> []" using t by (cases t) (simp_all add: inorder_fixup inorder_fill)
  then have "fixup K t \<noteq> Leaf" by auto
  then show ?thesis using rep_blacken_root [OF R'] l by (simp add: rb_insert_color_def)
qed

text \<open>
  (C1) Inserting into a red-black tree.  Let the heap hold a red-black tree, let \<open>K\<close> be one of its empty places, and
  let the new node be aligned and outside the tree.  Then \<open>rb_link_node\<close> at this place followed by
  \<open>rb_insert_color\<close> returns, without following a null pointer, the heap holds a red-black tree again (no red node has a
  red child, all paths have as many black nodes, the root is black, the parent pointers and links agree), the order of the
  nodes is the old one with the new node at its place, and no node outside the tree is written.
\<close>

theorem rb_insert_color_correct:
  assumes "rep (nodes st) st (fill K Leaf)" "red_black_tree (fill K Leaf)"
    and "node_ok x" "x \<notin> set (inorder (fill K Leaf))"
  shows "\<exists>st' T. rb_insert_color x (rb_link_node x (up K) (link_of K) st) = Some st' \<and> rep (nodes st) st' T \<and>
           red_black_tree T \<and> inorder T = before K @ x # after K"
proof -
  let ?t = "Node Leaf x Red Leaf"
  have k: "ctx_inv K 0" using assms(2) by (simp add: red_black_fill)
  obtain st' where "rb_insert_color x (rb_link_node x (up K) (link_of K) st) = Some st'"
    "rep (nodes st) st' (blacken (fixup K ?t))"
    using insert_color_fixup [OF rep_link_node [OF assms(1,3,4)] _ k] by auto
  moreover have "red_black_tree (blacken (fixup K ?t))" by (rule red_black_fixup) (use k in simp_all)
  ultimately show ?thesis by (auto simp: inorder_fixup inorder_fill)
qed

definition three_nodes :: rb_tree where
  "three_nodes =
     \<lparr>nodes = (\<lambda>x. if x = 8 then \<lparr>rb_parent_color = 1, rb_right = 12, rb_left = 4\<rparr>
                   else \<lparr>rb_parent_color = 8, rb_right = 0, rb_left = 0\<rparr>), rb_root = 8\<rparr>"

lemma three_nodes_rep:
  "rep (nodes three_nodes) three_nodes (Node (Node Leaf 4 Red Leaf) 8 Black (Node Leaf 12 Red Leaf))"
  by (simp add: rep_def three_nodes_def node_ok_def ptr_al_def rb_parent_def rb_is_red_def rb_color_def)

theorem rb_insert_color_correct_witness:
  "\<exists>st' T. rb_insert_color 16 (rb_link_node 16 12 (Right_Link 12) three_nodes) = Some st' \<and>
     rep (nodes three_nodes) st' T \<and> red_black_tree T \<and> inorder T = [4, 8, 12, 16]"
  using rb_insert_color_correct [of three_nodes "InR (InR Top (Node Leaf 4 Red Leaf) 8 Black) Leaf 12 Red" 16]
    three_nodes_rep
  by (simp add: red_black_tree_def node_ok_def ptr_al_def)

end
