(* ===== verification/Rbtree_Erase.thy ===== *)
theory Rbtree_Erase
  imports Rbtree_Insert
begin

text \<open>
  \<open>rb_erase\<close>: the steps of \<open>__rb_erase_color\<close> on a focused tree, the loop, which restores the invariants, and taking
  the node out.
\<close>

section \<open>Reading around the focus\<close>

lemma rep_black_or_null: "rep F st (fill K t) \<Longrightarrow> black_or_null st (rootp t) \<longleftrightarrow> \<not> is_red t"
  using rep_is_red [of F st K t] by (auto simp: black_or_null_def red_black)

lemma rep_rootp: "rep F st (fill K t) \<Longrightarrow> rootp t = NULL \<longleftrightarrow> t = Leaf"
  by (cases t) (auto dest: rep_node(1))

lemma rootp_fill: "K \<noteq> Top \<Longrightarrow> rootp (fill K t) \<in> set (ctx_list K)"
proof (induction K arbitrary: t)
  case (InL K x c r)
  show ?case using InL.IH by (cases "K = Top") auto
next
  case (InR K l x c)
  show ?case using InR.IH by (cases "K = Top") auto
qed simp

lemma rep_not_root:
  assumes R: "rep F st (fill K t)" and K: "K \<noteq> Top"
  shows "rootp t \<noteq> rb_root st"
proof -
  have r: "rb_root st = rootp (fill K t)" using R unfolding rep_def by (auto dest: tree_at_rootp)
  then have "rb_root st \<in> set (ctx_list K)" using rootp_fill [OF K] by simp
  moreover have "node_ok (rb_root st)" using calculation R ctx_at_ok unfolding rep_fill by blast
  ultimately show ?thesis using rootp_in [of t] rep_distinct [OF R] by auto
qed

section \<open>The steps of the loop\<close>

lemma erase_red_left_rep:
  assumes R: "rep F st (fill K (Node (t) x c (Node (sn) y Red (sf))))"
  shows "\<exists>st'. erase_red_left x y st = (rootp sn, st') \<and> rep F st' (fill K (Node (Node (t) x Red (sn)) y Black (sf)))"
proof -
  have y: "rb_is_red st y" using rep_node(2) [of F st "InR (K) (t) x c"] R by simp
  have "rep F (rb_set_black y st) (fill (InR (K) (t) x c) (Node (sn) y Black (sf)))"
    by (rule rep_set_black) (use R in simp)
  then have "rep F (rb_set_red x (rb_set_black y st)) (fill K (Node (t) x Red (Node (sn) y Black (sf))))"
    unfolding fill.simps by (rule rep_set_red)
  then have 1: "rep F (rb_rotate_left x (rb_set_red x (rb_set_black y st))) (fill K (Node (Node (t) x Red (sn)) y Black (sf)))"
    by (rule rep_rotate_left)
  then have "right_of (rb_rotate_left x (rb_set_red x (rb_set_black y st))) x = rootp sn"
    using rep_node(4) [of F _ "InL (K) y Black (sf)"] by simp
  then show ?thesis using 1 y by (simp add: erase_red_left_def)
qed

lemma erase_black_left_again:
  assumes R: "rep F st (fill K (Node (t) x c (Node (sn) y d (sf))))" and s: "\<not> is_red sn" "\<not> is_red sf"
  shows "\<exists>st'. erase_black_left x y st = (True, st') \<and> rep F st' (fill K (Node (t) x c (Node (sn) y Red (sf))))"
proof -
  have y: "left_of st y = rootp sn" "right_of st y = rootp sf"
    using rep_node [of F st "InR (K) (t) x c" sn y d sf] R by simp_all
  have "black_or_null st (rootp sn)" "black_or_null st (rootp sf)"
    using rep_black_or_null [of F st "InL (InR (K) (t) x c) y d (sf)" sn]
      rep_black_or_null [of F st "InR (InR (K) (t) x c) (sn) y d" sf] R s by simp_all
  moreover have "rep F (rb_set_red y st) (fill (InR (K) (t) x c) (Node (sn) y Red (sf)))"
    by (rule rep_set_red) (use R in simp)
  ultimately show ?thesis using y by (simp add: erase_black_left_def)
qed

text \<open>The last rotation, with the far nephew red.\<close>

lemma erase_black_left_rotate:
  assumes R: "rep F st (fill K (Node (t) x c (Node (sn) y d (sf))))" and s: "sf \<noteq> Leaf"
  shows "rep F (rb_rotate_left x (rb_set_black (rootp sf) (rb_set_black x (rb_set_color y (rb_color st x) st))))
    (fill K (Node (Node (t) x Black (sn)) y c (blacken sf)))"
proof -
  have x: "rb_is_red st x = (c = Red)" using rep_node(2) [OF R] .
  let ?s1 = "rb_set_color y (rb_color st x) st"
  have "rep F ?s1 (fill (InR (K) (t) x c) (Node (sn) y c (sf)))"
    by (rule rep_set_color) (use R x in simp_all)
  then have "rep F (rb_set_black x ?s1) (fill K (Node (t) x Black (Node (sn) y c (sf))))"
    unfolding fill.simps by (rule rep_set_black)
  then have "rep F (rb_set_black (rootp sf) (rb_set_black x ?s1)) (fill (InR (InR (K) (t) x Black) (sn) y c) (blacken sf))"
    by (intro rep_blacken s) simp
  then show ?thesis unfolding fill.simps by (rule rep_rotate_left)
qed

lemma erase_black_left_far:
  assumes R: "rep F st (fill K (Node (t) x c (Node (sn) y d (sf))))" and s: "is_red sf"
  shows "\<exists>st'. erase_black_left x y st = (False, st') \<and> rep F st' (fill K (Node (Node (t) x Black (sn)) y c (blacken sf)))"
proof -
  have y: "left_of st y = rootp sn" "right_of st y = rootp sf"
    using rep_node [of F st "InR (K) (t) x c" sn y d sf] R by simp_all
  have b: "\<not> black_or_null st (rootp sf)"
    using rep_black_or_null [of F st "InR (InR (K) (t) x c) (sn) y d" sf] R s by simp
  have "sf \<noteq> Leaf" using s by auto
  from erase_black_left_rotate [OF R this] show ?thesis
    using y b by (simp add: erase_black_left_def Let_def rb_access)
qed

lemma erase_black_left_near:
  assumes R: "rep F st (fill K (Node (t) x c (Node (Node (a) z Red (b)) y d (sf))))" and s: "\<not> is_red sf"
  shows "\<exists>st'. erase_black_left x y st = (False, st') \<and> rep F st' (fill K (Node (Node (t) x Black (a)) z c (Node (b) y Black (sf))))"
proof -
  let ?C = "InR (K) (t) x c"
  have y: "left_of st y = z" "right_of st y = rootp sf"
    using rep_node [of F st "?C" "Node (a) z Red (b)" y d sf] R by simp_all
  have b: "black_or_null st (rootp sf)" "\<not> black_or_null st z"
    using rep_black_or_null [of F st "InR (?C) (Node (a) z Red (b)) y d" sf]
      rep_black_or_null [of F st "InL (?C) y d (sf)" "Node (a) z Red (b)"] R s by simp_all
  let ?s1 = "rb_rotate_right y (rb_set_red y (rb_set_black z st))"
  have "rep F (rb_set_black z st) (fill (InL (?C) y d (sf)) (Node (a) z Black (b)))"
    by (rule rep_set_black) (use R in simp)
  then have "rep F (rb_set_red y (rb_set_black z st)) (fill ?C (Node (Node (a) z Black (b)) y Red (sf)))"
    unfolding fill.simps(2,3) [of ?C] by (rule rep_set_red)
  then have "rep F ?s1 (fill ?C (Node (a) z Black (Node (b) y Red (sf))))" by (rule rep_rotate_right)
  then have 1: "rep F ?s1 (fill K (Node (t) x c (Node (a) z Black (Node (b) y Red (sf)))))" by simp
  have "right_of ?s1 x = z" "right_of ?s1 z = y"
    using rep_node [OF 1] rep_node(4) [of F ?s1 ?C] 1 by simp_all
  then show ?thesis using erase_black_left_rotate [OF 1] y b by (simp add: erase_black_left_def Let_def rb_access)
qed

lemma erase_loop_left:
  assumes R: "rep F st (fill (InL (K) x c (s)) t)" and t: "\<not> is_red t" and s: "s \<noteq> Leaf"
  shows "rb_erase_loop (rootp t) x st =
     (let (other, st) = erase_red_left x (rootp s) st in
      if other = NULL then None
      else
        let (again, st) = erase_black_left x other st
        in if again then rb_erase_loop x (rb_parent st x) st else Some (rb_root st, st))"
proof -
  have x: "node_ok x" "left_of st x = rootp t" "right_of st x = rootp s"
    using rep_node [of F st K t x c s] R by simp_all
  have "rootp s \<noteq> NULL" using rep_rootp [of F st "InR (K) (t) x c" s] R s by simp
  moreover have "rootp t \<noteq> rootp s" using calculation rep_distinct [OF R] rootp_in [of t] rootp_in [of s] by auto
  moreover have "black_or_null st (rootp t)" "rootp t \<noteq> rb_root st"
    using rep_black_or_null [OF R] t rep_not_root [OF R] by simp_all
  ultimately show ?thesis using x by (subst rb_erase_loop.simps) simp
qed

lemma erase_red_right_rep:
  assumes R: "rep F st (fill K (Node (Node (sf) y Red (sn)) x c (t)))"
  shows "\<exists>st'. erase_red_right x y st = (rootp sn, st') \<and> rep F st' (fill K (Node (sf) y Black (Node (sn) x Red (t))))"
proof -
  have y: "rb_is_red st y" using rep_node(2) [of F st "InL (K) x c (t)"] R by simp
  have "rep F (rb_set_black y st) (fill (InL (K) x c (t)) (Node (sf) y Black (sn)))"
    by (rule rep_set_black) (use R in simp)
  then have "rep F (rb_set_red x (rb_set_black y st)) (fill K (Node (Node (sf) y Black (sn)) x Red (t)))"
    unfolding fill.simps by (rule rep_set_red)
  then have 1: "rep F (rb_rotate_right x (rb_set_red x (rb_set_black y st))) (fill K (Node (sf) y Black (Node (sn) x Red (t))))"
    by (rule rep_rotate_right)
  then have "left_of (rb_rotate_right x (rb_set_red x (rb_set_black y st))) x = rootp sn"
    using rep_node(3) [of F _ "InR (K) (sf) y Black"] by simp
  then show ?thesis using 1 y by (simp add: erase_red_right_def)
qed

lemma erase_black_right_again:
  assumes R: "rep F st (fill K (Node (Node (sf) y d (sn)) x c (t)))" and s: "\<not> is_red sn" "\<not> is_red sf"
  shows "\<exists>st'. erase_black_right x y st = (True, st') \<and> rep F st' (fill K (Node (Node (sf) y Red (sn)) x c (t)))"
proof -
  have y: "right_of st y = rootp sn" "left_of st y = rootp sf"
    using rep_node [of F st "InL (K) x c (t)" sf y d sn] R by simp_all
  have "black_or_null st (rootp sn)" "black_or_null st (rootp sf)"
    using rep_black_or_null [of F st "InR (InL (K) x c (t)) (sf) y d" sn]
      rep_black_or_null [of F st "InL (InL (K) x c (t)) y d (sn)" sf] R s by simp_all
  moreover have "rep F (rb_set_red y st) (fill (InL (K) x c (t)) (Node (sf) y Red (sn)))"
    by (rule rep_set_red) (use R in simp)
  ultimately show ?thesis using y by (simp add: erase_black_right_def)
qed

text \<open>The last rotation, with the far nephew red.\<close>

lemma erase_black_right_rotate:
  assumes R: "rep F st (fill K (Node (Node (sf) y d (sn)) x c (t)))" and s: "sf \<noteq> Leaf"
  shows "rep F (rb_rotate_right x (rb_set_black (rootp sf) (rb_set_black x (rb_set_color y (rb_color st x) st))))
    (fill K (Node (blacken sf) y c (Node (sn) x Black (t))))"
proof -
  have x: "rb_is_red st x = (c = Red)" using rep_node(2) [OF R] .
  let ?s1 = "rb_set_color y (rb_color st x) st"
  have "rep F ?s1 (fill (InL (K) x c (t)) (Node (sf) y c (sn)))"
    by (rule rep_set_color) (use R x in simp_all)
  then have "rep F (rb_set_black x ?s1) (fill K (Node (Node (sf) y c (sn)) x Black (t)))"
    unfolding fill.simps by (rule rep_set_black)
  then have "rep F (rb_set_black (rootp sf) (rb_set_black x ?s1)) (fill (InL (InL (K) x Black (t)) y c (sn)) (blacken sf))"
    by (intro rep_blacken s) simp
  then show ?thesis unfolding fill.simps by (rule rep_rotate_right)
qed

lemma erase_black_right_far:
  assumes R: "rep F st (fill K (Node (Node (sf) y d (sn)) x c (t)))" and s: "is_red sf"
  shows "\<exists>st'. erase_black_right x y st = (False, st') \<and> rep F st' (fill K (Node (blacken sf) y c (Node (sn) x Black (t))))"
proof -
  have y: "right_of st y = rootp sn" "left_of st y = rootp sf"
    using rep_node [of F st "InL (K) x c (t)" sf y d sn] R by simp_all
  have b: "\<not> black_or_null st (rootp sf)"
    using rep_black_or_null [of F st "InL (InL (K) x c (t)) y d (sn)" sf] R s by simp
  have "sf \<noteq> Leaf" using s by auto
  from erase_black_right_rotate [OF R this] show ?thesis
    using y b by (simp add: erase_black_right_def Let_def rb_access)
qed

lemma erase_black_right_near:
  assumes R: "rep F st (fill K (Node (Node (sf) y d (Node (b) z Red (a))) x c (t)))" and s: "\<not> is_red sf"
  shows "\<exists>st'. erase_black_right x y st = (False, st') \<and> rep F st' (fill K (Node (Node (sf) y Black (b)) z c (Node (a) x Black (t))))"
proof -
  let ?C = "InL (K) x c (t)"
  have y: "right_of st y = z" "left_of st y = rootp sf"
    using rep_node [of F st "?C" sf y d "Node (b) z Red (a)"] R by simp_all
  have b: "black_or_null st (rootp sf)" "\<not> black_or_null st z"
    using rep_black_or_null [of F st "InL (?C) y d (Node (b) z Red (a))" sf]
      rep_black_or_null [of F st "InR (?C) (sf) y d" "Node (b) z Red (a)"] R s by simp_all
  let ?s1 = "rb_rotate_left y (rb_set_red y (rb_set_black z st))"
  have "rep F (rb_set_black z st) (fill (InR (?C) (sf) y d) (Node (b) z Black (a)))"
    by (rule rep_set_black) (use R in simp)
  then have "rep F (rb_set_red y (rb_set_black z st)) (fill ?C (Node (sf) y Red (Node (b) z Black (a))))"
    unfolding fill.simps(2,3) [of ?C] by (rule rep_set_red)
  then have "rep F ?s1 (fill ?C (Node (Node (sf) y Red (b)) z Black (a)))" by (rule rep_rotate_left)
  then have 1: "rep F ?s1 (fill K (Node (Node (Node (sf) y Red (b)) z Black (a)) x c (t)))" by simp
  have "left_of ?s1 x = z" "left_of ?s1 z = y"
    using rep_node [OF 1] rep_node(3) [of F ?s1 ?C] 1 by simp_all
  then show ?thesis using erase_black_right_rotate [OF 1] y b by (simp add: erase_black_right_def Let_def rb_access)
qed

lemma erase_loop_right:
  assumes R: "rep F st (fill (InR (K) (s) x c) t)" and t: "\<not> is_red t" and s: "s \<noteq> Leaf"
  shows "rb_erase_loop (rootp t) x st =
     (let (other, st) = erase_red_right x (rootp s) st in
      if other = NULL then None
      else
        let (again, st) = erase_black_right x other st
        in if again then rb_erase_loop x (rb_parent st x) st else Some (rb_root st, st))"
proof -
  have x: "node_ok x" "right_of st x = rootp t" "left_of st x = rootp s"
    using rep_node [of F st K s x c t] R by simp_all
  have "rootp s \<noteq> NULL" using rep_rootp [of F st "InL (K) x c (t)" s] R s by simp
  moreover have "rootp t \<noteq> rootp s" using calculation rep_distinct [OF R] rootp_in [of t] rootp_in [of s] by auto
  moreover have "black_or_null st (rootp t)" "rootp t \<noteq> rb_root st"
    using rep_black_or_null [OF R] t rep_not_root [OF R] by simp_all
  ultimately show ?thesis using x by (subst rb_erase_loop.simps) simp
qed

section \<open>The loop\<close>

text \<open>What the step with a black sibling leaves at the place of the parent \<open>x\<close> of colour \<open>c\<close>, \<open>n\<close> being the
  black height of the deficient tree.\<close>

definition erased :: "bool \<Rightarrow> ptr \<Rightarrow> rb_colour \<Rightarrow> nat \<Rightarrow> rbt \<Rightarrow> bool" where
  "erased again x c n u \<longleftrightarrow> invh u \<and> u \<noteq> Leaf \<and> is_red u = (c = Red) \<and>
     (if again then rootp u = x \<and> invc (blacken u) \<and> bheight u = (if c = Black then Suc n else n)
      else invc u \<and> bheight u = (if c = Black then Suc (Suc n) else Suc n))"

lemma erase_color_done:
  assumes R: "rep F st (fill K t)" and k: "ctx_inv K (Suc (bheight t))" and t: "invc (blacken t)" "invh t"
    and d: "K = Top \<or> is_red t"
  shows "\<exists>st' T. rb_erase_color (rootp t) (up K) st = Some st' \<and> rep F st' T \<and> red_black_tree T \<and>
    inorder T = inorder (fill K t)"
proof -
  have l: "rb_erase_loop (rootp t) (up K) st = Some (rootp t, st)"
  proof (cases "is_red t")
    case True
    then show ?thesis using rep_black_or_null [OF R] by (subst rb_erase_loop.simps) simp
  next
    case False
    then have "K = Top" using d by simp
    then have "rootp t = rb_root st" using R unfolding rep_def by (auto dest: tree_at_rootp)
    then show ?thesis by (subst rb_erase_loop.simps) simp
  qed
  have "red_black_tree (fill K (blacken t))"
    using k t d by (auto simp: red_black_fill bheight_blacken)
  moreover have "inorder (fill K (blacken t)) = inorder (fill K t)" by (simp add: inorder_fill)
  moreover have "\<exists>st'. rb_erase_color (rootp t) (up K) st = Some st' \<and> rep F st' (fill K (blacken t))"
    using rep_blacken [OF R] rep_rootp [OF R] R l by (cases "t = Leaf") (auto simp: rb_erase_color_def)
  ultimately show ?thesis by blast
qed

lemma erased_cases:
  assumes u: "erased again x c n u" and R: "rep F st (fill K u)"
    and l: "rb_erase_loop node p st0 = (if again then rb_erase_loop x (rb_parent st x) st else Some (rb_root st, st))"
    and k: "ctx_inv K (if c = Black then Suc (Suc n) else Suc n)" "c = Red \<longrightarrow> red_ok K"
    and io: "inorder (fill K u) = xs"
    and IH: "\<And>st u. rep F st (fill K u) \<Longrightarrow> ctx_inv K (Suc (bheight u)) \<Longrightarrow> invc (blacken u) \<Longrightarrow> invh u \<Longrightarrow>
      c = Red \<longrightarrow> is_red u \<Longrightarrow>
      \<exists>st' T. rb_erase_color (rootp u) (up K) st = Some st' \<and> rep F st' T \<and> red_black_tree T \<and> inorder T = inorder (fill K u)"
  shows "\<exists>st' T. rb_erase_color node p st0 = Some st' \<and> rep F st' T \<and> red_black_tree T \<and> inorder T = xs"
proof (cases again)
  case True
  then have x: "rootp u = x" using u by (simp add: erased_def)
  then have "rb_parent st x = up K" using u R by (cases u) (auto simp: erased_def dest: rep_node(5))
  then have "rb_erase_color node p st0 = rb_erase_color (rootp u) (up K) st"
    using l True x by (simp add: rb_erase_color_def)
  then show ?thesis using IH [OF R] u k(1) True io by (auto simp: erased_def split: if_splits)
next
  case False
  have "red_black_tree (fill K u)" using u k False by (simp add: erased_def red_black_fill split: if_splits)
  moreover have ne: "fill K u \<noteq> Leaf" using u inorder_fill [of K u] by (cases u) (auto simp: erased_def)
  moreover have "rep F (rb_set_black (rb_root st) st) (blacken (fill K u))" by (rule rep_blacken_root [OF R ne])
  moreover have "rb_root st \<noteq> NULL" using rep_rootp [of F st Top "fill K u"] R ne unfolding rep_def by (auto dest: tree_at_rootp)
  ultimately show ?thesis using l False io red_black_blacken
    by (auto simp: rb_erase_color_def blacken_props intro!: exI [of _ "blacken (fill K u)"])
qed

lemma erase_black_left_inv:
  assumes R: "rep F st (fill K (Node (t) x c (Node (sn) y Black (sf))))" and t: "\<not> is_red t" "invc t" "invh t"
    and s: "invc (Node (sn) y Black (sf))" "invh (Node (sn) y Black (sf))" "bheight (Node (sn) y Black (sf)) = Suc (bheight t)"
  shows "\<exists>again st' u. erase_black_left x y st = (again, st') \<and> rep F st' (fill K u) \<and> erased again x c (bheight t) u \<and>
    inorder u = inorder t @ x # inorder sn @ y # inorder sf"
proof (cases "is_red sf")
  case True
  then show ?thesis using erase_black_left_far [OF R True] t s
    by (fastforce simp: erased_def bheight_blacken)
next
  case sf: False
  show ?thesis
  proof (cases "is_red sn")
    case True
    then obtain a z b where sn: "sn = Node (a) z Red (b)" by (cases sn) auto
    show ?thesis using erase_black_left_near [OF R [unfolded sn] sf] t s sf unfolding sn
      by (fastforce simp: erased_def)
  next
    case False
    show ?thesis using erase_black_left_again [OF R False sf] t s sf False
      by (fastforce simp: erased_def)
  qed
qed

lemma erase_color_left:
  assumes R: "rep F st (fill (InL (K) x c (s)) t)" and k: "ctx_inv (InL (K) x c (s)) (Suc (bheight t))" and t: "\<not> is_red t" "invc t" "invh t"
    and IH: "\<And>st u. rep F st (fill K u) \<Longrightarrow> ctx_inv K (Suc (bheight u)) \<Longrightarrow> invc (blacken u) \<Longrightarrow> invh u \<Longrightarrow>
      \<exists>st' T. rb_erase_color (rootp u) (up K) st = Some st' \<and> rep F st' T \<and> red_black_tree T \<and> inorder T = inorder (fill K u)"
  shows "\<exists>st' T. rb_erase_color (rootp t) x st = Some st' \<and> rep F st' T \<and> red_black_tree T \<and>
    inorder T = inorder (fill (InL (K) x c (s)) t)"
proof -
  obtain sn y d sf where s: "s = Node (sn) y d (sf)" using k by (cases s) auto
  have s0: "s \<noteq> Leaf" using s by simp
  show ?thesis
  proof (cases d)
    case Black
    have R': "rep F st (fill K (Node (t) x c (Node (sn) y Black (sf))))" using R s Black by simp
    have y: "\<not> rb_is_red st y" "y \<noteq> NULL"
      using rep_node(1,2) [of F st "InR (K) (t) x c"] R' by fastforce+
    obtain again st' u where e: "erase_black_left x y st = (again, st')" and R2: "rep F st' (fill K u)"
      and u: "erased again x c (bheight t) u" and io: "inorder u = inorder t @ x # inorder sn @ y # inorder sf"
      using erase_black_left_inv [OF R' t] k s Black by auto
    have lp: "rb_erase_loop (rootp t) x st = (if again then rb_erase_loop x (rb_parent st' x) st' else Some (rb_root st', st'))"
      using erase_loop_left [OF R t(1) s0] e y s by (simp add: erase_red_left_def)
    show ?thesis
    proof (rule erased_cases [OF u R2 lp])
      show "ctx_inv K (if c = Black then Suc (Suc (bheight t)) else Suc (bheight t))" "c = Red \<longrightarrow> red_ok K"
        using k by auto
      show "inorder (fill K u) = inorder (fill (InL (K) x c (s)) t)" using io s by (simp add: inorder_fill)
    qed (rule IH)
  next
    case Red
    have c: "c = Black" using k s Red by (cases c) auto
    have R1: "rep F st (fill K (Node (t) x c (Node (sn) y Red (sf))))" using R s Red by simp
    obtain st1 where e1: "erase_red_left x y st = (rootp sn, st1)"
      and R2: "rep F st1 (fill K (Node (Node (t) x Red (sn)) y Black (sf)))"
      using erase_red_left_rep [OF R1] by blast
    obtain a z e b where sn: "sn = Node (a) z e (b)" using k s Red by (cases sn) auto
    have e: "e = Black" using k s Red sn by (cases e) auto
    let ?K = "InL (K) y Black (sf)"
    have R3: "rep F st1 (fill ?K (Node (t) x Red (Node (a) z Black (b))))" using R2 sn e by simp
    obtain again st' u where e2: "erase_black_left x z st1 = (again, st')" and R4: "rep F st' (fill ?K u)"
      and u: "erased again x Red (bheight t) u" and io: "inorder u = inorder t @ x # inorder a @ z # inorder b"
      using erase_black_left_inv [OF R3 t] k s sn e Red by auto
    have z: "z \<noteq> NULL" using rep_node(1) [of F st1 "InR (?K) (t) x Red"] R3 by fastforce
    have lp: "rb_erase_loop (rootp t) x st = (if again then rb_erase_loop x (rb_parent st' x) st' else Some (rb_root st', st'))"
      using erase_loop_left [OF R t(1) s0] e1 e2 s sn z by simp
    show ?thesis
    proof (rule erased_cases [OF u R4 lp])
      show "ctx_inv ?K (if Red = Black then Suc (Suc (bheight t)) else Suc (bheight t))" "Red = Red \<longrightarrow> red_ok ?K"
        using k s c Red by simp_all
      show "inorder (fill ?K u) = inorder (fill (InL (K) x c (s)) t)" using io s sn by (simp add: inorder_fill)
      show "\<exists>st' T. rb_erase_color (rootp v) (up ?K) st = Some st' \<and> rep F st' T \<and> red_black_tree T \<and> inorder T = inorder (fill ?K v)"
        if "rep F st (fill ?K v)" "ctx_inv ?K (Suc (bheight v))" "invc (blacken v)" "invh v" "Red = Red \<longrightarrow> is_red v" for st v
        by (rule erase_color_done) (use that in auto)
    qed
  qed
qed

lemma erase_black_right_inv:
  assumes R: "rep F st (fill K (Node (Node (sf) y Black (sn)) x c (t)))" and t: "\<not> is_red t" "invc t" "invh t"
    and s: "invc (Node (sf) y Black (sn))" "invh (Node (sf) y Black (sn))" "bheight (Node (sf) y Black (sn)) = Suc (bheight t)"
  shows "\<exists>again st' u. erase_black_right x y st = (again, st') \<and> rep F st' (fill K u) \<and> erased again x c (bheight t) u \<and>
    inorder u = inorder sf @ y # inorder sn @ x # inorder t"
proof (cases "is_red sf")
  case True
  then show ?thesis using erase_black_right_far [OF R True] t s
    by (fastforce simp: erased_def bheight_blacken)
next
  case sf: False
  show ?thesis
  proof (cases "is_red sn")
    case True
    then obtain a z b where sn: "sn = Node (b) z Red (a)" by (cases sn) auto
    show ?thesis using erase_black_right_near [OF R [unfolded sn] sf] t s sf unfolding sn
      by (fastforce simp: erased_def)
  next
    case False
    show ?thesis using erase_black_right_again [OF R False sf] t s sf False
      by (fastforce simp: erased_def)
  qed
qed

lemma erase_color_right:
  assumes R: "rep F st (fill (InR (K) (s) x c) t)" and k: "ctx_inv (InR (K) (s) x c) (Suc (bheight t))" and t: "\<not> is_red t" "invc t" "invh t"
    and IH: "\<And>st u. rep F st (fill K u) \<Longrightarrow> ctx_inv K (Suc (bheight u)) \<Longrightarrow> invc (blacken u) \<Longrightarrow> invh u \<Longrightarrow>
      \<exists>st' T. rb_erase_color (rootp u) (up K) st = Some st' \<and> rep F st' T \<and> red_black_tree T \<and> inorder T = inorder (fill K u)"
  shows "\<exists>st' T. rb_erase_color (rootp t) x st = Some st' \<and> rep F st' T \<and> red_black_tree T \<and>
    inorder T = inorder (fill (InR (K) (s) x c) t)"
proof -
  obtain sf y d sn where s: "s = Node (sf) y d (sn)" using k by (cases s) auto
  have s0: "s \<noteq> Leaf" using s by simp
  show ?thesis
  proof (cases d)
    case Black
    have R': "rep F st (fill K (Node (Node (sf) y Black (sn)) x c (t)))" using R s Black by simp
    have y: "\<not> rb_is_red st y" "y \<noteq> NULL"
      using rep_node(1,2) [of F st "InL (K) x c (t)"] R' by fastforce+
    obtain again st' u where e: "erase_black_right x y st = (again, st')" and R2: "rep F st' (fill K u)"
      and u: "erased again x c (bheight t) u" and io: "inorder u = inorder sf @ y # inorder sn @ x # inorder t"
      using erase_black_right_inv [OF R' t] k s Black by auto
    have lp: "rb_erase_loop (rootp t) x st = (if again then rb_erase_loop x (rb_parent st' x) st' else Some (rb_root st', st'))"
      using erase_loop_right [OF R t(1) s0] e y s by (simp add: erase_red_right_def)
    show ?thesis
    proof (rule erased_cases [OF u R2 lp])
      show "ctx_inv K (if c = Black then Suc (Suc (bheight t)) else Suc (bheight t))" "c = Red \<longrightarrow> red_ok K"
        using k by auto
      show "inorder (fill K u) = inorder (fill (InR (K) (s) x c) t)" using io s by (simp add: inorder_fill)
    qed (rule IH)
  next
    case Red
    have c: "c = Black" using k s Red by (cases c) auto
    have R1: "rep F st (fill K (Node (Node (sf) y Red (sn)) x c (t)))" using R s Red by simp
    obtain st1 where e1: "erase_red_right x y st = (rootp sn, st1)"
      and R2: "rep F st1 (fill K (Node (sf) y Black (Node (sn) x Red (t))))"
      using erase_red_right_rep [OF R1] by blast
    obtain b z e a where sn: "sn = Node (b) z e (a)" using k s Red by (cases sn) auto
    have e: "e = Black" using k s Red sn by (cases e) auto
    let ?K = "InR (K) (sf) y Black"
    have R3: "rep F st1 (fill ?K (Node (Node (b) z Black (a)) x Red (t)))" using R2 sn e by simp
    obtain again st' u where e2: "erase_black_right x z st1 = (again, st')" and R4: "rep F st' (fill ?K u)"
      and u: "erased again x Red (bheight t) u" and io: "inorder u = inorder b @ z # inorder a @ x # inorder t"
      using erase_black_right_inv [OF R3 t] k s sn e Red by auto
    have z: "z \<noteq> NULL" using rep_node(1) [of F st1 "InL (?K) x Red (t)"] R3 by fastforce
    have lp: "rb_erase_loop (rootp t) x st = (if again then rb_erase_loop x (rb_parent st' x) st' else Some (rb_root st', st'))"
      using erase_loop_right [OF R t(1) s0] e1 e2 s sn z by simp
    show ?thesis
    proof (rule erased_cases [OF u R4 lp])
      show "ctx_inv ?K (if Red = Black then Suc (Suc (bheight t)) else Suc (bheight t))" "Red = Red \<longrightarrow> red_ok ?K"
        using k s c Red by simp_all
      show "inorder (fill ?K u) = inorder (fill (InR (K) (s) x c) t)" using io s sn by (simp add: inorder_fill)
      show "\<exists>st' T. rb_erase_color (rootp v) (up ?K) st = Some st' \<and> rep F st' T \<and> red_black_tree T \<and> inorder T = inorder (fill ?K v)"
        if "rep F st (fill ?K v)" "ctx_inv ?K (Suc (bheight v))" "invc (blacken v)" "invh v" "Red = Red \<longrightarrow> is_red v" for st v
        by (rule erase_color_done) (use that in auto)
    qed
  qed
qed

lemma erase_color_correct:
  assumes "rep F st (fill K t)" "ctx_inv K (Suc (bheight t))" "invc (blacken t)" "invh t"
  shows "\<exists>st' T. rb_erase_color (rootp t) (up K) st = Some st' \<and> rep F st' T \<and> red_black_tree T \<and>
    inorder T = inorder (fill K t)"
  using assms
proof (induction K arbitrary: t st)
  case Top
  then show ?case by (intro erase_color_done) simp_all
next
  case (InL K x c s)
  show ?case
  proof (cases "is_red t")
    case True
    then show ?thesis using InL.prems by (intro erase_color_done) simp_all
  next
    case False
    then show ?thesis using erase_color_left [OF InL.prems(1,2) False _ _ InL.IH] InL.prems(3,4) by (simp add: blacken_id)
  qed
next
  case (InR K s x c)
  show ?case
  proof (cases "is_red t")
    case True
    then show ?thesis using InR.prems by (intro erase_color_done) simp_all
  next
    case False
    then show ?thesis using erase_color_right [OF InR.prems(1,2) False _ _ InR.IH] InR.prems(3,4) by (simp add: blacken_id)
  qed
qed

section \<open>Taking a node out\<close>

lemma access_copy [rb_access]:
  "rb_parent (upd_node x (\<lambda>n. n\<lparr>rb_parent_color := rb_parent_color (nodes s y)\<rparr>) st) v = (if v = x then rb_parent s y else rb_parent st v)"
  "rb_is_red (upd_node x (\<lambda>n. n\<lparr>rb_parent_color := rb_parent_color (nodes s y)\<rparr>) st) v = (if v = x then rb_is_red s y else rb_is_red st v)"
  "left_of (upd_node x (\<lambda>n. n\<lparr>rb_parent_color := c\<rparr>) st) v = left_of st v"
  "right_of (upd_node x (\<lambda>n. n\<lparr>rb_parent_color := c\<rparr>) st) v = right_of st v"
  "rb_parent (upd_node x (\<lambda>_. nodes s y) st) v = (if v = x then rb_parent s y else rb_parent st v)"
  "rb_is_red (upd_node x (\<lambda>_. nodes s y) st) v = (if v = x then rb_is_red s y else rb_is_red st v)"
  by (simp_all add: rb_parent_def rb_is_red_def rb_color_def nodes_upd)

text \<open>The child link of the parent of \<open>x\<close>, or the root, is redirected.\<close>

definition redirect :: "ptr \<Rightarrow> ptr \<Rightarrow> ptr \<Rightarrow> rb_tree \<Rightarrow> rb_tree" where
  "redirect q x n st =
     (if q \<noteq> NULL then if left_of st q = x then set_left q n st else set_right q n st else st\<lparr>rb_root := n\<rparr>)"

lemma access_redirect [rb_access]:
  "rb_parent (redirect q x n st) v = rb_parent st v" "rb_is_red (redirect q x n st) v = rb_is_red st v"
  "left_of (redirect q x n st) v = (if v = q \<and> q \<noteq> NULL \<and> left_of st q = x then n else left_of st v)"
  "right_of (redirect q x n st) v = (if v = q \<and> q \<noteq> NULL \<and> left_of st q \<noteq> x then n else right_of st v)"
  "rb_root (redirect q x n st) = (if q = NULL then n else rb_root st)"
  by (simp_all add: redirect_def rb_access)

lemma redirect_frame: "v = NULL \<or> v \<noteq> q \<Longrightarrow> nodes (redirect q x n st) v = nodes st v"
  by (auto simp: redirect_def node_frame)

definition reparent :: "ptr \<Rightarrow> ptr \<Rightarrow> rb_tree \<Rightarrow> rb_tree" where
  "reparent t q st = (if t \<noteq> NULL then rb_set_parent t q st else st)"

lemma access_reparent [rb_access]:
  "ptr_al q \<Longrightarrow> rb_parent (reparent t q st) v = (if v = t \<and> t \<noteq> NULL then q else rb_parent st v)"
  "ptr_al q \<Longrightarrow> rb_is_red (reparent t q st) v = rb_is_red st v"
  "left_of (reparent t q st) v = left_of st v" "right_of (reparent t q st) v = right_of st v"
  "rb_root (reparent t q st) = rb_root st"
  by (simp_all add: reparent_def rb_access)

lemma reparent_frame: "v = NULL \<or> v \<noteq> t \<Longrightarrow> nodes (reparent t q st) v = nodes st v"
  by (auto simp: reparent_def node_frame)

lemma unlink_eq:
  "rb_unlink x t st = (t, rb_parent st x, rb_color st x, redirect (rb_parent st x) x t (reparent t (rb_parent st x) st))"
  by (simp add: rb_unlink_def redirect_def reparent_def Let_def)

lemma replace_eq:
  "rb_replace_node x n st =
     (let s = redirect (rb_parent st x) x n st in
      upd_node n (\<lambda>_. nodes (reparent (right_of s x) n (reparent (left_of s x) n s)) x)
        (reparent (right_of s x) n (reparent (left_of s x) n s)))"
  unfolding rb_replace_node_def Let_def redirect_def [symmetric] eq_commute [of x "left_of _ _"] reparent_def [symmetric]
  by (simp add: access_reparent)

lemma splice_child:
  assumes "rb_parent st m = x" "q = rb_parent st x" "q \<noteq> x" "q \<noteq> m" "m \<noteq> x"
  shows "rb_splice x m st =
    (right_of st m, m, rb_color st m,
     rb_set_parent (left_of st x) m
       (set_left m (left_of st x)
         (upd_node m (\<lambda>n. n\<lparr>rb_parent_color := rb_parent_color (nodes st x)\<rparr>) (redirect q x m st))))"
proof -
  let ?s = "redirect q x m st"
  have f: "nodes ?s x = nodes st x" "nodes ?s m = nodes st m" using assms(3,4) by (simp_all add: redirect_frame)
  have "rb_parent ?s m = x" using assms(1) by (simp add: rb_access)
  then show ?thesis
    unfolding rb_splice_def redirect_def [symmetric] Let_def assms(2) [symmetric]
    using assms(5) f by (simp add: rb_color_def nodes_upd node_frame)
qed

lemma splice_deep:
  assumes "p = rb_parent st m" "q = rb_parent st x" "p \<noteq> x" "q \<noteq> x" "q \<noteq> m" "m \<noteq> x" "p \<noteq> m"
    "r = right_of st m" "r \<noteq> x" "b = right_of st x" "b \<noteq> x" "left_of st x \<noteq> x"
  shows "rb_splice x m st =
    (r, p, rb_color st m,
     rb_set_parent (left_of st x) m
       (set_left m (left_of st x)
         (upd_node m (\<lambda>n. n\<lparr>rb_parent_color := rb_parent_color (nodes st x)\<rparr>)
           (rb_set_parent b m (set_right m b (set_left p r (reparent r p (redirect q x m st))))))))"
proof -
  let ?s = "redirect q x m st"
  have f: "nodes ?s x = nodes st x" "nodes ?s m = nodes st m" using assms(4,5) by (simp_all add: redirect_frame)
  have p: "rb_parent ?s m = p" using assms(1) by (simp add: rb_access)
  have g: "nodes (reparent r p ?s) x = nodes st x" using f assms(9) by (simp add: reparent_frame)
  show ?thesis
    unfolding rb_splice_def redirect_def [symmetric] Let_def assms(2) [symmetric] p f assms(8) [symmetric] reparent_def [symmetric]
    using assms(3,6,9-11) f g by (simp add: rb_color_def nodes_upd node_frame)
qed

lemma rep_cong:
  assumes "rep F st T" "\<And>z. z \<in> set (inorder T) \<Longrightarrow> agree st st' z" "rb_root st' = rb_root st"
    "\<And>z. z \<notin> set (inorder T) \<Longrightarrow> nodes st' z = F' z"
  shows "rep F' st' T"
  using assms tree_at_agree [of st "rb_root st" NULL T st'] by (simp add: rep_def)

lemma rep_unlink:
  assumes R: "rep F st (fill K (Node a x c b))" and t: "a = Leaf \<and> t = b \<or> b = Leaf \<and> t = a"
  shows "rep (F(x := nodes st x)) (redirect (up K) x (rootp t) (reparent (rootp t) (up K) st)) (fill K t)"
proof -
  let ?q = "up K" let ?s = "redirect ?q x (rootp t) (reparent (rootp t) ?q st)"
  have k: "ctx_at st x ?q K" and x: "node_ok x" and ab: "tree_at st (left_of st x) x a" "tree_at st (right_of st x) x b"
    and d: "distinct (inorder a @ x # inorder b @ ctx_list K)"
    and F': "\<And>z. z \<notin> set (inorder a) \<union> insert x (set (inorder b)) \<union> set (ctx_list K) \<Longrightarrow> nodes st z = F z"
    using R unfolding rep_fill by simp_all
  have F: "nodes st z = F z" if "z \<notin> insert x (set (inorder t) \<union> set (ctx_list K))" for z
    by (rule F') (use that t in auto)
  have T: "tree_at st (rootp t) x t" using ab t tree_at_rootp [OF ab(1)] tree_at_rootp [OF ab(2)] by auto
  have D: "distinct (inorder t)" "distinct (ctx_list K)" "set (inorder t) \<inter> set (ctx_list K) = {}"
      "x \<notin> set (inorder t)" "x \<notin> set (ctx_list K)"
    using d t by auto
  have q: "?q = NULL \<or> ?q \<in> set (ctx_list K)" using ctx_at_parent [OF k] by auto
  have al: "ptr_al ?q" using ctx_at_al [OF k] .
  have r: "rootp t = NULL \<or> rootp t \<in> set (inorder t)" by (rule rootp_in)
  have ne: "rootp t \<noteq> NULL \<Longrightarrow> rootp t \<noteq> ?q" "?q \<noteq> NULL \<Longrightarrow> ?q \<noteq> rootp t" using q r D(3) by auto
  have g: "agree st ?s v" if "v = NULL \<or> v \<noteq> rootp t" "v = NULL \<or> v \<noteq> ?q" for v
    using that al unfolding agree_def by (elim disjE) (simp_all add: rb_access)
  have "ctx_at ?s (rootp t) ?q K"
  proof (rule ctx_at_relink [OF k D(2,5)])
    show "agree st ?s z" if "z \<in> set (ctx_list K)" "z \<noteq> ?q" for z by (rule g) (use that r D(3) in auto)
    show "rb_parent ?s ?q = rb_parent st ?q \<and> rb_is_red ?s ?q = rb_is_red st ?q \<and>
      left_of ?s ?q = (if left_of st ?q = x then rootp t else left_of st ?q) \<and>
      right_of ?s ?q = (if left_of st ?q = x then right_of st ?q else rootp t)" if "?q \<noteq> NULL"
      using that al ne by (simp add: rb_access)
  qed (use x in \<open>simp_all add: rb_access\<close>)
  moreover have "tree_at ?s (rootp t) ?q t"
  proof (rule tree_at_reparent [OF T D(1)])
    show "agree st ?s z" if "z \<in> set (inorder t)" "z \<noteq> rootp t" for z by (rule g) (use that q D(3) in auto)
    show "rb_parent ?s (rootp t) = ?q \<and> rb_is_red ?s (rootp t) = rb_is_red st (rootp t) \<and>
      left_of ?s (rootp t) = left_of st (rootp t) \<and> right_of ?s (rootp t) = right_of st (rootp t)" if "rootp t \<noteq> NULL"
      using that al ne by (simp add: rb_access)
  qed
  moreover have "nodes ?s z = (F(x := nodes st x)) z" if "z \<notin> set (inorder t) \<union> set (ctx_list K)" for z
  proof -
    have "z = NULL \<or> z \<noteq> ?q" "z = NULL \<or> z \<noteq> rootp t" using that q r by auto
    then have "nodes ?s z = nodes st z" by (simp add: redirect_frame reparent_frame)
    then show ?thesis using F [of z] that by simp
  qed
  ultimately show ?thesis using D unfolding rep_fill by simp
qed

lemma replace_access:
  assumes "q = rb_parent st x" "l = left_of st x" "r = right_of st x" "ptr_al n" "q \<noteq> x" "n \<noteq> x" "l \<noteq> x" "r \<noteq> x"
    "q \<noteq> n" "q = NULL \<or> q \<noteq> l" "q = NULL \<or> q \<noteq> r" "l \<noteq> n" "r \<noteq> n"
  shows "rb_parent (rb_replace_node x n st) v =
      (if v = n then q else if v \<noteq> NULL \<and> (v = l \<or> v = r) then n else rb_parent st v)"
    "rb_is_red (rb_replace_node x n st) v = (if v = n then rb_is_red st x else rb_is_red st v)"
    "left_of (rb_replace_node x n st) v =
      (if v = n then l else if v = q \<and> q \<noteq> NULL \<and> left_of st q = x then n else left_of st v)"
    "right_of (rb_replace_node x n st) v =
      (if v = n then r else if v = q \<and> q \<noteq> NULL \<and> left_of st q \<noteq> x then n else right_of st v)"
    "rb_root (rb_replace_node x n st) = (if q = NULL then n else rb_root st)"
    "v \<noteq> n \<Longrightarrow> v = NULL \<or> v \<noteq> q \<Longrightarrow> v = NULL \<or> v \<noteq> l \<Longrightarrow> v = NULL \<or> v \<noteq> r \<Longrightarrow>
       nodes (rb_replace_node x n st) v = nodes st v"
proof -
  let ?s = "redirect q x n st"
  let ?u = "reparent r n (reparent l n ?s)"
  have f: "nodes ?s x = nodes st x" using assms(5) by (simp add: redirect_frame)
  have e: "rb_replace_node x n st = upd_node n (\<lambda>_. nodes ?u x) ?u"
    unfolding replace_eq Let_def assms(1) [symmetric] f assms(2) [symmetric] assms(3) [symmetric] ..
  have u: "rb_parent ?u v = (if v \<noteq> NULL \<and> (v = l \<or> v = r) then n else rb_parent st v)"
    "rb_is_red ?u v = rb_is_red st v" "left_of ?u v = left_of ?s v" "right_of ?u v = right_of ?s v" for v
    using assms(4) by (simp_all add: rb_access)
  show "rb_parent (rb_replace_node x n st) v =
      (if v = n then q else if v \<noteq> NULL \<and> (v = l \<or> v = r) then n else rb_parent st v)"
    using assms(1,7,8) unfolding e access_copy u by simp
  show "rb_is_red (rb_replace_node x n st) v = (if v = n then rb_is_red st x else rb_is_red st v)"
    unfolding e access_copy u ..
  show "left_of (rb_replace_node x n st) v =
      (if v = n then l else if v = q \<and> q \<noteq> NULL \<and> left_of st q = x then n else left_of st v)"
    "right_of (rb_replace_node x n st) v =
      (if v = n then r else if v = q \<and> q \<noteq> NULL \<and> left_of st q \<noteq> x then n else right_of st v)"
    "rb_root (rb_replace_node x n st) = (if q = NULL then n else rb_root st)"
    using assms(2,3,5) unfolding e by (simp_all add: rb_access)
  show "nodes (rb_replace_node x n st) v = nodes st v"
    if "v \<noteq> n" "v = NULL \<or> v \<noteq> q" "v = NULL \<or> v \<noteq> l" "v = NULL \<or> v \<noteq> r"
    using that unfolding e by (simp add: nodes_upd reparent_frame redirect_frame)
qed

lemma rep_replace:
  assumes R: "rep F st (fill K (Node a x c b))" and n: "node_ok n" "n \<notin> set (inorder (fill K (Node a x c b)))"
  shows "rep (F(x := nodes st x)) (rb_replace_node x n st) (fill K (Node a n c b))"
proof -
  let ?q = "up K" and ?s = "rb_replace_node x n st"
  have k: "ctx_at st x ?q K" and x: "node_ok x" and A: "tree_at st (left_of st x) x a" and B: "tree_at st (right_of st x) x b"
    and D: "distinct (inorder a @ x # inorder b @ ctx_list K)"
    and F: "\<And>z. z \<notin> set (inorder a) \<union> insert x (set (inorder b)) \<union> set (ctx_list K) \<Longrightarrow> nodes st z = F z"
    using R unfolding rep_fill by simp_all
  have lr: "left_of st x = rootp a" "right_of st x = rootp b" "rb_parent st x = ?q" using rep_node [OF R] by simp_all
  have n': "n \<noteq> x" "n \<notin> set (inorder a)" "n \<notin> set (inorder b)" "n \<notin> set (ctx_list K)"
    using n(2) by (simp_all add: set_fill)
  have q: "?q = NULL \<or> ?q \<in> set (ctx_list K)" using ctx_at_parent [OF k] by auto
  note ra = rootp_in [of a] and rb = rootp_in [of b]
  note V = replace_access [OF lr(3) [symmetric] lr(1) [symmetric] lr(2) [symmetric] node_ok_al [OF n(1)]]
  have xn: "x \<noteq> NULL" "n \<noteq> NULL" using x n(1) by simp_all
  have ne_a: "rootp a \<noteq> x" "rootp a \<noteq> n" using ra D n'(2) xn by auto
  have ne_b: "rootp b \<noteq> x" "rootp b \<noteq> n" using rb D n'(3) xn by auto
  have ne_q: "?q \<noteq> x" "?q \<noteq> n" using q D n'(4) xn by auto
  have ne_qa: "?q = NULL \<or> ?q \<noteq> rootp a" using q ra D by auto
  have ne_qb: "?q = NULL \<or> ?q \<noteq> rootp b" using q rb D by auto
  note ne = ne_q(1) n'(1) ne_a(1) ne_b(1) ne_q(2) ne_qa ne_qb ne_a(2) ne_b(2)
  note A' = V [OF ne]
  have g: "agree st ?s v" if "v \<noteq> n" "v = NULL \<or> v \<noteq> rootp a" "v = NULL \<or> v \<noteq> rootp b" "v = NULL \<or> v \<noteq> ?q" for v
    using that unfolding agree_def A'(1-4) by auto
  have "ctx_at ?s n ?q K"
  proof (rule ctx_at_relink [OF k])
    show "agree st ?s v" if "v \<in> set (ctx_list K)" "v \<noteq> ?q" for v by (rule g) (use that ra rb D n' in auto)
    show "rb_parent ?s ?q = rb_parent st ?q \<and> rb_is_red ?s ?q = rb_is_red st ?q \<and>
           left_of ?s ?q = (if left_of st ?q = x then n else left_of st ?q) \<and>
           right_of ?s ?q = (if left_of st ?q = x then right_of st ?q else n)" if "?q \<noteq> NULL"
      using that ne unfolding A'(1-4) by auto
  qed (use D x in \<open>simp_all add: A'(5)\<close>)
  moreover have "tree_at ?s (rootp a) n a"
  proof (rule tree_at_reparent [OF A [unfolded lr]])
    show "agree st ?s v" if "v \<in> set (inorder a)" "v \<noteq> rootp a" for v by (rule g) (use that D rb q n' in auto)
    show "rb_parent ?s (rootp a) = n \<and> rb_is_red ?s (rootp a) = rb_is_red st (rootp a) \<and>
      left_of ?s (rootp a) = left_of st (rootp a) \<and> right_of ?s (rootp a) = right_of st (rootp a)" if "rootp a \<noteq> NULL"
    proof -
      have "rootp a \<noteq> ?q" using ne_qa that by auto
      then show ?thesis unfolding A'(1-4) using ne_a that by simp
    qed
  qed (use D in simp)
  moreover have "tree_at ?s (rootp b) n b"
  proof (rule tree_at_reparent [OF B [unfolded lr]])
    show "agree st ?s v" if "v \<in> set (inorder b)" "v \<noteq> rootp b" for v by (rule g) (use that D ra q n' in auto)
    show "rb_parent ?s (rootp b) = n \<and> rb_is_red ?s (rootp b) = rb_is_red st (rootp b) \<and>
      left_of ?s (rootp b) = left_of st (rootp b) \<and> right_of ?s (rootp b) = right_of st (rootp b)" if "rootp b \<noteq> NULL"
    proof -
      have "rootp b \<noteq> ?q" using ne_qb that by auto
      then show ?thesis unfolding A'(1-4) using ne_b that by simp
    qed
  qed (use D in simp)
  moreover have F': "nodes ?s z = (F(x := nodes st x)) z"
    if "z \<notin> insert n (set (inorder a) \<union> set (inorder b) \<union> set (ctx_list K))" for z
  proof -
    have "nodes ?s z = nodes st z" by (rule A'(6)) (use that q ra rb in auto)
    then show ?thesis using F [of z] that by simp
  qed
  moreover have "rb_is_red st x = (c = Red)" using rep_node(2) [OF R] .
  ultimately have "ctx_at ?s n ?q K" "tree_at ?s n ?q (Node a n c b)"
    using n(1) by (simp_all add: A'(1-4))
  moreover have "distinct (inorder (Node a n c b) @ ctx_list K)" using D n' by auto
  ultimately show ?thesis using F' unfolding rep_fill by simp
qed

section \<open>The successor\<close>

text \<open>The way down the left children, the innermost first.\<close>

fun left_path :: "(ptr \<times> rb_colour \<times> rbt) list \<Rightarrow> ctx \<Rightarrow> ctx" where
  "left_path [] K = K"
| "left_path ((y, d, r) # ps) K = InL (left_path ps K) y d r"

lemma left_path_append: "left_path (ps @ qs) K = left_path ps (left_path qs K)"
  by (induction ps) auto

lemma left_path_fill: "fill (left_path ps K) t = fill K (fill (left_path ps Top) t)"
  by (induction ps arbitrary: t) auto

lemma leftmost_path:
  assumes "rep F st (fill K t)" "t \<noteq> Leaf"
  shows "\<exists>ps m d r. t = fill (left_path ps Top) (Node Leaf m d r) \<and> leftmost st (rootp t) = Some m"
  using assms
proof (induction t arbitrary: K)
  case (Node l y c r)
  have y: "left_of st y = rootp l" using rep_node(3) [OF Node.prems(1)] .
  show ?case
  proof (cases "l = Leaf")
    case True
    then have "leftmost st y = Some y" using y by (subst leftmost.simps) simp
    then show ?thesis using True by (intro exI [of _ "[]"]) simp
  next
    case False
    have R: "rep F st (fill (InL K y c r) l)" using Node.prems(1) by simp
    obtain ps m d r' where l: "l = fill (left_path ps Top) (Node Leaf m d r')" "leftmost st (rootp l) = Some m"
      using Node.IH(1) [OF R False] by blast
    have "leftmost st (rootp (Node l y c r)) = Some m"
      using y l(2) rep_rootp [OF R] False by (subst leftmost.simps) simp
    moreover have "Node l y c r = fill (left_path (ps @ [(y, c, r)]) Top) (Node Leaf m d r')"
      using left_path_fill [of ps "InL Top y c r"] l(1) by (simp add: left_path_append)
    ultimately show ?thesis by blast
  qed
qed simp

text \<open>
  Moving the successor \<open>m\<close> into the place of \<open>x\<close> is the same as taking \<open>m\<close> out and then replacing \<open>x\<close> by it, but for
  the fields of \<open>x\<close>, which is no longer in the tree.
\<close>

lemma splice_child_agree:
  assumes q: "rb_parent st x = q" and l: "left_of st x = l" and m: "right_of st x = m" "rb_parent st m = x"
    and r: "right_of st m = r" "r \<noteq> NULL \<Longrightarrow> rb_parent st r = m" and al: "ptr_al m" "ptr_al x"
    and ne: "m \<noteq> x" "q \<noteq> x" "q \<noteq> m" "l \<noteq> m" "l \<noteq> x" "r \<noteq> x" "r \<noteq> m" "q = NULL \<or> q \<noteq> r" "q = NULL \<or> q \<noteq> l"
      "l \<noteq> NULL" "l \<noteq> r" "x \<noteq> NULL"
  shows "\<exists>s. rb_splice x m st = (r, m, rb_color st m, s) \<and>
    (\<forall>v. v \<noteq> x \<longrightarrow> agree (rb_replace_node x m (redirect x m r (reparent r x st))) s v) \<and>
    rb_root s = rb_root (rb_replace_node x m (redirect x m r (reparent r x st))) \<and>
    (\<forall>v. v \<noteq> m \<longrightarrow> v \<noteq> l \<longrightarrow> v = NULL \<or> v \<noteq> q \<longrightarrow> nodes s v = nodes st v)"
proof -
  define u where "u = redirect x m r (reparent r x st)"
  define s where "s = rb_set_parent l m (set_left m l
    (upd_node m (\<lambda>n. n\<lparr>rb_parent_color := rb_parent_color (nodes st x)\<rparr>) (redirect q x m st)))"
  have e: "rb_splice x m st = (r, m, rb_color st m, s)"
    using splice_child [OF m(2) q [symmetric]] ne l r by (simp add: s_def)
  have u: "rb_parent u v = (if v = r \<and> r \<noteq> NULL then x else rb_parent st v)" "rb_is_red u v = rb_is_red st v"
    "left_of u v = left_of st v" "right_of u v = (if v = x then r else right_of st v)" "rb_root u = rb_root st" for v
    using al ne l by (simp_all add: u_def rb_access)
  have al_q: "ptr_al q" unfolding q [symmetric] by (rule ptr_al_parent)
  have s: "rb_parent s v = (if v = l then m else if v = m then q else rb_parent st v)"
    "rb_is_red s v = (if v = m then rb_is_red st x else rb_is_red st v)"
    "left_of s v = (if v = m then l else if v = q \<and> q \<noteq> NULL \<and> left_of st q = x then m else left_of st v)"
    "right_of s v = (if v = q \<and> q \<noteq> NULL \<and> left_of st q \<noteq> x then m else right_of st v)"
    "rb_root s = (if q = NULL then m else rb_root st)" for v
    using al q ne by (simp_all add: s_def rb_access)
  have "q = rb_parent u x" "l = left_of u x" "r = right_of u x" using q l ne by (simp_all add: u)
  note R = replace_access [OF this al(1)]
  have R: "rb_parent (rb_replace_node x m u) v =
      (if v = m then q else if v \<noteq> NULL \<and> (v = l \<or> v = r) then m else rb_parent u v)"
    "rb_is_red (rb_replace_node x m u) v = (if v = m then rb_is_red u x else rb_is_red u v)"
    "left_of (rb_replace_node x m u) v =
      (if v = m then l else if v = q \<and> q \<noteq> NULL \<and> left_of u q = x then m else left_of u v)"
    "right_of (rb_replace_node x m u) v =
      (if v = m then r else if v = q \<and> q \<noteq> NULL \<and> left_of u q \<noteq> x then m else right_of u v)"
    "rb_root (rb_replace_node x m u) = (if q = NULL then m else rb_root u)" for v
    by (rule R; use ne in simp)+
  have "agree (rb_replace_node x m u) s v" if "v \<noteq> x" for v
  proof -
    have "rb_parent (rb_replace_node x m u) v = rb_parent s v" using r(2) ne(4,10) unfolding R s u by auto
    moreover have "right_of (rb_replace_node x m u) v = right_of s v" using that r(1) ne(3) unfolding R s u by simp
    ultimately show ?thesis unfolding agree_def R(2,3) s(2,3) u by simp
  qed
  moreover have "rb_root s = rb_root (rb_replace_node x m u)" unfolding R s u ..
  moreover have "nodes s v = nodes st v" if "v \<noteq> m" "v \<noteq> l" "v = NULL \<or> v \<noteq> q" for v
    using that by (simp add: s_def node_frame nodes_upd redirect_frame)
  ultimately show ?thesis using e unfolding u_def by blast
qed

lemma splice_deep_agree:
  assumes q: "rb_parent st x = q" and l: "left_of st x = l" and b: "right_of st x = b" and p: "rb_parent st m = p" "left_of st p = m"
    and r: "right_of st m = r" and al: "ptr_al m" "ptr_al x"
    and ne: "m \<noteq> x" "q \<noteq> x" "q \<noteq> m" "p \<noteq> x" "p \<noteq> m" "l \<noteq> m" "l \<noteq> x" "b \<noteq> x" "b \<noteq> m" "r \<noteq> x" "r \<noteq> m"
      "q = NULL \<or> q \<noteq> r" "q = NULL \<or> q \<noteq> l" "q = NULL \<or> q \<noteq> b" "q = NULL \<or> q \<noteq> p"
      "l \<noteq> NULL" "b \<noteq> NULL" "p \<noteq> NULL" "l \<noteq> r" "l \<noteq> b" "l \<noteq> p" "b \<noteq> r" "p \<noteq> r"
  shows "\<exists>s. rb_splice x m st = (r, p, rb_color st m, s) \<and>
    (\<forall>v. v \<noteq> x \<longrightarrow> agree (rb_replace_node x m (redirect p m r (reparent r p st))) s v) \<and>
    rb_root s = rb_root (rb_replace_node x m (redirect p m r (reparent r p st))) \<and>
    (\<forall>v. v \<noteq> m \<longrightarrow> v \<noteq> l \<longrightarrow> v \<noteq> b \<longrightarrow> v \<noteq> p \<longrightarrow> v = NULL \<or> v \<noteq> r \<longrightarrow> v = NULL \<or> v \<noteq> q \<longrightarrow> nodes s v = nodes st v)"
proof -
  define u where "u = redirect p m r (reparent r p st)"
  define s where "s = rb_set_parent l m (set_left m l
    (upd_node m (\<lambda>n. n\<lparr>rb_parent_color := rb_parent_color (nodes st x)\<rparr>)
      (rb_set_parent b m (set_right m b (set_left p r (reparent r p (redirect q x m st)))))))"
  have e: "rb_splice x m st = (r, p, rb_color st m, s)"
    using splice_deep [OF p(1) [symmetric] q [symmetric] _ _ _ _ _ r [symmetric] _ b [symmetric]] ne l by (simp add: s_def)
  have al_q: "ptr_al q" "ptr_al p" unfolding q [symmetric] p(1) [symmetric] by (rule ptr_al_parent)+
  have u: "rb_parent u v = (if v = r \<and> r \<noteq> NULL then p else rb_parent st v)" "rb_is_red u v = rb_is_red st v"
    "left_of u v = (if v = p then r else left_of st v)" "right_of u v = right_of st v" "rb_root u = rb_root st" for v
    using al_q p ne by (simp_all add: u_def rb_access)
  have s: "rb_parent s v = (if v = l then m else if v = m then q else if v = b then m else if v = r \<and> r \<noteq> NULL then p else rb_parent st v)"
    "rb_is_red s v = (if v = m then rb_is_red st x else rb_is_red st v)"
    "left_of s v = (if v = m then l else if v = p then r else if v = q \<and> q \<noteq> NULL \<and> left_of st q = x then m else left_of st v)"
    "right_of s v = (if v = m then b else if v = q \<and> q \<noteq> NULL \<and> left_of st q \<noteq> x then m else right_of st v)"
    "rb_root s = (if q = NULL then m else rb_root st)" for v
    using al al_q q ne by (simp_all add: s_def rb_access)
  have "q = rb_parent u x" "l = left_of u x" "b = right_of u x" using q l b ne by (simp_all add: u)
  note R = replace_access [OF this al(1)]
  have R: "rb_parent (rb_replace_node x m u) v =
      (if v = m then q else if v \<noteq> NULL \<and> (v = l \<or> v = b) then m else rb_parent u v)"
    "rb_is_red (rb_replace_node x m u) v = (if v = m then rb_is_red u x else rb_is_red u v)"
    "left_of (rb_replace_node x m u) v =
      (if v = m then l else if v = q \<and> q \<noteq> NULL \<and> left_of u q = x then m else left_of u v)"
    "right_of (rb_replace_node x m u) v =
      (if v = m then b else if v = q \<and> q \<noteq> NULL \<and> left_of u q \<noteq> x then m else right_of u v)"
    "rb_root (rb_replace_node x m u) = (if q = NULL then m else rb_root u)" for v
    by (rule R; use ne in simp)+
  have "agree (rb_replace_node x m u) s v" if "v \<noteq> x" for v
  proof -
    have "rb_parent (rb_replace_node x m u) v = rb_parent s v" using ne(6,9,16,17) unfolding R s u by auto
    moreover have "left_of (rb_replace_node x m u) v = left_of s v" using ne(15) unfolding R s u by auto
    moreover have "right_of (rb_replace_node x m u) v = right_of s v" using ne(15) unfolding R s u by auto
    ultimately show ?thesis unfolding agree_def R(2) s(2) u by simp
  qed
  moreover have "rb_root s = rb_root (rb_replace_node x m u)" unfolding R s u ..
  moreover have "nodes s v = nodes st v"
    if "v \<noteq> m" "v \<noteq> l" "v \<noteq> b" "v \<noteq> p" "v = NULL \<or> v \<noteq> r" "v = NULL \<or> v \<noteq> q" for v
    using that by (simp add: s_def node_frame nodes_upd redirect_frame reparent_frame)
  ultimately show ?thesis using e unfolding u_def by blast
qed

lemma rep_splice:
  assumes R: "rep F st (fill K (Node a x c (fill (left_path ps Top) (Node Leaf m d r))))" and a: "a \<noteq> Leaf"
  shows "\<exists>s. rb_splice x m st = (rootp r, up (left_path ps (InR K a m c)), rb_color st m, s) \<and>
    rep (F(x := nodes st x)) s (fill (left_path ps (InR K a m c)) r)"
proof -
  let ?P = "left_path ps Top" and ?C = "left_path ps (InR K a x c)" and ?q = "up K" and ?l = "rootp a"
  let ?b = "rootp (fill ?P (Node Leaf m d r))" and ?r = "rootp r"
  define u where "u = redirect (up ?C) m ?r (reparent ?r (up ?C) st)"
  have R1: "rep F st (fill ?C (Node Leaf m d r))" using R left_path_fill [of ps "InR K a x c"] by simp
  have R2: "rep (F(m := nodes st m)) u (fill K (Node a x c (fill ?P r)))"
    using rep_unlink [OF R1, of r] left_path_fill [of ps "InR K a x c" r] by (simp add: u_def)
  have D: "distinct (inorder a)" "distinct (inorder r)" "distinct (ctx_list K)" "distinct (ctx_list ?P)"
      "x \<notin> set (inorder a)" "x \<notin> set (inorder r)" "x \<notin> set (ctx_list K)" "x \<notin> set (ctx_list ?P)" "m \<noteq> x"
      "m \<notin> set (inorder a)" "m \<notin> set (inorder r)" "m \<notin> set (ctx_list K)" "m \<notin> set (ctx_list ?P)"
      "set (inorder a) \<inter> set (inorder r) = {}" "set (inorder a) \<inter> set (ctx_list K) = {}"
      "set (inorder a) \<inter> set (ctx_list ?P) = {}" "set (inorder r) \<inter> set (ctx_list K) = {}"
      "set (inorder r) \<inter> set (ctx_list ?P) = {}" "set (ctx_list K) \<inter> set (ctx_list ?P) = {}"
    using rep_distinct [OF R] by (auto simp: distinct_fill set_fill)
  have m: "node_ok m" "right_of st m = ?r" "rb_parent st m = up ?C" using rep_node [OF R1] by simp_all
  have x: "node_ok x" "rb_parent st x = ?q" "left_of st x = ?l" "right_of st x = ?b" using rep_node [OF R] by simp_all
  have R3: "rep (F(m := nodes st m, x := nodes u x)) (rb_replace_node x m u) (fill K (Node a m c (fill ?P r)))"
    by (rule rep_replace [OF R2 m(1)]) (use D in \<open>simp add: set_fill\<close>)
  have q: "?q = NULL \<or> ?q \<in> set (ctx_list K)" using R unfolding rep_fill by (auto dest: ctx_at_parent)
  have l: "?l \<noteq> NULL" "?l \<in> set (inorder a)"
    using rep_rootp [of F st "InL K x c (fill ?P (Node Leaf m d r))" a] rootp_in [of a] R a by auto
  note r = rootp_in [of r]
  have n: "m \<noteq> NULL" "x \<noteq> NULL" "ptr_al m" "ptr_al x" using m(1) x(1) by simp_all
  let ?S = "set (inorder (fill K (Node a m c (fill ?P r))))"
  have fin: "rep (F(x := nodes st x)) s (fill (left_path ps (InR K a m c)) r)"
    if "\<forall>v. v \<noteq> x \<longrightarrow> agree (rb_replace_node x m u) s v" "rb_root s = rb_root (rb_replace_node x m u)"
      "\<And>v. v \<notin> ?S \<Longrightarrow> nodes s v = nodes st v" for s
  proof -
    have "rep (F(x := nodes st x)) s (fill K (Node a m c (fill ?P r)))"
    proof (rule rep_cong [OF R3 _ that(2)])
      show "agree (rb_replace_node x m u) s z" if "z \<in> ?S" for z
        using that D \<open>\<forall>v. v \<noteq> x \<longrightarrow> agree (rb_replace_node x m u) s v\<close> by (auto simp: set_fill)
      show "nodes s z = (F(x := nodes st x)) z" if z: "z \<notin> ?S" for z
        using \<open>\<And>v. v \<notin> ?S \<Longrightarrow> nodes s v = nodes st v\<close> [OF z] z R unfolding rep_def by (simp add: set_fill)
    qed
    then show ?thesis using left_path_fill [of ps "InR K a m c" r] by simp
  qed
  show ?thesis
  proof (cases ps)
    case Nil
    have rm: "rb_parent st ?r = m" if "?r \<noteq> NULL"
      using rep_node(5) [of F st "InR (InR K a x c) Leaf m d"] R Nil that by (cases r) auto
    have "\<exists>s. rb_splice x m st = (?r, m, rb_color st m, s) \<and>
      (\<forall>v. v \<noteq> x \<longrightarrow> agree (rb_replace_node x m u) s v) \<and> rb_root s = rb_root (rb_replace_node x m u) \<and>
      (\<forall>v. v \<noteq> m \<longrightarrow> v \<noteq> ?l \<longrightarrow> v = NULL \<or> v \<noteq> ?q \<longrightarrow> nodes s v = nodes st v)"
      unfolding u_def Nil left_path.simps up.simps
      by (rule splice_child_agree) (use m x n l q r D Nil rm in auto)
    then obtain s where s: "rb_splice x m st = (?r, m, rb_color st m, s)"
      "\<forall>v. v \<noteq> x \<longrightarrow> agree (rb_replace_node x m u) s v" "rb_root s = rb_root (rb_replace_node x m u)"
      and f: "\<And>v. v \<noteq> m \<Longrightarrow> v \<noteq> ?l \<Longrightarrow> v = NULL \<or> v \<noteq> ?q \<Longrightarrow> nodes s v = nodes st v"
      by blast
    have "nodes s v = nodes st v" if "v \<notin> ?S" for v
      by (rule f) (use that l q in \<open>auto simp: set_fill\<close>)
    from fin [OF s(2,3) this] show ?thesis using s(1) Nil by auto
  next
    case (Cons yes ps')
    obtain y e t where [simp]: "yes = (y, e, t)" by (cases yes)
    have y: "left_of st y = m" "y \<in> set (ctx_list ?P)" "y \<noteq> NULL" "up ?C = y"
      using rep_node(1,3) [of F st "left_path ps' (InR K a x c)" "Node Leaf m d r" y e t] R1 Cons by auto
    have b: "?b \<in> set (ctx_list ?P)" using rootp_fill [of ?P] Cons by simp
    have b0: "?b \<noteq> NULL" using rep_rootp [of F st "InR K a x c" "fill ?P (Node Leaf m d r)"] R inorder_fill [of ?P "Node Leaf m d r"]
      by (metis Nil_is_append_conv inorder.simps(1) inorder.simps(2) list.distinct(1) fill.simps(3))
    have "\<exists>s. rb_splice x m st = (?r, y, rb_color st m, s) \<and>
      (\<forall>v. v \<noteq> x \<longrightarrow> agree (rb_replace_node x m u) s v) \<and> rb_root s = rb_root (rb_replace_node x m u) \<and>
      (\<forall>v. v \<noteq> m \<longrightarrow> v \<noteq> ?l \<longrightarrow> v \<noteq> ?b \<longrightarrow> v \<noteq> y \<longrightarrow> v = NULL \<or> v \<noteq> ?r \<longrightarrow> v = NULL \<or> v \<noteq> ?q \<longrightarrow> nodes s v = nodes st v)"
      unfolding u_def y(4)
      by (rule splice_deep_agree) (use m x n l q r D y b b0 in auto)
    then obtain s where s: "rb_splice x m st = (?r, y, rb_color st m, s)"
      "\<forall>v. v \<noteq> x \<longrightarrow> agree (rb_replace_node x m u) s v" "rb_root s = rb_root (rb_replace_node x m u)"
      and f: "\<And>v. v \<noteq> m \<Longrightarrow> v \<noteq> ?l \<Longrightarrow> v \<noteq> ?b \<Longrightarrow> v \<noteq> y \<Longrightarrow> v = NULL \<or> v \<noteq> ?r \<Longrightarrow> v = NULL \<or> v \<noteq> ?q \<Longrightarrow>
        nodes s v = nodes st v"
      by blast
    have "nodes s v = nodes st v" if "v \<notin> ?S" for v
      by (rule f) (use that l q r y b in \<open>auto simp: set_fill\<close>)
    from fin [OF s(2,3) this] show ?thesis using s(1) Cons by auto
  qed
qed

section \<open>Erasing\<close>

lemma fill_compose: "\<exists>L. \<forall>t. fill J (fill K t) = fill L t"
proof (induction K)
  case (InL K x c r)
  then obtain L where "\<forall>t. fill J (fill K t) = fill L t" by blast
  then show ?case by (intro exI [of _ "InL L x c r"]) simp
next
  case (InR K l x c)
  then obtain L where "\<forall>t. fill J (fill K t) = fill L t" by blast
  then show ?case by (intro exI [of _ "InR L l x c"]) simp
qed auto

lemma focus_on: "x \<in> set (inorder t) \<Longrightarrow> \<exists>K a c b. t = fill K (Node a x c b)"
proof (induction t)
  case (Node l y c r)
  consider "x = y" | "x \<in> set (inorder l)" | "x \<in> set (inorder r)" using Node.prems by auto
  then show ?case
  proof cases
    case 1
    then show ?thesis by (metis fill.simps(1))
  next
    case 2
    then obtain K a d b where "l = fill K (Node a x d b)" using Node.IH(1) by blast
    moreover have "\<exists>K'. Node (fill K t) y c r = fill K' t" for t using fill_compose [of "InL Top y c r" K] by auto
    ultimately show ?thesis by metis
  next
    case 3
    then obtain K a d b where "r = fill K (Node a x d b)" using Node.IH(2) by blast
    moreover have "\<exists>K'. Node l y c (fill K t) = fill K' t" for t using fill_compose [of "InR Top l y c" K] by auto
    ultimately show ?thesis by metis
  qed
qed simp

lemma color_black: "rb_color st x = RB_BLACK \<longleftrightarrow> \<not> rb_is_red st x"
  using color_cases [of st x] by (auto simp: rb_is_red_def RB_BLACK_def)

text \<open>The node that is out had at most one child, which takes its place.\<close>

lemma erase_finish:
  assumes B: "red_black_tree (fill K (Node a y d b))" and t: "a = Leaf \<and> t = b \<or> b = Leaf \<and> t = a"
    and R: "rep F s (fill K t)" and col: "color = RB_BLACK \<longleftrightarrow> d = Black"
  shows "\<exists>st' T. (if color = RB_BLACK then rb_erase_color (rootp t) (up K) s else Some s) = Some st' \<and>
    rep F st' T \<and> red_black_tree T \<and> inorder T = inorder (fill K t)"
proof (cases d)
  case Black
  have "ctx_inv K (Suc (bheight t))" "invc (blacken t)" "invh t"
    using B t Black unfolding red_black_fill by auto
  from erase_color_correct [OF R this] show ?thesis using col Black by simp
next
  case Red
  have "red_black_tree (fill K t)" using B t Red unfolding red_black_fill by auto
  then show ?thesis using col Red R by auto
qed

lemma left_path_swap:
  "ctx_inv (left_path ps (InR K a m c)) n = ctx_inv (left_path ps (InR K a x c)) n"
  "red_ok (left_path ps (InR K a m c)) = red_ok (left_path ps (InR K a x c))"
proof -
  show ok: "red_ok (left_path ps (InR K a m c)) = red_ok (left_path ps (InR K a x c))" for ps by (cases ps) auto
  show "ctx_inv (left_path ps (InR K a m c)) n = ctx_inv (left_path ps (InR K a x c)) n"
    by (induction ps arbitrary: n) (auto simp: ok)
qed

lemma before_left_path: "before (left_path ps K) = before K"
  by (induction ps) auto

lemma erase_focus:
  assumes R: "rep (nodes st) st (fill K (Node a x c b))" and B: "red_black_tree (fill K (Node a x c b))"
  shows "\<exists>st' T. rb_erase x st = Some st' \<and> rep (nodes st) st' T \<and> red_black_tree T \<and>
    inorder T = before K @ inorder a @ inorder b @ after K"
proof -
  have x: "left_of st x = rootp a" "right_of st x = rootp b" "rb_parent st x = up K" "rb_is_red st x = (c = Red)"
    using rep_node [OF R] by simp_all
  have l: "rootp a = NULL \<longleftrightarrow> a = Leaf" using rep_rootp [of _ st "InL K x c b" a] R by simp
  have r: "rootp b = NULL \<longleftrightarrow> b = Leaf" using rep_rootp [of _ st "InR K a x c" b] R by simp
  show ?thesis
  proof (cases "a = Leaf \<or> b = Leaf")
    case True
    define t where "t = (if a = Leaf then b else a)"
    have t: "a = Leaf \<and> t = b \<or> b = Leaf \<and> t = a" using True by (auto simp: t_def)
    have e: "rb_erase x st =
        (if rb_color st x = RB_BLACK then rb_erase_color (rootp t) (up K) (redirect (up K) x (rootp t) (reparent (rootp t) (up K) st))
         else Some (redirect (up K) x (rootp t) (reparent (rootp t) (up K) st)))"
      using True l r x by (auto simp: rb_erase_def unlink_eq t_def)
    have "inorder (fill K t) = before K @ inorder a @ inorder b @ after K" using t by (auto simp: inorder_fill)
    then show ?thesis
      using erase_finish [OF B t rep_unlink [OF R t], of "rb_color st x"] x(4) unfolding e color_black by simp
  next
    case False
    then have ab: "a \<noteq> Leaf" "b \<noteq> Leaf" by auto
    obtain ps m d t where b: "b = fill (left_path ps Top) (Node Leaf m d t)" and m: "leftmost st (rootp b) = Some m"
      using leftmost_path [of "nodes st" st "InR K a x c" b] R ab by auto
    let ?C = "left_path ps (InR K a m c)" and ?D = "left_path ps (InR K a x c)"
    obtain s where s: "rb_splice x m st = (rootp t, up ?C, rb_color st m, s)" and Rs: "rep (nodes st) s (fill ?C t)"
      using rep_splice [OF R [unfolded b] ab(1)] by auto
    have "fill K (Node a x c b) = fill ?D (Node Leaf m d t)" using left_path_fill [of ps "InR K a x c"] b by simp
    then have BD: "red_black_tree (fill ?D (Node Leaf m d t))" and RD: "rep (nodes st) st (fill ?D (Node Leaf m d t))"
      using B R by simp_all
    have BC: "red_black_tree (fill ?C (Node Leaf m d t))"
      using BD left_path_swap(1) [of ps K a m c _ x] left_path_swap(2) [of ps K a m c x] unfolding red_black_fill by simp
    have e: "rb_erase x st = (if rb_color st m = RB_BLACK then rb_erase_color (rootp t) (up ?C) s else Some s)"
      using ab l r x m s by (simp add: rb_erase_def)
    have "rb_is_red st m = (d = Red)" using rep_node(2) [OF RD] .
    moreover have "inorder (fill ?C t) = before K @ inorder a @ inorder b @ after K"
      unfolding left_path_fill [of ps "InR K a m c" t] b by (simp add: inorder_fill before_left_path)
    ultimately show ?thesis
      using erase_finish [OF BC _ Rs, of "rb_color st m"] unfolding e color_black by simp
  qed
qed

text \<open>
  (C2) Erasing from a red-black tree.  When the heap holds a red-black tree with the node \<open>x\<close>, then \<open>rb_erase\<close> of \<open>x\<close>
  returns, without following a null pointer; the heap holds a red-black tree again, its order is the old one
  without \<open>x\<close>, and no node outside the new tree is written, the erased one included.
\<close>

theorem rb_erase_correct:
  assumes "rep (nodes st) st T" "red_black_tree T" "x \<in> set (inorder T)"
  shows "\<exists>st' T'. rb_erase x st = Some st' \<and> rep (nodes st) st' T' \<and> red_black_tree T' \<and>
           inorder T' = remove1 x (inorder T)"
proof -
  obtain K a c b where T: "T = fill K (Node a x c b)" using focus_on [OF assms(3)] by blast
  have "distinct (inorder T)" using assms(1) by (simp add: rep_def)
  then have "remove1 x (inorder T) = before K @ inorder a @ inorder b @ after K"
    unfolding T inorder_fill by (simp add: remove1_append)
  then show ?thesis using erase_focus [of st K a x c b] assms(1,2) unfolding T by simp
qed

theorem rb_erase_correct_witness:
  "\<exists>st' T'. rb_erase 8 three_nodes = Some st' \<and> rep (nodes three_nodes) st' T' \<and> red_black_tree T' \<and>
     inorder T' = [4, 12]"
  using rb_erase_correct [OF three_nodes_rep, of 8] by (simp add: red_black_tree_def)

end
