(* ===== verification/Rbtree_Iter.thy ===== *)
theory Rbtree_Iter
  imports Rbtree_Erase
begin

text \<open>
  Walking a red-black tree: \<open>rb_first\<close>, \<open>rb_last\<close>, \<open>rb_next\<close> and \<open>rb_prev\<close> give the order, the walk of the augmented trees
  reaches every ancestor, and the height is logarithmic.
\<close>

section \<open>Descending\<close>

fun head_or_null :: "ptr list \<Rightarrow> ptr" where
  "head_or_null [] = NULL"
| "head_or_null (x # xs) = x"

lemma head_or_null_append: "head_or_null (xs @ ys) = (if xs = [] then head_or_null ys else head_or_null xs)"
  by (cases xs) simp_all

lemma inorder_Nil: "inorder t = [] \<longleftrightarrow> t = Leaf"
  by (cases t) simp_all

lemma leftmost_correct:
  assumes "rep F st (fill K t)" "t \<noteq> Leaf"
  shows "leftmost st (rootp t) = Some (head_or_null (inorder t))"
proof -
  obtain ps m d r where t: "t = fill (left_path ps Top) (Node Leaf m d r)" and "leftmost st (rootp t) = Some m"
    using leftmost_path [OF assms] by blast
  moreover have "inorder t = m # inorder r @ after (left_path ps Top)"
    unfolding t by (simp add: inorder_fill before_left_path)
  ultimately show ?thesis by simp
qed

lemma rightmost_correct:
  assumes "rep F st (fill K t)" "t \<noteq> Leaf"
  shows "rightmost st (rootp t) = Some (head_or_null (rev (inorder t)))"
  using assms
proof (induction t arbitrary: K)
  case (Node l y c r)
  have y: "right_of st y = rootp r" using rep_node(4) [OF Node.prems(1)] .
  have R: "rep F st (fill (InR K l y c) r)" using Node.prems(1) by simp
  show ?case
  proof (cases "r = Leaf")
    case True
    then show ?thesis using y by (subst rightmost.simps) simp
  next
    case False
    then show ?thesis using y Node.IH(2) [OF R False] rep_rootp [OF R]
      by (subst rightmost.simps) (simp add: head_or_null_append inorder_Nil)
  qed
qed simp

section \<open>Climbing\<close>

lemma rep_up_neq: "rep F st (fill K (Node a x c b)) \<Longrightarrow> up K \<noteq> x"
  using rep_distinct [of F st K] rep_node(1) [of F st K] by (cases K) fastforce+

lemma climb_right_correct:
  "rep F st (fill K (Node a x c b)) \<Longrightarrow> climb_right st x = Some (head_or_null (after K))"
proof (induction K arbitrary: a x c b)
  case Top
  then show ?case using rep_node(5) [OF Top] by (subst climb_right.simps) simp
next
  case (InL K p d r)
  have "rb_parent st x = p" "node_ok x" using rep_node [OF InL.prems] by simp_all
  moreover have "right_of st p = rootp r" using rep_node(4) [of F st K "Node a x c b" p d r] InL.prems by simp
  moreover have "rootp r \<noteq> x" using rep_distinct [OF InL.prems] rootp_in [of r] calculation(2) by auto
  ultimately show ?case by (subst climb_right.simps) simp
next
  case (InR K l p d)
  have "rb_parent st x = p" using rep_node [OF InR.prems] by simp
  moreover have "right_of st p = x" "node_ok p" using rep_node(1,4) [of F st K l p d "Node a x c b"] InR.prems by simp_all
  ultimately have "climb_right st x = climb_right st p" by (subst climb_right.simps) simp
  then show ?case using InR.IH [of l p d "Node a x c b"] InR.prems by simp
qed

lemma climb_left_correct:
  "rep F st (fill K (Node a x c b)) \<Longrightarrow> climb_left st x = Some (head_or_null (rev (before K)))"
proof (induction K arbitrary: a x c b)
  case Top
  then show ?case using rep_node(5) [OF Top] by (subst climb_left.simps) simp
next
  case (InR K l p d)
  have "rb_parent st x = p" "node_ok x" using rep_node [OF InR.prems] by simp_all
  moreover have "left_of st p = rootp l" using rep_node(3) [of F st K l p d "Node a x c b"] InR.prems by simp
  moreover have "rootp l \<noteq> x" using rep_distinct [OF InR.prems] rootp_in [of l] calculation(2) by auto
  ultimately show ?case by (subst climb_left.simps) simp
next
  case (InL K p d r)
  have "rb_parent st x = p" using rep_node [OF InL.prems] by simp
  moreover have "left_of st p = x" "node_ok p" using rep_node(1,3) [of F st K "Node a x c b" p d r] InL.prems by simp_all
  ultimately have "climb_left st x = climb_left st p" by (subst climb_left.simps) simp
  then show ?case using InL.IH [of "Node a x c b" p d r] InL.prems by simp
qed

section \<open>The order\<close>

lemma next_focus:
  assumes R: "rep F st (fill K (Node a x c b))"
  shows "rb_next st x = Some (head_or_null (inorder b @ after K))"
    and "rb_prev st x = Some (head_or_null (rev (before K @ inorder a)))"
proof -
  have x: "rb_parent st x = up K" "right_of st x = rootp b" "left_of st x = rootp a" using rep_node [OF R] by simp_all
  have A: "rep F st (fill (InL K x c b) a)" and B: "rep F st (fill (InR K a x c) b)" using R by simp_all
  show "rb_next st x = Some (head_or_null (inorder b @ after K))"
    using x rep_up_neq [OF R] leftmost_correct [OF B] climb_right_correct [OF R] rep_rootp [OF B]
    by (simp add: rb_next_def head_or_null_append inorder_Nil)
  show "rb_prev st x = Some (head_or_null (rev (before K @ inorder a)))"
    using x rep_up_neq [OF R] rightmost_correct [OF A] climb_left_correct [OF R] rep_rootp [OF A]
    by (simp add: rb_prev_def head_or_null_append inorder_Nil)
qed

lemma first_last:
  assumes R: "rep F st T"
  shows "rb_first st = Some (head_or_null (inorder T))" "rb_last st = Some (head_or_null (rev (inorder T)))"
proof -
  have r: "rb_root st = rootp T" using R unfolding rep_def by (auto dest: tree_at_rootp)
  have P: "rep F st (fill Top T)" using R by simp
  show "rb_first st = Some (head_or_null (inorder T))" "rb_last st = Some (head_or_null (rev (inorder T)))"
    using leftmost_correct [OF P] rightmost_correct [OF P] rep_rootp [OF P] r
    by (auto simp: rb_first_def rb_last_def)
qed

lemma next_in_order:
  assumes R: "rep F st T" and io: "inorder T = xs @ x # ys"
  shows "rb_next st x = Some (head_or_null ys)" "rb_prev st x = Some (head_or_null (rev xs))"
proof -
  obtain K a c b where T: "T = fill K (Node a x c b)" using io focus_on [of x T] by auto
  have "distinct (inorder T)" using R by (simp add: rep_def)
  then have "x \<notin> set xs" "x \<notin> set ys" using io by simp_all
  then have "xs = before K @ inorder a" "ys = inorder b @ after K"
    using io append_Cons_eq_iff [of x xs ys "before K @ inorder a" "inorder b @ after K"]
    unfolding T inorder_fill by auto
  then show "rb_next st x = Some (head_or_null ys)" "rb_prev st x = Some (head_or_null (rev xs))"
    using next_focus [of F st K a x c b] R T by simp_all
qed

text \<open>
  (C3) Walking a tree.  When the heap holds a tree of aligned nodes, \<open>rb_first\<close> and \<open>rb_last\<close> return the ends of its
  order, null for an empty tree, and for every node of the tree \<open>rb_next\<close> returns the one after it in the order and
  \<open>rb_prev\<close> the one before it, null at the ends: the loop over \<open>rb_first\<close> and \<open>rb_next\<close> sees every node once, in order.
\<close>

theorem rb_walk_correct:
  assumes "rep F st T"
  shows "rb_first st = Some (head_or_null (inorder T)) \<and> rb_last st = Some (head_or_null (rev (inorder T))) \<and>
    (\<forall>xs x ys. inorder T = xs @ x # ys \<longrightarrow>
       rb_next st x = Some (head_or_null ys) \<and> rb_prev st x = Some (head_or_null (rev xs)))"
  using first_last [OF assms] next_in_order [OF assms] by simp

theorem rb_walk_correct_witness:
  "rb_first three_nodes = Some 4 \<and> rb_next three_nodes 4 = Some 8 \<and> rb_next three_nodes 12 = Some NULL"
  using rb_walk_correct [OF three_nodes_rep] by (auto dest: spec [of _ "[]"] spec [of _ "[4, 8]"])

section \<open>The augmented walk\<close>

text \<open>The nodes the walk upwards hands to the callback after the one it starts with.\<close>

fun augmented :: "ctx \<Rightarrow> ptr \<Rightarrow> ptr list" where
  "augmented Top x = []"
| "augmented (InL K p c s) x = (if s \<noteq> Leaf then rootp s else x) # p # augmented K p"
| "augmented (InR K s p c) x = (if s \<noteq> Leaf then [rootp s] else []) @ p # augmented K p"

lemma augment_path_correct:
  "rep F st (fill K (Node a x c b)) \<Longrightarrow> rb_augment_path st f x d = Some (fold f (x # augmented K x) d)"
proof (induction K arbitrary: a x c b d)
  case Top
  then show ?case using rep_node(5) [OF Top] by (subst rb_augment_path.simps) simp
next
  case (InL K p e s)
  have x: "rb_parent st x = p" "node_ok x" using rep_node [OF InL.prems] by simp_all
  have p: "node_ok p" "left_of st p = x" "right_of st p = rootp s"
    using rep_node [of F st K "Node a x c b" p e s] InL.prems by simp_all
  have s: "rootp s = NULL \<longleftrightarrow> s = Leaf" using rep_rootp [of F st "InR K (Node a x c b) p e" s] InL.prems by simp
  show ?case
    using x p s InL.IH [of "Node a x c b" p e s] InL.prems by (subst rb_augment_path.simps) simp
next
  case (InR K s p e)
  have x: "rb_parent st x = p" "node_ok x" using rep_node [OF InR.prems] by simp_all
  have p: "node_ok p" "right_of st p = x" "left_of st p = rootp s"
    using rep_node [of F st K s p e "Node a x c b"] InR.prems by simp_all
  have s: "rootp s = NULL \<longleftrightarrow> s = Leaf" using rep_rootp [of F st "InL K p e (Node a x c b)" s] InR.prems by simp
  have "rootp s \<noteq> x" using rep_distinct [OF InR.prems] rootp_in [of s] x(2) by auto
  then show ?case
    using x p s InR.IH [of s p e "Node a x c b"] InR.prems by (subst rb_augment_path.simps) simp
qed

section \<open>The height\<close>

fun height :: "rbt \<Rightarrow> nat" where
  "height Leaf = 0"
| "height (Node l x c r) = Suc (max (height l) (height r))"

lemma height_bheight: "invc t \<Longrightarrow> invh t \<Longrightarrow> height t \<le> 2 * bheight t + (if is_red t then 1 else 0)"
  by (induction t) (auto split: if_splits)

lemma bheight_size: "invh t \<Longrightarrow> 2 ^ bheight t \<le> Suc (length (inorder t))"
  by (induction t) auto

lemma red_black_height:
  assumes "red_black_tree t"
  shows "2 ^ (height t div 2) \<le> Suc (length (inorder t))"
proof -
  have "height t div 2 \<le> bheight t" using height_bheight [of t] assms by (simp add: red_black_tree_def)
  then have "(2 :: nat) ^ (height t div 2) \<le> 2 ^ bheight t" by (intro power_increasing) simp_all
  also have "\<dots> \<le> Suc (length (inorder t))" using bheight_size assms by (simp add: red_black_tree_def)
  finally show ?thesis .
qed

end
