(* ===== verification/Elevator_Rb.thy ===== *)
theory Elevator_Rb
  imports Elevator Rbtree_Iter
begin

text \<open>
  Requests in a red-black tree ordered by their first sector, \<open>elv_rb_add\<close>, \<open>elv_rb_del\<close> and \<open>elv_rb_find\<close> of
  \<open>block/elevator.c\<close>.  The \<open>rb_node\<close> of a request has the name of the request.

  The lemmas describe a tree by the list of its requests, so that a scheduler never looks at nodes.
\<close>

section \<open>Operations\<close>

fun read_link :: "rb_link \<Rightarrow> rb_tree \<Rightarrow> ptr" where
  "read_link Root_Link st = rb_root st"
| "read_link (Left_Link x) st = left_of st x"
| "read_link (Right_Link x) st = right_of st x"

partial_function (option) elv_rb_add_loop ::
    "(ptr \<Rightarrow> request) \<Rightarrow> ptr \<Rightarrow> rb_link \<Rightarrow> ptr \<Rightarrow> rb_tree \<Rightarrow> (ptr + rb_link \<times> ptr) option" where
  "elv_rb_add_loop rs rq p parent st =
     (let n = read_link p st in
      if n = NULL then Some (Inr (p, parent))
      else if blk_rq_pos (rs rq) < blk_rq_pos (rs n) then elv_rb_add_loop rs rq (Left_Link n) n st
      else if blk_rq_pos (rs rq) > blk_rq_pos (rs n) then elv_rb_add_loop rs rq (Right_Link n) n st
      else Some (Inl n))"

definition elv_rb_add :: "(ptr \<Rightarrow> request) \<Rightarrow> rb_tree \<Rightarrow> ptr \<Rightarrow> (ptr \<times> rb_tree) option" where
  "elv_rb_add rs st rq =
     Option.bind (elv_rb_add_loop rs rq Root_Link NULL st) (\<lambda>res.
       case res of
         Inl alias \<Rightarrow> Some (alias, st)
       | Inr (p, parent) \<Rightarrow> map_option (Pair NULL) (rb_insert_color rq (rb_link_node rq parent p st)))"

text \<open>\<open>None\<close> also when the \<open>BUG_ON\<close> fires.\<close>

definition elv_rb_del :: "rb_tree \<Rightarrow> ptr \<Rightarrow> rb_tree option" where
  "elv_rb_del st rq = (if RB_EMPTY_NODE st rq then None else map_option (RB_CLEAR_NODE rq) (rb_erase rq st))"

partial_function (option) elv_rb_find_loop :: "(ptr \<Rightarrow> request) \<Rightarrow> rb_tree \<Rightarrow> sector \<Rightarrow> ptr \<Rightarrow> ptr option" where
  "elv_rb_find_loop rs st sector n =
     (if n = NULL then Some NULL
      else if sector < blk_rq_pos (rs n) then elv_rb_find_loop rs st sector (left_of st n)
      else if sector > blk_rq_pos (rs n) then elv_rb_find_loop rs st sector (right_of st n)
      else Some n)"

definition elv_rb_find :: "(ptr \<Rightarrow> request) \<Rightarrow> rb_tree \<Rightarrow> sector \<Rightarrow> ptr option" where
  "elv_rb_find rs st sector = elv_rb_find_loop rs st sector (rb_root st)"

text \<open>The neighbours in the tree; the root is not looked at.\<close>

definition elv_rb_former_request :: "'e request_queue \<Rightarrow> ptr \<Rightarrow> ptr option" where
  "elv_rb_former_request q rq = rb_prev \<lparr>nodes = rb_nodes q, rb_root = NULL\<rparr> rq"

definition elv_rb_latter_request :: "'e request_queue \<Rightarrow> ptr \<Rightarrow> ptr option" where
  "elv_rb_latter_request q rq = rb_next \<lparr>nodes = rb_nodes q, rb_root = NULL\<rparr> rq"

section \<open>A tree as a list of requests\<close>

definition rb_list :: "rb_tree \<Rightarrow> ptr list \<Rightarrow> bool" where
  "rb_list st xs \<longleftrightarrow> (\<exists>T. rep (nodes st) st T \<and> red_black_tree T \<and> inorder T = xs)"

definition by_pos :: "(ptr \<Rightarrow> request) \<Rightarrow> ptr list \<Rightarrow> bool" where
  "by_pos rs = sorted_wrt (\<lambda>x y. blk_rq_pos (rs x) < blk_rq_pos (rs y))"

lemma rb_list_distinct: "rb_list st xs \<Longrightarrow> distinct xs"
  by (auto simp: rb_list_def rep_def)

lemma rb_list_ok: "rb_list st xs \<Longrightarrow> x \<in> set xs \<Longrightarrow> node_ok x"
  by (auto simp: rb_list_def rep_def dest: tree_at_ok)

lemma tree_at_unique: "tree_at st p pr t \<Longrightarrow> tree_at st p pr t' \<Longrightarrow> t' = t"
proof (induction t arbitrary: p pr t')
  case Leaf
  then show ?case by (cases t') auto
next
  case (Node l x c r)
  then obtain l' c' r' where t': "t' = Node l' x c' r'" by (cases t') auto
  have "c' = c" using Node.prems t' by (cases c; cases c') auto
  moreover have "l' = l" by (rule Node.IH(1) [of "left_of st x" x]) (use Node.prems t' in auto)
  moreover have "r' = r" by (rule Node.IH(2) [of "right_of st x" x]) (use Node.prems t' in auto)
  ultimately show ?case using t' by simp
qed

lemma rb_list_unique: "rb_list st xs \<Longrightarrow> rb_list st ys \<Longrightarrow> ys = xs"
  unfolding rb_list_def rep_def using tree_at_unique by blast

lemma rb_list_empty: "rb_list st xs \<Longrightarrow> RB_EMPTY_ROOT st \<longleftrightarrow> xs = []"
proof -
  assume "rb_list st xs"
  then obtain T where T: "rep (nodes st) st T" "inorder T = xs" by (auto simp: rb_list_def)
  then have "tree_at st (rb_root st) NULL T" by (simp add: rep_def)
  then show ?thesis using T(2) tree_at_root(1) inorder_Nil [of T] by (simp add: RB_EMPTY_ROOT_def)
qed

lemma rb_list_Nil: "rb_root st = NULL \<Longrightarrow> rb_list st []"
  unfolding rb_list_def by (intro exI [of _ Leaf]) (simp add: rep_def red_black_tree_def)

text \<open>A tree does not depend on nodes outside it, so that two trees can share the nodes.\<close>

lemma rb_list_frame:
  assumes "rb_list st xs" "\<And>z. z \<in> set xs \<Longrightarrow> nodes st' z = nodes st z" "rb_root st' = rb_root st"
  shows "rb_list st' xs"
proof -
  obtain T where T: "rep (nodes st) st T" "red_black_tree T" "inorder T = xs" using assms(1) by (auto simp: rb_list_def)
  have "rep (nodes st') st' T"
    by (rule rep_cong [OF T(1)]) (use assms(2,3) T(3) in \<open>simp_all add: agree_def rb_parent_def rb_is_red_def rb_color_def\<close>)
  then show ?thesis using T by (auto simp: rb_list_def)
qed

lemma rep_rb_list:
  assumes "rep F st T" "red_black_tree T"
  shows "rb_list st (inorder T)"
  using assms rep_cong [OF assms(1), of st "nodes st"] by (auto simp: rb_list_def)

text \<open>The root is not looked at by the walk.\<close>

lemma leftmost_root:
  assumes "leftmost st n = Some y"
  shows "leftmost (st\<lparr>rb_root := p\<rparr>) n = Some y"
  by (rule leftmost.raw_induct [OF _ assms]) (subst leftmost.simps, auto simp: access_root Let_def split: if_splits)

lemma rightmost_root:
  assumes "rightmost st n = Some y"
  shows "rightmost (st\<lparr>rb_root := p\<rparr>) n = Some y"
  by (rule rightmost.raw_induct [OF _ assms]) (subst rightmost.simps, auto simp: access_root Let_def split: if_splits)

lemma climb_right_root:
  assumes "climb_right st n = Some y"
  shows "climb_right (st\<lparr>rb_root := p\<rparr>) n = Some y"
  by (rule climb_right.raw_induct [OF _ assms]) (subst climb_right.simps, auto simp: access_root Let_def split: if_splits)

lemma climb_left_root:
  assumes "climb_left st n = Some y"
  shows "climb_left (st\<lparr>rb_root := p\<rparr>) n = Some y"
  by (rule climb_left.raw_induct [OF _ assms]) (subst climb_left.simps, auto simp: access_root Let_def split: if_splits)

lemma rb_list_next:
  assumes "rb_list st (xs @ x # ys)"
  shows "rb_next (st\<lparr>rb_root := p\<rparr>) x = Some (head_or_null ys)" "rb_prev (st\<lparr>rb_root := p\<rparr>) x = Some (head_or_null (rev xs))"
proof -
  obtain T where T: "rep (nodes st) st T" "inorder T = xs @ x # ys" using assms by (auto simp: rb_list_def)
  then have "rb_next st x = Some (head_or_null ys)" "rb_prev st x = Some (head_or_null (rev xs))"
    using next_in_order [OF T] by simp_all
  then show "rb_next (st\<lparr>rb_root := p\<rparr>) x = Some (head_or_null ys)"
    "rb_prev (st\<lparr>rb_root := p\<rparr>) x = Some (head_or_null (rev xs))"
    by (auto simp: rb_next_def rb_prev_def access_root leftmost_root rightmost_root climb_right_root climb_left_root
        split: if_splits)
qed

section \<open>Descending\<close>

lemma read_link_of: "rep F st (fill K t) \<Longrightarrow> read_link (link_of K) st = rootp t"
  unfolding rep_fill by (cases K) auto

lemma by_pos_append:
  "by_pos rs (xs @ ys) \<longleftrightarrow> by_pos rs xs \<and> by_pos rs ys \<and> (\<forall>x\<in>set xs. \<forall>y\<in>set ys. blk_rq_pos (rs x) < blk_rq_pos (rs y))"
  by (simp add: by_pos_def sorted_wrt_append)

lemma by_pos_Cons:
  "by_pos rs (x # ys) \<longleftrightarrow> (\<forall>y\<in>set ys. blk_rq_pos (rs x) < blk_rq_pos (rs y)) \<and> by_pos rs ys"
  by (auto simp: by_pos_def)

lemma add_loop_correct:
  assumes "rep F st (fill K t)" "by_pos rs (inorder t)"
    and "\<forall>y\<in>set (before K). blk_rq_pos (rs y) < blk_rq_pos (rs rq)" "\<forall>y\<in>set (after K). blk_rq_pos (rs rq) < blk_rq_pos (rs y)"
  shows "(\<exists>a. elv_rb_add_loop rs rq (link_of K) (up K) st = Some (Inl a) \<and> a \<in> set (inorder t) \<and>
            blk_rq_pos (rs a) = blk_rq_pos (rs rq)) \<or>
    (\<exists>K'. elv_rb_add_loop rs rq (link_of K) (up K) st = Some (Inr (link_of K', up K')) \<and> fill K' Leaf = fill K t \<and>
       (\<forall>y\<in>set (before K'). blk_rq_pos (rs y) < blk_rq_pos (rs rq)) \<and> (\<forall>y\<in>set (after K'). blk_rq_pos (rs rq) < blk_rq_pos (rs y)))"
  using assms
proof (induction t arbitrary: K)
  case Leaf
  then have "elv_rb_add_loop rs rq (link_of K) (up K) st = Some (Inr (link_of K, up K))"
    using read_link_of [OF Leaf(1)] by (subst elv_rb_add_loop.simps) simp
  then show ?case using Leaf.prems(3,4) by blast
next
  case (Node l x c r)
  have x: "node_ok x" using rep_node(1) [OF Node.prems(1)] .
  note b = Node.prems(2) [unfolded inorder.simps by_pos_append by_pos_Cons]
  consider "blk_rq_pos (rs rq) < blk_rq_pos (rs x)" | "blk_rq_pos (rs x) < blk_rq_pos (rs rq)" | "blk_rq_pos (rs x) = blk_rq_pos (rs rq)"
    by (rule linorder_cases)
  then show ?case
  proof cases
    case 1
    have "elv_rb_add_loop rs rq (link_of K) (up K) st = elv_rb_add_loop rs rq (link_of (InL K x c r)) (up (InL K x c r)) st"
      using read_link_of [OF Node.prems(1)] x 1 by (subst elv_rb_add_loop.simps) simp
    moreover have "\<forall>y\<in>set (after (InL K x c r)). blk_rq_pos (rs rq) < blk_rq_pos (rs y)"
      using 1 b Node.prems(4) by (auto intro: less_trans)
    ultimately show ?thesis using Node.IH(1) [of "InL K x c r"] Node.prems(1,3) b by auto
  next
    case 2
    then have "elv_rb_add_loop rs rq (link_of K) (up K) st = elv_rb_add_loop rs rq (link_of (InR K l x c)) (up (InR K l x c)) st"
      using read_link_of [OF Node.prems(1)] x by (subst elv_rb_add_loop.simps) (auto dest: less_asym)
    moreover have "\<forall>y\<in>set (before (InR K l x c)). blk_rq_pos (rs y) < blk_rq_pos (rs rq)"
      using 2 b Node.prems(3) by (auto intro: less_trans)
    ultimately show ?thesis using Node.IH(2) [of "InR K l x c"] Node.prems(1,4) b by auto
  next
    case 3
    then have "elv_rb_add_loop rs rq (link_of K) (up K) st = Some (Inl x)"
      using read_link_of [OF Node.prems(1)] x by (subst elv_rb_add_loop.simps) simp
    then show ?thesis using 3 by simp
  qed
qed

lemma find_loop_correct:
  assumes "rep F st (fill K t)" "by_pos rs (inorder t)"
  shows "\<exists>n. elv_rb_find_loop rs st s (rootp t) = Some n \<and>
    (if n = NULL then \<forall>x\<in>set (inorder t). blk_rq_pos (rs x) \<noteq> s else n \<in> set (inorder t) \<and> blk_rq_pos (rs n) = s)"
  using assms
proof (induction t arbitrary: K)
  case Leaf
  then show ?case by (subst elv_rb_find_loop.simps) simp
next
  case (Node l x c r)
  have x: "node_ok x" "left_of st x = rootp l" "right_of st x = rootp r" using rep_node [OF Node.prems(1)] by simp_all
  note b = Node.prems(2) [unfolded inorder.simps by_pos_append by_pos_Cons]
  consider "s < blk_rq_pos (rs x)" | "blk_rq_pos (rs x) < s" | "blk_rq_pos (rs x) = s" by (rule linorder_cases)
  then show ?case
  proof cases
    case 1
    then have "elv_rb_find_loop rs st s (rootp (Node l x c r)) = elv_rb_find_loop rs st s (rootp l)"
      using x by (subst elv_rb_find_loop.simps) simp
    moreover obtain n where n: "elv_rb_find_loop rs st s (rootp l) = Some n"
      "if n = NULL then \<forall>x\<in>set (inorder l). blk_rq_pos (rs x) \<noteq> s else n \<in> set (inorder l) \<and> blk_rq_pos (rs n) = s"
      using Node.IH(1) [of "InL K x c r"] Node.prems(1) b by auto
    moreover have "\<forall>y\<in>set (x # inorder r). blk_rq_pos (rs y) \<noteq> s" using 1 b by fastforce
    ultimately show ?thesis by (auto split: if_splits)
  next
    case 2
    then have "elv_rb_find_loop rs st s (rootp (Node l x c r)) = elv_rb_find_loop rs st s (rootp r)"
      using x by (subst elv_rb_find_loop.simps) (auto dest: less_asym)
    moreover obtain n where n: "elv_rb_find_loop rs st s (rootp r) = Some n"
      "if n = NULL then \<forall>x\<in>set (inorder r). blk_rq_pos (rs x) \<noteq> s else n \<in> set (inorder r) \<and> blk_rq_pos (rs n) = s"
      using Node.IH(2) [of "InR K l x c"] Node.prems(1) b by auto
    moreover have "\<forall>y\<in>set (inorder l @ [x]). blk_rq_pos (rs y) \<noteq> s" using 2 b by fastforce
    ultimately show ?thesis by (auto split: if_splits)
  next
    case 3
    then have "elv_rb_find_loop rs st s (rootp (Node l x c r)) = Some x"
      using x by (subst elv_rb_find_loop.simps) simp
    then show ?thesis using 3 x(1) by simp
  qed
qed

section \<open>The operations on lists of requests\<close>

lemma by_pos_cong: "(\<And>x. blk_rq_pos (rs' x) = blk_rq_pos (rs x)) \<Longrightarrow> by_pos rs' xs = by_pos rs xs"
  by (simp add: by_pos_def)

lemma by_pos_upd: "r \<notin> set xs \<Longrightarrow> by_pos (rqs (upd_rq r f q)) xs = by_pos (rqs q) xs"
proof (induction xs)
  case (Cons x xs)
  then have "(\<forall>y\<in>set xs. blk_rq_pos (rqs (upd_rq r f q) x) < blk_rq_pos (rqs (upd_rq r f q) y)) \<longleftrightarrow>
      (\<forall>y\<in>set xs. blk_rq_pos (rqs q x) < blk_rq_pos (rqs q y))"
    by (intro ball_cong) (auto simp: upd_rq_def)
  then show ?case using Cons by (simp add: by_pos_Cons)
qed (simp add: by_pos_def)

lemma by_pos_remove:
  "by_pos rs (ys @ r # zs) \<Longrightarrow> by_pos rs (ys @ zs)"
  by (auto simp: by_pos_append by_pos_Cons)

lemma by_pos_remove1: "by_pos rs xs \<Longrightarrow> by_pos rs (remove1 r xs)"
proof (induction xs)
  case (Cons x xs)
  then show ?case using set_remove1_subset [of r xs] by (auto simp: by_pos_Cons)
qed simp

lemma by_pos_unique:
  assumes "by_pos rs xs" "x \<in> set xs" "y \<in> set xs" "blk_rq_pos (rs x) = blk_rq_pos (rs y)"
  shows "x = y"
  using assms
proof (induction xs)
  case (Cons a xs)
  then show ?case unfolding by_pos_Cons by (metis order_less_irrefl set_ConsD)
qed simp

lemma elv_rb_add_cases:
  assumes l: "rb_list st xs" and b: "by_pos rs xs" and rq: "node_ok rq" "rq \<notin> set xs"
  shows "(\<exists>a. elv_rb_add rs st rq = Some (a, st) \<and> a \<in> set xs \<and> blk_rq_pos (rs a) = blk_rq_pos (rs rq)) \<or>
    (\<exists>st' ys zs. elv_rb_add rs st rq = Some (NULL, st') \<and> xs = ys @ zs \<and> rb_list st' (ys @ rq # zs) \<and>
       by_pos rs (ys @ rq # zs) \<and> (\<forall>z. z \<notin> set (rq # xs) \<longrightarrow> nodes st' z = nodes st z))"
proof -
  obtain T where T: "rep (nodes st) st T" "red_black_tree T" "inorder T = xs" using l by (auto simp: rb_list_def)
  have R: "rep (nodes st) st (fill Top T)" using T(1) by simp
  have "(\<exists>a. elv_rb_add_loop rs rq Root_Link NULL st = Some (Inl a) \<and> a \<in> set xs \<and> blk_rq_pos (rs a) = blk_rq_pos (rs rq)) \<or>
    (\<exists>K. elv_rb_add_loop rs rq Root_Link NULL st = Some (Inr (link_of K, up K)) \<and> fill K Leaf = T \<and>
       (\<forall>y\<in>set (before K). blk_rq_pos (rs y) < blk_rq_pos (rs rq)) \<and> (\<forall>y\<in>set (after K). blk_rq_pos (rs rq) < blk_rq_pos (rs y)))"
    using add_loop_correct [OF R, of rs rq] b T(3)
    by (simp only: fill.simps before.simps after.simps link_of.simps up.simps list.set ball_empty simp_thms)
  then consider a where "elv_rb_add_loop rs rq Root_Link NULL st = Some (Inl a)" "a \<in> set xs" "blk_rq_pos (rs a) = blk_rq_pos (rs rq)"
    | K where "elv_rb_add_loop rs rq Root_Link NULL st = Some (Inr (link_of K, up K))" "fill K Leaf = T"
      "\<forall>y\<in>set (before K). blk_rq_pos (rs y) < blk_rq_pos (rs rq)" "\<forall>y\<in>set (after K). blk_rq_pos (rs rq) < blk_rq_pos (rs y)"
    by blast
  then show ?thesis
  proof cases
    case 1
    then show ?thesis by (auto simp: elv_rb_add_def)
  next
    case 2
    have xs: "xs = before K @ after K" using 2(2) T(3) inorder_fill [of K Leaf] by simp
    have "red_black_tree (fill K Leaf)" using T(2) 2(2) by simp
    then have k: "ctx_inv K 0" unfolding red_black_fill by simp
    have R: "rep (nodes st) (rb_link_node rq (up K) (link_of K) st) (fill K (Node Leaf rq Red Leaf))"
      by (rule rep_link_node) (use T 2(2) rq in auto)
    obtain st' where st': "rb_insert_color rq (rb_link_node rq (up K) (link_of K) st) = Some st'"
      "rep (nodes st) st' (blacken (fixup K (Node Leaf rq Red Leaf)))"
      using insert_color_fixup [OF R _ k] by auto
    have io: "inorder (blacken (fixup K (Node Leaf rq Red Leaf))) = before K @ rq # after K"
      by (simp add: inorder_fixup inorder_fill)
    have "red_black_tree (blacken (fixup K (Node Leaf rq Red Leaf)))" by (rule red_black_fixup) (use k in simp_all)
    then have "rb_list st' (before K @ rq # after K)" using rep_rb_list [OF st'(2)] io by simp
    moreover have "nodes st' z = nodes st z" if "z \<notin> set (rq # xs)" for z
      using st'(2) that io xs unfolding rep_def by auto
    moreover have "by_pos rs (before K @ rq # after K)"
      using b 2(3,4) unfolding xs by_pos_append by_pos_Cons by auto
    ultimately show ?thesis using 2(1) st'(1) xs by (auto simp: elv_rb_add_def)
  qed
qed

lemma elv_rb_add_new:
  assumes "rb_list st xs" "by_pos rs xs" "node_ok rq" "rq \<notin> set xs" "\<forall>x\<in>set xs. blk_rq_pos (rs x) \<noteq> blk_rq_pos (rs rq)"
  shows "\<exists>st' ys zs. elv_rb_add rs st rq = Some (NULL, st') \<and> xs = ys @ zs \<and> rb_list st' (ys @ rq # zs) \<and>
       by_pos rs (ys @ rq # zs) \<and> (\<forall>z. z \<notin> set (rq # xs) \<longrightarrow> nodes st' z = nodes st z)"
  using elv_rb_add_cases [OF assms(1-4)] assms(5) by blast

lemma elv_rb_add_alias:
  assumes "rb_list st xs" "by_pos rs xs" "node_ok rq" "rq \<notin> set xs" "a \<in> set xs" "blk_rq_pos (rs a) = blk_rq_pos (rs rq)"
  shows "elv_rb_add rs st rq = Some (a, st)"
proof -
  have "\<not> by_pos rs (ys @ rq # zs)" if "xs = ys @ zs" for ys zs
    using assms(5,6) that unfolding by_pos_append by_pos_Cons by (metis Un_iff order_less_irrefl set_append list.set_intros(1))
  then obtain a' where "elv_rb_add rs st rq = Some (a', st)" "a' \<in> set xs" "blk_rq_pos (rs a') = blk_rq_pos (rs rq)"
    using elv_rb_add_cases [OF assms(1-4)] by blast
  then show ?thesis using by_pos_unique [OF assms(2), of a' a] assms(5,6) by simp
qed

lemma rb_list_not_empty_node: "rb_list st xs \<Longrightarrow> x \<in> set xs \<Longrightarrow> \<not> RB_EMPTY_NODE st x"
proof -
  assume "rb_list st xs" "x \<in> set xs"
  then obtain T where T: "rep (nodes st) st T" "inorder T = xs" by (auto simp: rb_list_def)
  then obtain K a c b where K: "T = fill K (Node a x c b)" using focus_on \<open>x \<in> set xs\<close> by blast
  then show ?thesis using rep_up_neq [of "nodes st" st K a x c b] rep_node(5) [of "nodes st" st K a x c b] T(1)
    by (simp add: RB_EMPTY_NODE_def)
qed

lemma elv_rb_del_ok:
  assumes l: "rb_list st xs" and x: "x \<in> set xs"
  shows "\<exists>st'. elv_rb_del st x = Some st' \<and> rb_list st' (remove1 x xs) \<and> RB_EMPTY_NODE st' x \<and>
    (\<forall>z. z \<notin> set xs \<longrightarrow> nodes st' z = nodes st z)"
proof -
  obtain T where T: "rep (nodes st) st T" "red_black_tree T" "inorder T = xs" using l by (auto simp: rb_list_def)
  obtain K a c b where K: "T = fill K (Node a x c b)" using focus_on x T(3) by blast
  obtain st' T' where st': "rb_erase x st = Some st'" "rep (nodes st) st' T'" "red_black_tree T'"
    "inorder T' = before K @ inorder a @ inorder b @ after K"
    using erase_focus [of st K a x c b] T K by blast
  have d: "distinct xs" using rb_list_distinct [OF l] .
  then have io: "inorder T' = remove1 x xs" using st'(4) T(3) unfolding K inorder_fill by (auto simp: remove1_append)
  have al: "ptr_al x" using rb_list_ok [OF l x] by simp
  let ?s = "RB_CLEAR_NODE x st'"
  have f: "nodes ?s z = nodes st' z" if "z \<noteq> x" for z using that by (simp add: RB_CLEAR_NODE_def node_frame)
  have "rb_list ?s (remove1 x xs)"
  proof (rule rb_list_frame [OF rep_rb_list [OF st'(2,3), unfolded io]])
    show "nodes ?s z = nodes st' z" if "z \<in> set (remove1 x xs)" for z by (rule f) (use that d in auto)
  qed (simp add: RB_CLEAR_NODE_def access_set_parent)
  moreover have "RB_EMPTY_NODE ?s x" using al by (simp add: RB_EMPTY_NODE_def RB_CLEAR_NODE_def access_set_parent)
  moreover have "nodes ?s z = nodes st z" if "z \<notin> set xs" for z
    using st'(2) that x f [of z] io d unfolding rep_def by (auto simp: set_remove1_eq)
  moreover have "elv_rb_del st x = Some ?s"
    using st'(1) rb_list_not_empty_node [OF l x] by (simp add: elv_rb_del_def)
  ultimately show ?thesis by blast
qed

lemma elv_rb_find_cases:
  assumes l: "rb_list st xs" and b: "by_pos rs xs"
  shows "\<exists>n. elv_rb_find rs st s = Some n \<and>
    (if n = NULL then \<forall>x\<in>set xs. blk_rq_pos (rs x) \<noteq> s else n \<in> set xs \<and> blk_rq_pos (rs n) = s)"
proof -
  obtain T where T: "rep (nodes st) st T" "inorder T = xs" using l by (auto simp: rb_list_def)
  then have "rb_root st = rootp T" unfolding rep_def by (auto dest: tree_at_rootp)
  moreover have "\<exists>n. elv_rb_find_loop rs st s (rootp T) = Some n \<and>
    (if n = NULL then \<forall>x\<in>set (inorder T). blk_rq_pos (rs x) \<noteq> s else n \<in> set (inorder T) \<and> blk_rq_pos (rs n) = s)"
    by (rule find_loop_correct [of "nodes st" st Top]) (use T b in simp_all)
  ultimately show ?thesis unfolding elv_rb_find_def T(2) by (simp only:)
qed


lemma insort_by_pos:
  assumes "by_pos rs (ys @ r # zs)"
  shows "insort_key (\<lambda>x. blk_rq_pos (rs x)) r (ys @ zs) = ys @ r # zs"
  using assms
proof (induction ys)
  case Nil
  then show ?case by (cases zs) (auto simp: by_pos_Cons)
next
  case (Cons y ys)
  then have "\<not> blk_rq_pos (rs r) \<le> blk_rq_pos (rs y)" by (simp add: by_pos_Cons not_le)
  then show ?case using Cons by (simp add: by_pos_Cons)
qed

text \<open>
  (C12) On a red-black tree of requests in strict sector order, adding a request always returns.  If a request of the tree
  starts at the same sector, this alias is returned and the tree is untouched; else the tree becomes one of the same
  requests and the new one, in sector order, in which a search for the sector finds the new request.
\<close>

theorem elv_rb_add_refines:
  assumes "rb_list st xs" "by_pos rs xs" "node_ok rq" "rq \<notin> set xs"
  shows "case find (\<lambda>x. blk_rq_pos (rs x) = blk_rq_pos (rs rq)) xs of
      Some a \<Rightarrow> elv_rb_add rs st rq = Some (a, st)
    | None \<Rightarrow> \<exists>st'. elv_rb_add rs st rq = Some (NULL, st') \<and>
        rb_list st' (insort_key (\<lambda>x. blk_rq_pos (rs x)) rq xs) \<and> by_pos rs (insort_key (\<lambda>x. blk_rq_pos (rs x)) rq xs) \<and>
        elv_rb_find rs st' (blk_rq_pos (rs rq)) = Some rq"
proof (cases "find (\<lambda>x. blk_rq_pos (rs x) = blk_rq_pos (rs rq)) xs")
  case (Some a)
  then have "a \<in> set xs" "blk_rq_pos (rs a) = blk_rq_pos (rs rq)" by (auto simp: find_Some_iff)
  then show ?thesis using Some elv_rb_add_alias [OF assms] by simp
next
  case None
  then have n: "\<forall>x\<in>set xs. blk_rq_pos (rs x) \<noteq> blk_rq_pos (rs rq)" by (simp add: find_None_iff)
  obtain st' ys zs where s: "elv_rb_add rs st rq = Some (NULL, st')" "xs = ys @ zs" "rb_list st' (ys @ rq # zs)"
    "by_pos rs (ys @ rq # zs)"
    using elv_rb_add_new [OF assms n] by blast
  obtain m where m: "elv_rb_find rs st' (blk_rq_pos (rs rq)) = Some m"
    "if m = NULL then \<forall>x\<in>set (ys @ rq # zs). blk_rq_pos (rs x) \<noteq> blk_rq_pos (rs rq)
     else m \<in> set (ys @ rq # zs) \<and> blk_rq_pos (rs m) = blk_rq_pos (rs rq)"
    using elv_rb_find_cases [OF s(3,4)] by blast
  have "m \<noteq> NULL" using m(2) by (metis in_set_conv_decomp)
  then have "m = rq" using m(2) by_pos_unique [OF s(4), of m rq] by simp
  then show ?thesis using None s m(1) insort_by_pos [OF s(4)] by simp
qed

theorem elv_rb_add_refines_witness:
  "\<exists>st'. elv_rb_add (\<lambda>_. blank_request) \<lparr>nodes = (\<lambda>_. \<lparr>rb_parent_color = 0, rb_right = NULL, rb_left = NULL\<rparr>), rb_root = NULL\<rparr> 16 =
      Some (NULL, st') \<and> rb_list st' [16] \<and> elv_rb_find (\<lambda>_. blank_request) st' 0 = Some 16"
proof -
  let ?st = "\<lparr>nodes = (\<lambda>_. \<lparr>rb_parent_color = 0, rb_right = NULL, rb_left = NULL\<rparr>), rb_root = NULL\<rparr>"
  have "rb_list ?st []" by (rule rb_list_Nil) simp
  moreover have "node_ok 16" by (simp add: node_ok_def ptr_al_def)
  ultimately show ?thesis
    using elv_rb_add_refines [of ?st "[]" "\<lambda>_. blank_request" 16] by (simp add: by_pos_def blank_request_def blk_rq_pos_def)
qed

end
