(* ===== verification/Fifo_Lists.thy ===== *)
theory Fifo_Lists
  imports List_Head
begin

text \<open>
  Two FIFO lists and a dispatch list on one heap of links, as the schedulers with two directions keep them: what
  queueing, taking and moving a request does to the three lists.
\<close>

definition fifos :: "list_heap \<Rightarrow> (bool \<Rightarrow> ptr) \<Rightarrow> ptr \<Rightarrow> (bool \<Rightarrow> ptr list) \<Rightarrow> ptr list \<Rightarrow> bool" where
  "fifos h f p F D \<longleftrightarrow>
     (\<forall>s. dlist h (f s) (F s)) \<and> dlist h p D \<and> (\<forall>s. set (f s # F s) \<inter> set (p # D) = {}) \<and>
     set (f True # F True) \<inter> set (f False # F False) = {}"

lemma fifosD:
  assumes "fifos h f p F D"
  shows "dlist h (f s) (F s)" and "dlist h p D" and "set (f s # F s) \<inter> set (p # D) = {}"
    and "set (f s # F s) \<inter> set (f (\<not> s) # F (\<not> s)) = {}"
proof -
  show "dlist h (f s) (F s)" "dlist h p D" "set (f s # F s) \<inter> set (p # D) = {}"
    using assms unfolding fifos_def by blast+
  have "set (f True # F True) \<inter> set (f False # F False) = {}" using assms unfolding fifos_def by blast
  then show "set (f s # F s) \<inter> set (f (\<not> s) # F (\<not> s)) = {}" by (cases s) auto
qed

lemma fifosI:
  assumes "dlist h (f s) (F s)" and "dlist h (f (\<not> s)) (F (\<not> s))" and "dlist h p D"
    and "set (f s # F s) \<inter> set (p # D) = {}" and "set (f (\<not> s) # F (\<not> s)) \<inter> set (p # D) = {}"
    and "set (f s # F s) \<inter> set (f (\<not> s) # F (\<not> s)) = {}"
  shows "fifos h f p F D"
  using assms unfolding fifos_def by (cases s) (auto simp: all_bool_eq)

lemma fifos_empty: "fifos h f p F D \<Longrightarrow> list_empty (f s) h \<longleftrightarrow> F s = []"
  using dlist_empty_iff fifosD(1) by blast

lemma fifos_first: "fifos h f p F D \<Longrightarrow> F s = r # rs \<Longrightarrow> nxt h (f s) = r"
  using dlist_first fifosD(1) by metis

lemma fifos_distinct:
  assumes "fifos h f p F D"
  shows "distinct (F s)" and "r \<in> set (F s) \<Longrightarrow> r \<notin> set (F (\<not> s)) \<and> r \<notin> set D"
  using dlist_distinct [OF fifosD(1) [OF assms, of s]] fifosD(3,4) [OF assms, of s] by auto

lemma dlist_member_not_empty:
  assumes "dlist h p xs" "x \<in> set xs"
  shows "\<not> list_empty x h"
proof -
  obtain as bs where xs: "xs = as @ x # bs" using split_list [OF assms(2)] by blast
  show ?thesis using assms(1) unfolding xs by (cases bs) (auto simp: list_empty_def dlist_def)
qed

text \<open>Queueing.\<close>

lemma fifos_add:
  assumes l: "fifos h f p F D" and r: "\<And>s. r \<notin> set (f s # F s)" "r \<notin> set (p # D)"
  shows "fifos (list_add_tail r (f s) h) f p (F(s := F s @ [r])) D"
proof -
  note d = fifosD [OF l]
  have 1: "dlist (list_add_tail r (f s) h) (f s) (F s @ [r])" using d(1) r(1) by (rule klist.holds_add_tail)
  have 2: "dlist (list_add_tail r (f s) h) (f (\<not> s)) (F (\<not> s))" using d(1) d(1) d(4) r(1) by (rule klist.frame_add_tail)
  have 3: "dlist (list_add_tail r (f s) h) p D" using d(2) d(1) d(3) r(2) by (rule klist.frame_add_tail)
  show ?thesis
    using 1 2 3 d(3) [of s] d(3) [of "\<not> s"] d(4) [of s] r(1) [of s] r(1) [of "\<not> s"] r(2)
    by (intro fifosI [of _ _ s]) auto
qed

text \<open>Taking a request off its list.\<close>

lemma fifos_del:
  assumes l: "fifos h f p F D" and r: "r \<in> set (F s)"
  shows "fifos (list_del_init r h) f p (F(s := remove1 r (F s))) D"
proof -
  note d = fifosD [OF l]
  have 1: "dlist (list_del_init r h) (f s) (remove1 r (F s))" using d(1) r by (rule klist.holds_del)
  have 2: "dlist (list_del_init r h) (f (\<not> s)) (F (\<not> s))" using d(1) d(1) d(4) r by (rule klist.frame_del)
  have 3: "dlist (list_del_init r h) p D" using d(2) d(1) d(3) r by (rule klist.frame_del)
  have sub: "set (remove1 r (F s)) \<subseteq> set (F s)" by (rule set_remove1_subset)
  show ?thesis
    using 1 2 3 d(3) [of s] d(3) [of "\<not> s"] d(4) [of s] sub by (intro fifosI [of _ _ s]) auto
qed

text \<open>Moving it to the end of the dispatch list.\<close>

lemma fifos_dispatch:
  assumes l: "fifos h f p F D" and r: "r \<in> set (F s)"
  shows "fifos (list_add_tail r p (list_del_init r h)) f p (F(s := remove1 r (F s))) (D @ [r])"
proof -
  let ?F = "F(s := remove1 r (F s))" and ?h = "list_del_init r h"
  note d = fifosD [OF fifos_del [OF l r]] and c = fifosD [OF l]
  have n: "r \<notin> set (f t # ?F t)" for t
    using c(3,4) [of s] r dlist_distinct [OF c(1) [of s]] by (cases "t = s") auto
  have np: "r \<notin> set (p # D)" using c(3) [of s] r by auto
  have f: "dlist (list_add_tail r p ?h) (f t) (?F t)" for t
    using d(1) d(2) _ n by (rule klist.frame_add_tail) (use d(3) [of t] in blast)
  have "dlist (list_add_tail r p ?h) p (D @ [r])" using d(2) np by (rule klist.holds_add_tail)
  then show ?thesis
    using f [of s] f [of "\<not> s"] d(3) [of s] d(3) [of "\<not> s"] d(4) [of s] n [of s] n [of "\<not> s"]
    by (intro fifosI [of _ _ s]) auto
qed

text \<open>Moving it behind another one of the same list.\<close>

lemma fifos_move:
  assumes l: "fifos h f p F D" and x: "x \<in> set (F s)" "y \<in> set (F s)" "y \<noteq> x" and m: "remove1 x (F s) = as @ y # bs"
  shows "fifos (list_move x y h) f p (F(s := as @ y # x # bs)) D"
proof -
  note d = fifosD [OF l]
  have S: "set (as @ y # x # bs) = set (F s)"
  proof -
    have "insert x (set (remove1 x (F s))) = set (F s)" using x(1) dlist_distinct [OF d(1) [of s]] by auto
    then show ?thesis using m by auto
  qed
  have 1: "dlist (list_move x y h) (f s) (as @ y # x # bs)" using d(1) x m by (rule dlist_list_move_after)
  have 2: "dlist (list_move x y h) (f (\<not> s)) (F (\<not> s))" using d(1) d(1) d(4) x by (rule dlist_frame_list_move)
  have 3: "dlist (list_move x y h) p D" using d(2) d(1) d(3) x by (rule dlist_frame_list_move)
  show ?thesis
    by (rule fifosI [of _ _ s]) (use 1 2 3 d(3) [of s] d(3) [of "\<not> s"] d(4) [of s] S in \<open>auto simp del: set_append\<close>)
qed


section \<open>Requests that are on neither list\<close>

text \<open>The requests \<open>L\<close> of a scheduler that queues only some of them; the entry of any other one is linked to itself.\<close>

definition loose_fifos ::
    "list_heap \<Rightarrow> (bool \<Rightarrow> ptr) \<Rightarrow> ptr \<Rightarrow> (bool \<Rightarrow> ptr list) \<Rightarrow> ptr set \<Rightarrow> ptr list \<Rightarrow> bool" where
  "loose_fifos h f p F L D \<longleftrightarrow>
     fifos h f p F D \<and> (\<forall>s. set (F s) \<subseteq> L) \<and> (\<forall>r\<in>L. (\<forall>s. r \<notin> set (F s)) \<longrightarrow> dlist h r []) \<and>
     (\<forall>r\<in>L. r \<notin> set (p # D)) \<and> (\<forall>s. f s \<notin> L)"

lemma loose_fifosD:
  assumes "loose_fifos h f p F L D"
  shows "fifos h f p F D" and "set (F s) \<subseteq> L" and "r \<in> L \<Longrightarrow> (\<And>s. r \<notin> set (F s)) \<Longrightarrow> dlist h r []"
    and "r \<in> L \<Longrightarrow> r \<notin> set (p # D)" and "f s \<notin> L"
  using assms unfolding loose_fifos_def by blast+

lemma loose_fifosI:
  assumes "fifos h f p F D" and "\<And>s. set (F s) \<subseteq> L" and "\<And>r. r \<in> L \<Longrightarrow> (\<And>s. r \<notin> set (F s)) \<Longrightarrow> dlist h r []"
    and "\<And>r. r \<in> L \<Longrightarrow> r \<notin> set (p # D)" and "\<And>s. f s \<notin> L"
  shows "loose_fifos h f p F L D"
  unfolding loose_fifos_def using assms by blast

lemma loose_subset:
  assumes "loose_fifos h f p F L D" and "L' \<subseteq> L" and "\<And>s. set (F s) \<subseteq> L'"
  shows "loose_fifos h f p F L' D"
  using assms unfolding loose_fifos_def by blast

lemma loose_queue:
  assumes l: "loose_fifos h f p F L D" and r: "r \<notin> L" "r \<notin> set (p # D)" "\<And>s. f s \<noteq> r"
  shows "loose_fifos (list_add_tail r (f s) h) f p (F(s := F s @ [r])) (insert r L) D"
proof (rule loose_fifosI)
  note d = loose_fifosD [OF l]
  have n: "r \<notin> set (f s # F s)" for s using d(2) [of s] r(1) r(3) [of s] by auto
  show "fifos (list_add_tail r (f s) h) f p (F(s := F s @ [r])) D" by (rule fifos_add [OF d(1) n r(2)])
  show "dlist (list_add_tail r (f s) h) x []" if x: "x \<in> insert r L" "\<And>t. x \<notin> set ((F(s := F s @ [r])) t)" for x
  proof -
    have xr: "x \<noteq> r" "x \<notin> set (F s)" using x(2) [of s] by auto
    have "x \<notin> set (F t)" for t using x(2) [of t] xr(2) by (cases "t = s") auto
    then have "dlist h x []" using d(3) [of x] x(1) xr(1) by auto
    then show ?thesis
      by (rule klist.frame_add_tail [OF _ fifosD(1) [OF d(1)]]) (use xr x(1) d(5) [of s] in auto)
  qed
qed (use loose_fifosD(2,4,5) [OF l] r in auto)

lemma loose_queue_not:
  assumes l: "loose_fifos h f p F L D" and r: "r \<notin> set (p # D)" "\<And>s. f s \<noteq> r" "dlist h r []"
  shows "loose_fifos h f p F (insert r L) D"
  by (rule loose_fifosI) (use loose_fifosD [OF l] r in auto)

lemma list_del_init_loose: "dlist h r [] \<Longrightarrow> list_del_init r h = h"
  by (cases h) (simp add: list_del_init_def INIT_LIST_HEAD_def list_del_between_def set_next_def set_prev_def fun_upd_idem)

lemma loose_remove1:
  assumes "fifos h f p F D"
  shows "(\<lambda>s. remove1 r (F s)) = (if r \<in> set (F True) then F(True := remove1 r (F True))
    else if r \<in> set (F False) then F(False := remove1 r (F False)) else F)"
proof
  show "remove1 r (F s) = (if r \<in> set (F True) then F(True := remove1 r (F True))
    else if r \<in> set (F False) then F(False := remove1 r (F False)) else F) s" for s
    using fifos_distinct(2) [OF assms, of r True] by (cases s) (auto simp: remove1_idem)
qed

lemma loose_del:
  assumes l: "loose_fifos h f p F L D" and r: "r \<in> L"
  shows "loose_fifos (list_del_init r h) f p (\<lambda>s. remove1 r (F s)) (L - {r}) D"
proof (rule loose_fifosI)
  note d = loose_fifosD [OF l]
  have f: "fifos (list_del_init r h) f p (F(s := remove1 r (F s))) D" if "r \<in> set (F s)" for s
    by (rule fifos_del [OF d(1) that])
  have self: "list_del_init r h = h" if "\<And>s. r \<notin> set (F s)" by (rule list_del_init_loose, rule d(3) [OF r that])
  have nF: "r \<notin> set (F s)" if "r \<notin> set (F True)" "r \<notin> set (F False)" for s using that by (cases s) auto
  show "fifos (list_del_init r h) f p (\<lambda>s. remove1 r (F s)) D"
    unfolding loose_remove1 [OF d(1)] using f [of True] f [of False] self [OF nF] d(1) by auto
  show "set (remove1 r (F s)) \<subseteq> L - {r}" for s
    using d(2) [of s] fifos_distinct(1) [OF d(1), of s] by (auto simp: set_remove1_eq)
  show "dlist (list_del_init r h) x []" if x: "x \<in> L - {r}" "\<And>s. x \<notin> set (remove1 r (F s))" for x
  proof -
    have xF: "x \<notin> set (F s)" for s using x fifos_distinct(1) [OF d(1), of s] by (auto simp: set_remove1_eq)
    have dx: "dlist h x []" using d(3) [of x] x(1) xF by auto
    show ?thesis
    proof (cases "\<exists>s. r \<in> set (F s)")
      case True
      then obtain s where s: "r \<in> set (F s)" by blast
      show ?thesis
        by (rule dlist_frame_self [OF fifosD(1) [OF d(1), of s] dx _ s]) (use xF [of s] d(5) [of s] x(1) in auto)
    qed (use self dx in auto)
  qed
qed (use loose_fifosD(4,5) [OF l] in auto)

lemma loose_dispatch:
  assumes l: "loose_fifos h f p F L D" and r: "r \<in> L"
  shows "loose_fifos (list_add_tail r p (list_del_init r h)) f p (\<lambda>s. remove1 r (F s)) (L - {r}) (D @ [r])"
proof (rule loose_fifosI)
  note d = loose_fifosD [OF loose_del [OF l r]] and e = fifosD [OF loose_fifosD(1) [OF loose_del [OF l r]]]
  note a = loose_fifosD(4,5) [OF l]
  have n: "r \<notin> set (remove1 r (F s))" for s using d(2) [of s] by auto
  have f: "dlist (list_add_tail r p (list_del_init r h)) (f s) (remove1 r (F s))" for s
    by (rule klist.frame_add_tail [OF e(1) e(2)]) (use e(3) [of s] n [of s] a(2) [of s] r in auto)
  have 1: "dlist (list_add_tail r p (list_del_init r h)) p (D @ [r])"
    by (rule klist.holds_add_tail [OF e(2) a(1) [OF r]])
  show "fifos (list_add_tail r p (list_del_init r h)) f p (\<lambda>s. remove1 r (F s)) (D @ [r])"
    by (rule fifosI [of _ _ True])
      (use f 1 e(3) [of True] e(3) [of False] e(4) [of True] n a(2) r in auto)
  show "dlist (list_add_tail r p (list_del_init r h)) x []" if x: "x \<in> L - {r}" "\<And>s. x \<notin> set (remove1 r (F s))" for x
    by (rule klist.frame_add_tail [OF d(3) [OF x] e(2)]) (use d(4) [OF x(1)] x(1) in auto)
qed (use loose_fifosD(2) [OF loose_del [OF l r]] loose_fifosD(4,5) [OF l] in auto)


text \<open>Moving a request behind another one, of either list.\<close>

lemma list_move_eq:
  assumes "y \<noteq> x"
  shows "list_move x y h = list_add x y (list_del_init x h)"
proof -
  have "list_add x y (INIT_LIST_HEAD x h') = list_add x y h'" for h'
    using assms by (cases h') (auto simp: list_add_def list_add_between_def INIT_LIST_HEAD_def set_next_def set_prev_def fun_eq_iff Let_def)
  then show ?thesis by (simp add: list_move_def list_del_init_def)
qed

lemma loose_insert_after:
  assumes l: "loose_fifos h f p F L D" and r: "r \<notin> L" "r \<notin> set (p # D)" "\<And>s. f s \<noteq> r" and y: "F s = as @ y # bs"
  shows "loose_fifos (list_add r y h) f p (F(s := as @ y # r # bs)) (insert r L) D"
proof (rule loose_fifosI)
  note d = loose_fifosD [OF l] and e = fifosD [OF loose_fifosD(1) [OF l]]
  let ?h = "list_add r y h" and ?F = "F(s := as @ y # r # bs)"
  have n: "r \<notin> set (f t # F t)" for t using d(2) [of t] r(1) r(3) [of t] by auto
  have yi: "y \<in> set (f s # F s)" using y by simp
  have 1: "dlist ?h (f s) (as @ y # r # bs)" by (rule dlist_list_add_after) (use e(1) [of s] n [of s] y in auto)
  have 2: "dlist ?h (f (\<not> s)) (F (\<not> s))"
    by (rule dlist_frame_list_add [OF e(1) e(1) [of s] e(4) n yi])
  have 3: "dlist ?h p D" by (rule dlist_frame_list_add [OF e(2) e(1) [of s] e(3) r(2) yi])
  show "fifos ?h f p ?F D"
    by (rule fifosI [of _ _ s]) (use 1 2 3 e(3) [of s] e(3) [of "\<not> s"] e(4) [of s] n r(2) y in auto)
  show "dlist ?h x []" if x: "x \<in> insert r L" "\<And>t. x \<notin> set (?F t)" for x
  proof -
    have xr: "x \<noteq> r" "x \<notin> set (F s)" using x(2) [of s] y by auto
    have "x \<notin> set (F t)" for t using x(2) [of t] xr(2) by (cases "t = s") auto
    then have "dlist h x []" using d(3) [of x] x(1) xr(1) by auto
    then show ?thesis by (rule dlist_frame_list_add [OF _ e(1) [of s] _ _ yi]) (use xr x(1) d(5) [of s] in auto)
  qed
  show "set (?F t) \<subseteq> insert r L" for t using d(2) [of t] d(2) [of s] y by auto
qed (use loose_fifosD(4,5) [OF l] r in auto)

lemma loose_move:
  assumes l: "loose_fifos h f p F L D" and x: "x \<in> set (F s)" "y \<noteq> x" and m: "remove1 x (F t) = as @ y # bs"
  shows "loose_fifos (list_move x y h) f p ((\<lambda>s. remove1 x (F s))(t := as @ y # x # bs)) L D"
proof -
  note d = loose_fifosD [OF l]
  have xL: "x \<in> L" using x(1) d(2) by blast
  have "loose_fifos (list_add x y (list_del_init x h)) f p ((\<lambda>s. remove1 x (F s))(t := as @ y # x # bs)) (insert x (L - {x})) D"
    by (rule loose_insert_after [OF loose_del [OF l xL]]) (use d(4) [OF xL] d(5) xL m in auto)
  then show ?thesis unfolding list_move_eq [OF x(2)] using xL by (simp add: insert_absorb)
qed

end
