(* ===== verification/Deadline_Iosched.thy ===== *)
theory Deadline_Iosched
  imports Elevator_Rb Fifo_Lists Kernel_Time Vsprintf
begin

text \<open>
  The deadline scheduler, \<open>block/deadline-iosched.c\<close>: for each direction a tree of the requests ordered by sector and a
  FIFO list of the same requests with deadlines.  Directions index the arrays, \<^term>\<open>False\<close> for reads and \<^term>\<open>True\<close> for
  writes.

  The lemmas describe a queue by the two FIFO lists, the two sorted lists and the dispatch list; the scheduler
  fulfils \<open>io_scheduler\<close>.
\<close>

section \<open>Operations\<close>

abbreviation (input) READ :: bool where "READ \<equiv> False"
abbreviation (input) WRITE :: bool where "WRITE \<equiv> True"

definition read_expire :: u32 where "read_expire = of_nat (HZ div 2)"
definition write_expire :: u32 where "write_expire = of_nat (5 * HZ)"
definition default_writes_starved :: u32 where "default_writes_starved = 2"
definition deadline_fifo_batch :: u32 where "deadline_fifo_batch = 1"

record deadline_data =
  sort_list :: "bool \<Rightarrow> ptr"
  fifo_list :: "bool \<Rightarrow> ptr"
  next_rq :: "bool \<Rightarrow> ptr"
  batching :: u32
  last_sector :: sector
  starved :: u32
  fifo_expire :: "bool \<Rightarrow> u32"
  fifo_batch :: u32
  writes_starved :: u32
  front_merges :: u32

type_synonym deadline_queue = "deadline_data request_queue"

definition data_dir :: "deadline_queue \<Rightarrow> ptr \<Rightarrow> bool" where
  "data_dir q rq \<longleftrightarrow> rq_data_dir (rqs q rq) = 1"

definition set_dd :: "(deadline_data \<Rightarrow> deadline_data) \<Rightarrow> deadline_queue \<Rightarrow> deadline_queue" where
  "set_dd f q = q\<lparr>elevator_data := f (elevator_data q)\<rparr>"

text \<open>The tree \<open>dd->sort_list[d]\<close>: its root and the nodes of the requests.\<close>

definition deadline_rb_root :: "deadline_queue \<Rightarrow> bool \<Rightarrow> rb_tree" where
  "deadline_rb_root q d = \<lparr>nodes = rb_nodes q, rb_root = sort_list (elevator_data q) d\<rparr>"

definition put_tree :: "bool \<Rightarrow> rb_tree \<Rightarrow> deadline_queue \<Rightarrow> deadline_queue" where
  "put_tree d st q = set_dd (\<lambda>dd. dd\<lparr>sort_list := (sort_list dd)(d := rb_root st)\<rparr>) (q\<lparr>rb_nodes := nodes st\<rparr>)"

definition set_next_rq :: "bool \<Rightarrow> ptr \<Rightarrow> deadline_queue \<Rightarrow> deadline_queue" where
  "set_next_rq d rq = set_dd (\<lambda>dd. dd\<lparr>next_rq := (next_rq dd)(d := rq)\<rparr>)"

definition deadline_latter_request :: "deadline_queue \<Rightarrow> ptr \<Rightarrow> ptr option" where
  "deadline_latter_request q rq = rb_next \<lparr>nodes = rb_nodes q, rb_root = NULL\<rparr> rq"

definition deadline_del_rq_rb :: "deadline_queue \<Rightarrow> ptr \<Rightarrow> deadline_queue option" where
  "deadline_del_rq_rb q rq =
     (let d = data_dir q rq in
      Option.bind
        (if next_rq (elevator_data q) d = rq
         then map_option (\<lambda>n. set_next_rq d n q) (deadline_latter_request q rq) else Some q)
        (\<lambda>q. map_option (\<lambda>st. put_tree d st q) (elv_rb_del (deadline_rb_root q d) rq)))"

definition deadline_remove_request :: "deadline_queue \<Rightarrow> ptr \<Rightarrow> deadline_queue option" where
  "deadline_remove_request q rq = deadline_del_rq_rb (rq_fifo_clear rq q) rq"

definition deadline_move_to_dispatch :: "deadline_queue \<Rightarrow> ptr \<Rightarrow> deadline_queue option" where
  "deadline_move_to_dispatch q rq =
     map_option (\<lambda>q. elv_dispatch_add_tail q rq) (deadline_remove_request q rq)"

definition deadline_move_request :: "deadline_queue \<Rightarrow> ptr \<Rightarrow> deadline_queue option" where
  "deadline_move_request q rq =
     (let d = data_dir q rq;
          q = set_next_rq READ NULL q;
          q = set_next_rq WRITE NULL q in
      Option.bind (deadline_latter_request q rq) (\<lambda>n.
        let q = set_next_rq d n q;
            q = set_dd (\<lambda>dd. dd\<lparr>last_sector := rq_end_sector (rqs q rq)\<rparr>) q
        in deadline_move_to_dispatch q rq))"

partial_function (option) deadline_add_rq_rb :: "deadline_queue \<Rightarrow> ptr \<Rightarrow> deadline_queue option" where
  "deadline_add_rq_rb q rq =
     (let d = data_dir q rq in
      Option.bind (elv_rb_add (rqs q) (deadline_rb_root q d) rq) (\<lambda>(alias, st).
        let q = put_tree d st q
        in if alias \<noteq> NULL
           then Option.bind (deadline_move_request q alias) (\<lambda>q. deadline_add_rq_rb q rq)
           else Some q))"

definition deadline_add_request :: "deadline_queue \<Rightarrow> ptr \<Rightarrow> deadline_queue option" where
  "deadline_add_request q rq =
     (let d = data_dir q rq in
      Option.bind (deadline_add_rq_rb q rq) (\<lambda>q.
        let dd = elevator_data q;
            q = rq_set_fifo_time rq (jiffies q + fifo_expire dd d) q
        in Some (q\<lparr>links := list_add_tail rq (fifo_list dd d) (links q)\<rparr>)))"

text \<open>
  \<open>e\<close> is only asked whether it has an \<open>elevator_allow_merge_fn\<close>.  \<open>None\<close> also when the \<open>BUG_ON\<close> fires.
\<close>

definition deadline_merge ::
    "deadline_data elevator_ops \<Rightarrow> deadline_queue \<Rightarrow> bio \<Rightarrow> (nat \<times> ptr) option" where
  "deadline_merge e q b =
     (if front_merges (elevator_data q) \<noteq> 0 then
        let sector = bi_sector b + bio_sectors b in
        Option.bind (elv_rb_find (rqs q) (deadline_rb_root q (bio_data_dir b = 1)) sector) (\<lambda>rq.
          if rq \<noteq> NULL then
            if sector \<noteq> blk_rq_pos (rqs q rq) then None
            else if elv_rq_merge_ok e q rq b then Some (ELEVATOR_FRONT_MERGE, rq)
            else Some (ELEVATOR_NO_MERGE, NULL)
          else Some (ELEVATOR_NO_MERGE, NULL))
      else Some (ELEVATOR_NO_MERGE, NULL))"

definition deadline_merged_request :: "deadline_queue \<Rightarrow> ptr \<Rightarrow> nat \<Rightarrow> deadline_queue option" where
  "deadline_merged_request q req type =
     (if type = ELEVATOR_FRONT_MERGE then
        let d = data_dir q req in
        Option.bind (elv_rb_del (deadline_rb_root q d) req) (\<lambda>st. deadline_add_rq_rb (put_tree d st q) req)
      else Some q)"

definition deadline_merged_requests :: "deadline_queue \<Rightarrow> ptr \<Rightarrow> ptr \<Rightarrow> deadline_queue option" where
  "deadline_merged_requests q req next =
     (let q = (if \<not> list_empty req (links q) \<and> \<not> list_empty next (links q) then
                 if time_before (rq_fifo_time (rqs q next)) (rq_fifo_time (rqs q req)) then
                   let q = q\<lparr>links := list_move req next (links q)\<rparr>
                   in rq_set_fifo_time req (rq_fifo_time (rqs q next)) q
                 else q
               else q)
      in deadline_remove_request q next)"

definition deadline_check_fifo :: "deadline_queue \<Rightarrow> bool \<Rightarrow> bool" where
  "deadline_check_fifo q ddir =
     (let rq = nxt (links q) (fifo_list (elevator_data q) ddir)
      in time_after (jiffies q) (rq_fifo_time (rqs q rq)))"

text \<open>The parts of \<open>deadline_dispatch_requests\<close> after its labels.\<close>

definition dispatch_request :: "deadline_queue \<Rightarrow> ptr \<Rightarrow> (int \<times> deadline_queue) option" where
  "dispatch_request q rq =
     (let q = set_dd (\<lambda>dd. dd\<lparr>batching := batching dd + 1\<rparr>) q
      in map_option (Pair 1) (deadline_move_request q rq))"

definition dispatch_find_request :: "deadline_queue \<Rightarrow> bool \<Rightarrow> (int \<times> deadline_queue) option" where
  "dispatch_find_request q d =
     (let dd = elevator_data q;
          rq = (if deadline_check_fifo q d \<or> next_rq dd d = NULL then nxt (links q) (fifo_list dd d) else next_rq dd d);
          q = set_dd (\<lambda>dd. dd\<lparr>batching := 0\<rparr>) q
      in dispatch_request q rq)"

definition dispatch_writes :: "deadline_queue \<Rightarrow> (int \<times> deadline_queue) option" where
  "dispatch_writes q =
     (if RB_EMPTY_ROOT (deadline_rb_root q WRITE) then None
      else dispatch_find_request (set_dd (\<lambda>dd. dd\<lparr>starved := 0\<rparr>) q) WRITE)"

definition deadline_dispatch_requests :: "deadline_queue \<Rightarrow> bool \<Rightarrow> (int \<times> deadline_queue) option" where
  "deadline_dispatch_requests q force =
     (let dd = elevator_data q;
          reads = (\<not> list_empty (fifo_list dd READ) (links q));
          writes = (\<not> list_empty (fifo_list dd WRITE) (links q));
          rq = (if next_rq dd WRITE \<noteq> NULL then next_rq dd WRITE else next_rq dd READ) in
      if rq \<noteq> NULL \<and> batching dd < fifo_batch dd then dispatch_request q rq
      else if reads then
        if RB_EMPTY_ROOT (deadline_rb_root q READ) then None
        else if writes then
          let q = set_dd (\<lambda>dd. dd\<lparr>starved := starved dd + 1\<rparr>) q
          in if starved dd \<ge> writes_starved dd then dispatch_writes q else dispatch_find_request q READ
        else dispatch_find_request q READ
      else if writes then dispatch_writes q
      else Some (0, q))"

definition deadline_queue_empty :: "deadline_queue \<Rightarrow> bool" where
  "deadline_queue_empty q =
     (let dd = elevator_data q in list_empty (fifo_list dd WRITE) (links q) \<and> list_empty (fifo_list dd READ) (links q))"

text \<open>\<open>None\<close> when a \<open>BUG_ON\<close> fires.\<close>

definition deadline_exit_queue :: "deadline_data \<Rightarrow> list_heap \<Rightarrow> unit option" where
  "deadline_exit_queue dd h =
     (if \<not> list_empty (fifo_list dd READ) h then None
      else if \<not> list_empty (fifo_list dd WRITE) h then None
      else Some ())"

text \<open>The argument is the result of \<open>kmalloc_node\<close>: the addresses of the two list heads, or nothing.\<close>

definition deadline_init_queue :: "(bool \<Rightarrow> ptr) option \<Rightarrow> list_heap \<Rightarrow> (deadline_data \<times> list_heap) option" where
  "deadline_init_queue dd h =
     (case dd of None \<Rightarrow> None
      | Some f \<Rightarrow>
          Some (\<lparr>sort_list = (\<lambda>_. NULL), fifo_list = f, next_rq = (\<lambda>_. NULL), batching = 0, last_sector = 0, starved = 0,
                 fifo_expire = (\<lambda>d. if d then write_expire else read_expire), fifo_batch = deadline_fifo_batch,
                 writes_starved = default_writes_starved, front_merges = 1\<rparr>,
                INIT_LIST_HEAD (f WRITE) (INIT_LIST_HEAD (f READ) h)))"

text \<open>The attributes; \<open>__data\<close> is an \<open>int\<close>.\<close>

definition deadline_var_show :: "u32 \<Rightarrow> cstring" where
  "deadline_var_show var = number (of_int (sint var)) dec_spec @ [char_of (10 :: nat)]"

definition deadline_var_store :: "cstring \<Rightarrow> nat \<Rightarrow> int \<times> int" where
  "deadline_var_store page cnt = (let (v, p) = simple_strtol page 10 in (v, int cnt))"

definition deadline_show :: "u32 \<Rightarrow> bool \<Rightarrow> cstring" where
  "deadline_show var conv = (let data = (if conv then jiffies_to_msecs var else var) in deadline_var_show data)"

definition deadline_store :: "int \<Rightarrow> int \<Rightarrow> bool \<Rightarrow> cstring \<Rightarrow> nat \<Rightarrow> u32 \<times> int" where
  "deadline_store mn mx conv page cnt =
     (let (data, ret) = deadline_var_store page cnt;
          data = (if data < mn then mn else if data > mx then mx else data)
      in (if conv then msecs_to_jiffies (of_int data) else of_int data, ret))"

definition deadline_expire_show :: "deadline_data \<Rightarrow> bool \<Rightarrow> cstring" where
  "deadline_expire_show dd d = deadline_show (fifo_expire dd d) True"

definition deadline_writes_starved_show :: "deadline_data \<Rightarrow> cstring" where
  "deadline_writes_starved_show dd = deadline_show (writes_starved dd) False"

definition deadline_front_merges_show :: "deadline_data \<Rightarrow> cstring" where
  "deadline_front_merges_show dd = deadline_show (front_merges dd) False"

definition deadline_fifo_batch_show :: "deadline_data \<Rightarrow> cstring" where
  "deadline_fifo_batch_show dd = deadline_show (fifo_batch dd) False"

definition deadline_expire_store :: "deadline_data \<Rightarrow> bool \<Rightarrow> cstring \<Rightarrow> nat \<Rightarrow> deadline_data \<times> int" where
  "deadline_expire_store dd d page cnt =
     (let (v, ret) = deadline_store 0 INT_MAX True page cnt in (dd\<lparr>fifo_expire := (fifo_expire dd)(d := v)\<rparr>, ret))"

definition deadline_writes_starved_store :: "deadline_data \<Rightarrow> cstring \<Rightarrow> nat \<Rightarrow> deadline_data \<times> int" where
  "deadline_writes_starved_store dd page cnt =
     (let (v, ret) = deadline_store INT_MIN INT_MAX False page cnt in (dd\<lparr>writes_starved := v\<rparr>, ret))"

definition deadline_front_merges_store :: "deadline_data \<Rightarrow> cstring \<Rightarrow> nat \<Rightarrow> deadline_data \<times> int" where
  "deadline_front_merges_store dd page cnt =
     (let (v, ret) = deadline_store 0 1 False page cnt in (dd\<lparr>front_merges := v\<rparr>, ret))"

definition deadline_fifo_batch_store :: "deadline_data \<Rightarrow> cstring \<Rightarrow> nat \<Rightarrow> deadline_data \<times> int" where
  "deadline_fifo_batch_store dd page cnt =
     (let (v, ret) = deadline_store 0 INT_MAX False page cnt in (dd\<lparr>fifo_batch := v\<rparr>, ret))"

text \<open>The operations without the merge check, which itself is given them.\<close>

definition deadline_ops :: "deadline_data elevator_ops" where
  "deadline_ops = \<lparr>
     elevator_merge_fn = None,
     elevator_merged_fn = Some deadline_merged_request,
     elevator_merge_req_fn = Some deadline_merged_requests,
     elevator_allow_merge_fn = None,
     elevator_dispatch_fn = deadline_dispatch_requests,
     elevator_add_req_fn = deadline_add_request,
     elevator_queue_empty_fn = Some deadline_queue_empty,
     elevator_deactivate_req_fn = None,
     elevator_former_req_fn = Some elv_rb_former_request,
     elevator_latter_req_fn = Some elv_rb_latter_request\<rparr>"

definition iosched_deadline :: "deadline_data elevator_ops" where
  "iosched_deadline = deadline_ops\<lparr>elevator_merge_fn := Some (deadline_merge deadline_ops)\<rparr>"

section \<open>The state of the scheduler\<close>

lemma set_dd_fields [simp]:
  "links (set_dd g q) = links q" "queue_head (set_dd g q) = queue_head q" "nr_sorted (set_dd g q) = nr_sorted q"
  "jiffies (set_dd g q) = jiffies q" "rqs (set_dd g q) = rqs q" "rb_nodes (set_dd g q) = rb_nodes q"
  "elevator_data (set_dd g q) = g (elevator_data q)"
  by (simp_all add: set_dd_def)

lemma put_tree_fields [simp]:
  "links (put_tree d st q) = links q" "queue_head (put_tree d st q) = queue_head q" "nr_sorted (put_tree d st q) = nr_sorted q"
  "jiffies (put_tree d st q) = jiffies q" "rqs (put_tree d st q) = rqs q" "rb_nodes (put_tree d st q) = nodes st"
  "elevator_data (put_tree d st q) = (elevator_data q)\<lparr>sort_list := (sort_list (elevator_data q))(d := rb_root st)\<rparr>"
  by (simp_all add: put_tree_def)

lemma set_next_rq_fields [simp]:
  "links (set_next_rq d n q) = links q" "queue_head (set_next_rq d n q) = queue_head q"
  "nr_sorted (set_next_rq d n q) = nr_sorted q" "jiffies (set_next_rq d n q) = jiffies q"
  "rqs (set_next_rq d n q) = rqs q" "rb_nodes (set_next_rq d n q) = rb_nodes q"
  "elevator_data (set_next_rq d n q) = (elevator_data q)\<lparr>next_rq := (next_rq (elevator_data q))(d := n)\<rparr>"
  by (simp_all add: set_next_rq_def)

text \<open>\<open>F\<close> are the FIFO lists, \<open>S\<close> the trees, \<open>D\<close> is the dispatch list.  A request may be missing from its tree.\<close>

definition dl_core :: "deadline_queue \<Rightarrow> (bool \<Rightarrow> ptr list) \<Rightarrow> (bool \<Rightarrow> ptr list) \<Rightarrow> ptr list \<Rightarrow> bool" where
  "dl_core q F S D \<longleftrightarrow>
     fifos (links q) (fifo_list (elevator_data q)) (queue_head q) F D \<and>
     (\<forall>d. rb_list (deadline_rb_root q d) (S d) \<and> set (S d) \<subseteq> set (F d) \<and> (\<forall>r\<in>set (F d). data_dir q r = d) \<and>
        next_rq (elevator_data q) d \<in> insert NULL (set (F d)))"

definition dl :: "deadline_queue \<Rightarrow> (bool \<Rightarrow> ptr list) \<Rightarrow> (bool \<Rightarrow> ptr list) \<Rightarrow> ptr list \<Rightarrow> bool" where
  "dl q F S D \<longleftrightarrow> dl_core q F S D \<and> (\<forall>d. by_pos (rqs q) (S d) \<and> set (S d) = set (F d))"

lemma dl_coreD:
  assumes "dl_core q F S D"
  shows "fifos (links q) (fifo_list (elevator_data q)) (queue_head q) F D" "rb_list (deadline_rb_root q d) (S d)"
    "set (S d) \<subseteq> set (F d)" "r \<in> set (F d) \<Longrightarrow> data_dir q r = d" "next_rq (elevator_data q) d \<in> insert NULL (set (F d))"
    "set (S d) \<inter> set (S (\<not> d)) = {}"
proof -
  show l: "fifos (links q) (fifo_list (elevator_data q)) (queue_head q) F D" "rb_list (deadline_rb_root q d) (S d)"
    "set (S d) \<subseteq> set (F d)" "r \<in> set (F d) \<Longrightarrow> data_dir q r = d" "next_rq (elevator_data q) d \<in> insert NULL (set (F d))"
    using assms unfolding dl_core_def by blast+
  have "set (S (\<not> d)) \<subseteq> set (F (\<not> d))" using assms unfolding dl_core_def by blast
  then show "set (S d) \<inter> set (S (\<not> d)) = {}" using l(3) fifosD(4) [OF l(1), of d] by auto
qed

text \<open>What a step that takes the requests \<open>R\<close> keeps.\<close>

definition kept :: "ptr set \<Rightarrow> deadline_queue \<Rightarrow> deadline_queue \<Rightarrow> bool" where
  "kept R q q' \<longleftrightarrow> queue_head q' = queue_head q \<and> jiffies q' = jiffies q \<and>
     (\<forall>x. blk_rq_pos (rqs q' x) = blk_rq_pos (rqs q x) \<and> rq_data_dir (rqs q' x) = rq_data_dir (rqs q x) \<and>
        (x \<notin> R \<longrightarrow> rqs q' x = rqs q x)) \<and>
     fifo_list (elevator_data q') = fifo_list (elevator_data q) \<and> batching (elevator_data q') = batching (elevator_data q) \<and>
     starved (elevator_data q') = starved (elevator_data q) \<and> fifo_expire (elevator_data q') = fifo_expire (elevator_data q) \<and>
     fifo_batch (elevator_data q') = fifo_batch (elevator_data q) \<and>
     writes_starved (elevator_data q') = writes_starved (elevator_data q) \<and>
     front_merges (elevator_data q') = front_merges (elevator_data q)"

lemma keptD:
  assumes "kept R q q'"
  shows "data_dir q' x = data_dir q x" "by_pos (rqs q') xs = by_pos (rqs q) xs"
    "fifo_list (elevator_data q') = fifo_list (elevator_data q)" "queue_head q' = queue_head q" "jiffies q' = jiffies q"
proof -
  show "by_pos (rqs q') xs = by_pos (rqs q) xs" by (rule by_pos_cong) (use assms in \<open>simp add: kept_def\<close>)
qed (use assms in \<open>simp_all add: kept_def data_dir_def\<close>)

lemma kept_refl [simp]: "kept R q q"
  by (simp add: kept_def)

lemma kept_trans: "kept R q q' \<Longrightarrow> kept R' q' q'' \<Longrightarrow> kept (R \<union> R') q q''"
  by (simp add: kept_def)

section \<open>Taking a request out\<close>

lemma put_tree_trees:
  assumes "rb_list (deadline_rb_root q (\<not> d)) (S (\<not> d))" "rb_list st xs"
    "\<And>z. z \<in> set (S (\<not> d)) \<Longrightarrow> nodes st z = rb_nodes q z"
  shows "rb_list (deadline_rb_root (put_tree d st q) e) ((S(d := xs)) e)"
proof (cases "e = d")
  case True
  have "deadline_rb_root (put_tree d st q) d = st" by (simp add: deadline_rb_root_def)
  then show ?thesis using assms(2) True by simp
next
  case False
  then have e: "e = (\<not> d)" by auto
  have "rb_list (deadline_rb_root (put_tree d st q) (\<not> d)) (S (\<not> d))"
    by (rule rb_list_frame [OF assms(1)]) (simp_all add: deadline_rb_root_def assms(3))
  then show ?thesis using e by simp
qed

lemma latter_eq:
  assumes "rb_list (deadline_rb_root q d) (ys @ r # zs)"
  shows "deadline_latter_request q r = Some (head_or_null zs)"
  using rb_list_next(1) [OF assms, of NULL] by (simp add: deadline_latter_request_def deadline_rb_root_def)

lemma deadline_remove_ok:
  assumes c: "dl_core q F S D" and r: "S d = ys @ r # zs"
  shows "\<exists>q'. deadline_remove_request q r = Some q' \<and>
    links q' = list_del_init r (links q) \<and> kept {r} q q' \<and> nr_sorted q' = nr_sorted q \<and>
    (\<forall>e. rb_list (deadline_rb_root q' e) ((S(d := ys @ zs)) e)) \<and>
    next_rq (elevator_data q') = (next_rq (elevator_data q))
      (d := if next_rq (elevator_data q) d = r then head_or_null zs else next_rq (elevator_data q) d) \<and>
    last_sector (elevator_data q') = last_sector (elevator_data q)"
proof -
  note D = dl_coreD [OF c]
  let ?q1 = "rq_fifo_clear r q"
  define n where "n = (if next_rq (elevator_data q) d = r then head_or_null zs else next_rq (elevator_data q) d)"
  let ?q2 = "set_next_rq d n ?q1"
  have rd: "data_dir q r = d" "data_dir ?q1 r = d" using D(3) [of d] D(4) [of r d] r by (auto simp: data_dir_def)
  have t: "rb_list (deadline_rb_root ?q1 e) (S e)" "rb_list (deadline_rb_root ?q2 e) (S e)" for e
    using D(2) [of e] by (simp_all add: deadline_rb_root_def)
  have "(if next_rq (elevator_data ?q1) d = r then map_option (\<lambda>n. set_next_rq d n ?q1) (deadline_latter_request ?q1 r)
      else Some ?q1) = Some ?q2"
    using latter_eq [OF t(1) [of d, unfolded r]] by (auto simp: n_def set_next_rq_def set_dd_def)
  moreover obtain st where st: "elv_rb_del (deadline_rb_root ?q2 d) r = Some st" "rb_list st (remove1 r (S d))"
    "\<And>z. z \<notin> set (S d) \<Longrightarrow> nodes st z = nodes (deadline_rb_root ?q2 d) z"
    using elv_rb_del_ok [OF t(2) [of d], of r] r by auto
  ultimately have e: "deadline_remove_request q r = Some (put_tree d st ?q2)"
    by (simp add: deadline_remove_request_def deadline_del_rq_rb_def rd)
  have "remove1 r (S d) = ys @ zs" using rb_list_distinct [OF D(2) [of d]] r by (simp add: remove1_append)
  with st(2) have s2: "rb_list st (ys @ zs)" by simp
  have "rb_list (deadline_rb_root (put_tree d st ?q2) e) ((S(d := ys @ zs)) e)" for e
  proof (rule put_tree_trees)
    show "rb_list (deadline_rb_root ?q2 (\<not> d)) (S (\<not> d))" by (rule t(2))
    show "nodes st z = rb_nodes ?q2 z" if "z \<in> set (S (\<not> d))" for z
      using st(3) [of z] D(6) [of d] that by (auto simp: deadline_rb_root_def)
  qed (rule s2)
  then show ?thesis
    unfolding e by (intro exI [of _ "put_tree d st ?q2"]) (simp add: kept_def n_def)
qed

lemma head_or_null_in: "head_or_null xs \<in> insert NULL (set xs)"
  by (cases xs) simp_all

lemma remove1_set: "distinct xs \<Longrightarrow> set (remove1 r xs) = set xs - {r}"
  by (simp add: set_remove1_eq)

text \<open>The lists after a request has left its tree and its FIFO list.\<close>

lemma dl_core_less:
  assumes c: "dl_core q F S D" and r: "S d = ys @ r # zs"
    and l: "fifos (links q') (fifo_list (elevator_data q')) (queue_head q') (F(d := remove1 r (F d))) D'"
    and k: "kept {r} q q'" and t: "\<forall>e. rb_list (deadline_rb_root q' e) ((S(d := ys @ zs)) e)"
    and n: "\<forall>e. next_rq (elevator_data q') e \<in> insert NULL (set ((F(d := remove1 r (F d))) e))"
  shows "dl_core q' (F(d := remove1 r (F d))) (S(d := ys @ zs)) D'"
proof -
  note D = dl_coreD [OF c]
  have F: "set (remove1 r (F d)) = set (F d) - {r}" by (rule remove1_set, rule fifos_distinct(1) [OF D(1)])
  have "distinct (ys @ r # zs)" using rb_list_distinct [OF D(2) [of d]] r by simp
  then have s: "set ((S(d := ys @ zs)) e) \<subseteq> set ((F(d := remove1 r (F d))) e)" for e
    using D(3) [of e] F r by (cases "e = d") auto
  moreover have "data_dir q' x = e" if "x \<in> set ((F(d := remove1 r (F d))) e)" for x e
    using that D(4) [of x e] F keptD(1) [OF k, of x] by (cases "e = d") auto
  ultimately show ?thesis unfolding dl_core_def using l t n by blast
qed

lemma deadline_move_ok:
  assumes c: "dl_core q F S D" and r: "S d = ys @ r # zs"
  shows "\<exists>q'. deadline_move_request q r = Some q' \<and>
    dl_core q' (F(d := remove1 r (F d))) (S(d := ys @ zs)) (D @ [r]) \<and> kept {r} q q' \<and> nr_sorted q' = nr_sorted q - 1 \<and>
    next_rq (elevator_data q') = (\<lambda>_. NULL)(d := head_or_null zs) \<and>
    last_sector (elevator_data q') = rq_end_sector (rqs q r)"
proof -
  note D = dl_coreD [OF c]
  let ?q1 = "set_next_rq WRITE NULL (set_next_rq READ NULL q)"
  let ?q2 = "set_dd (\<lambda>dd. dd\<lparr>last_sector := rq_end_sector (rqs q r)\<rparr>) (set_next_rq d (head_or_null zs) ?q1)"
  have rF: "r \<in> set (F d)" and zF: "set zs \<subseteq> set (F d)" using D(3) [of d] r by auto
  have rd: "data_dir q r = d" using D(4) rF .
  have "rb_list (deadline_rb_root ?q1 d) (ys @ r # zs)" using D(2) [of d] r by (simp add: deadline_rb_root_def)
  from latter_eq [OF this] have m: "deadline_move_request q r = deadline_move_to_dispatch ?q2 r"
    by (simp add: deadline_move_request_def rd Let_def)
  have nx: "next_rq (elevator_data ?q2) = (\<lambda>_. NULL)(d := head_or_null zs)" by (cases d) (auto simp: fun_eq_iff)
  have c2: "dl_core ?q2 F S D"
    unfolding dl_core_def nx using D zF head_or_null_in [of zs]
    by (auto simp: deadline_rb_root_def data_dir_def)
  have d: "distinct (ys @ r # zs)" using rb_list_distinct [OF D(2) [of d]] r by simp
  have hn: "head_or_null zs \<noteq> r"
    using d head_or_null_in [of zs] rb_list_ok [OF D(2) [of d], of r] r by auto
  obtain q3 where q3: "deadline_remove_request ?q2 r = Some q3" "links q3 = list_del_init r (links q)" "kept {r} ?q2 q3"
    "nr_sorted q3 = nr_sorted q" "\<forall>e. rb_list (deadline_rb_root q3 e) ((S(d := ys @ zs)) e)"
    "next_rq (elevator_data q3) = (\<lambda>_. NULL)(d := head_or_null zs)" "last_sector (elevator_data q3) = rq_end_sector (rqs q r)"
    using deadline_remove_ok [OF c2 r] hn unfolding nx by auto
  let ?q4 = "elv_dispatch_add_tail q3 r"
  have k3: "kept {r} q q3" using q3(3) by (simp add: kept_def)
  then have k: "kept {r} q ?q4" by (simp add: kept_def)
  have "dl_core ?q4 (F(d := remove1 r (F d))) (S(d := ys @ zs)) (D @ [r])"
  proof (rule dl_core_less [OF c r _ k])
    show "fifos (links ?q4) (fifo_list (elevator_data ?q4)) (queue_head ?q4) (F(d := remove1 r (F d))) (D @ [r])"
      using fifos_dispatch [OF D(1) rF] keptD(3,4) [OF k3] q3(2) by simp
    show "\<forall>e. rb_list (deadline_rb_root ?q4 e) ((S(d := ys @ zs)) e)" using q3(5) by (simp add: deadline_rb_root_def)
    have "head_or_null zs \<in> insert NULL (set (remove1 r (F d)))"
      using hn head_or_null_in [of zs] zF remove1_set [OF fifos_distinct(1) [OF D(1)], of r d] by auto
    then show "\<forall>e. next_rq (elevator_data ?q4) e \<in> insert NULL (set ((F(d := remove1 r (F d))) e))" using q3(6) by simp
  qed
  then show ?thesis using m q3 k by (simp add: deadline_move_to_dispatch_def)
qed

section \<open>Adding a request\<close>

lemma put_tree_same: "put_tree d (deadline_rb_root q d) q = q"
  by (simp add: put_tree_def set_dd_def deadline_rb_root_def)

lemma add_rq_rb_now:
  assumes c: "dl_core q F S D" and b: "\<forall>e. by_pos (rqs q) (S e)" and r: "node_ok r" "data_dir q r = d" "r \<notin> set (S d)"
    and p: "\<forall>x\<in>set (S d). blk_rq_pos (rqs q x) \<noteq> blk_rq_pos (rqs q r)"
  shows "\<exists>q' ys zs. deadline_add_rq_rb q r = Some q' \<and> S d = ys @ zs \<and>
    (\<forall>e. rb_list (deadline_rb_root q' e) ((S(d := ys @ r # zs)) e) \<and> by_pos (rqs q') ((S(d := ys @ r # zs)) e)) \<and>
    links q' = links q \<and> next_rq (elevator_data q') = next_rq (elevator_data q) \<and> kept {} q q' \<and> nr_sorted q' = nr_sorted q"
proof -
  note D = dl_coreD [OF c]
  obtain st ys zs where st: "elv_rb_add (rqs q) (deadline_rb_root q d) r = Some (NULL, st)" "S d = ys @ zs"
    "rb_list st (ys @ r # zs)" "by_pos (rqs q) (ys @ r # zs)"
    "\<forall>z. z \<notin> set (r # S d) \<longrightarrow> nodes st z = nodes (deadline_rb_root q d) z"
    using elv_rb_add_new [OF D(2) _ r(1,3) p] b by blast
  have "deadline_add_rq_rb q r = Some (put_tree d st q)"
    using st(1) r(2) by (subst deadline_add_rq_rb.simps) simp
  moreover have "rb_list (deadline_rb_root (put_tree d st q) e) ((S(d := ys @ r # zs)) e)" for e
  proof (rule put_tree_trees)
    show "rb_list (deadline_rb_root q (\<not> d)) (S (\<not> d))" by (rule D(2))
    show "nodes st z = rb_nodes q z" if "z \<in> set (S (\<not> d))" for z
    proof -
      have "z \<noteq> r" using that D(3) [of "\<not> d"] D(4) [of z "\<not> d"] r(2) by auto
      then show ?thesis using st(5) D(6) [of d] that by (auto simp: deadline_rb_root_def)
    qed
  qed (rule st(3))
  moreover have "by_pos (rqs q) ((S(d := ys @ r # zs)) e)" for e using b st(4) by simp
  moreover have "kept {} q (put_tree d st q)" by (simp add: kept_def)
  ultimately show ?thesis using st(2) by (intro exI [of _ "put_tree d st q"] exI [of _ ys] exI [of _ zs]) simp
qed

text \<open>A request at the same position is dispatched first.\<close>

lemma add_rq_rb_alias:
  assumes c: "dl_core q F S D" and b: "\<forall>e. by_pos (rqs q) (S e)" and r: "node_ok r" "data_dir q r = d" "r \<notin> set (S d)"
  shows "\<exists>A q' F' S'. deadline_add_rq_rb q r = deadline_add_rq_rb q' r \<and> dl_core q' F' S' (D @ A) \<and>
    (\<forall>e. by_pos (rqs q') (S' e)) \<and> (\<forall>x\<in>set (S' d). blk_rq_pos (rqs q' x) \<noteq> blk_rq_pos (rqs q' r)) \<and>
    (A = [] \<or> (\<exists>a. A = [a] \<and> a \<in> set (S d) \<and> blk_rq_pos (rqs q a) = blk_rq_pos (rqs q r))) \<and>
    (\<forall>e. F' e = filter (\<lambda>x. x \<notin> set A) (F e) \<and> set (S' e) = set (S e) - set A) \<and>
    kept (set A) q q' \<and> nr_sorted q' = nr_sorted q - of_nat (length A) \<and> (A = [] \<longrightarrow> next_rq (elevator_data q') = next_rq (elevator_data q))"
proof (cases "\<exists>a\<in>set (S d). blk_rq_pos (rqs q a) = blk_rq_pos (rqs q r)")
  case False
  then show ?thesis using c b by (intro exI [of _ "[]"] exI [of _ q] exI [of _ F] exI [of _ S]) simp
next
  case True
  then obtain a where a: "a \<in> set (S d)" "blk_rq_pos (rqs q a) = blk_rq_pos (rqs q r)" by blast
  note D = dl_coreD [OF c]
  obtain ys zs where s: "S d = ys @ a # zs" using split_list [OF a(1)] by blast
  obtain q' where q': "deadline_move_request q a = Some q'"
    "dl_core q' (F(d := remove1 a (F d))) (S(d := ys @ zs)) (D @ [a])" "kept {a} q q'" "nr_sorted q' = nr_sorted q - 1"
    using deadline_move_ok [OF c s] by blast
  have al: "elv_rb_add (rqs q) (deadline_rb_root q d) r = Some (a, deadline_rb_root q d)"
    using elv_rb_add_alias [OF D(2) _ r(1,3) a] b by blast
  have "a \<noteq> NULL" using rb_list_ok [OF D(2) a(1)] by simp
  then have 1: "deadline_add_rq_rb q r = deadline_add_rq_rb q' r"
    using al r(2) q'(1) by (subst deadline_add_rq_rb.simps) (simp add: put_tree_same)
  have dist: "distinct (ys @ a # zs)" "distinct (F e)" for e
    using rb_list_distinct [OF D(2) [of d]] s fifos_distinct(1) [OF D(1)] by simp_all
  have aF: "a \<notin> set (F (\<not> d))" using fifos_distinct(2) [OF D(1), of a d] D(3) [of d] a(1) by auto
  have 2: "(F(d := remove1 a (F d))) e = filter (\<lambda>x. x \<notin> set [a]) (F e)" for e
  proof (cases "e = d")
    case True
    then show ?thesis using dist(2) by (simp add: distinct_remove1_removeAll removeAll_filter_not_eq) (rule filter_cong, auto)
  next
    case False
    then have e: "e = (\<not> d)" by auto
    have "filter (\<lambda>x. x \<noteq> a) (F (\<not> d)) = F (\<not> d)" using aF by (auto simp: filter_id_conv)
    then show ?thesis using False unfolding e by simp
  qed
  have 3: "set ((S(d := ys @ zs)) e) = set (S e) - set [a]" for e
  proof (cases "e = d")
    case False
    then have "e = (\<not> d)" by auto
    then show ?thesis using D(6) [of d] a(1) by auto
  qed (use dist(1) s in auto)
  have "by_pos (rqs q) (ys @ zs)" using b [rule_format, of d] s by (auto simp: by_pos_append by_pos_Cons)
  then have bp: "by_pos (rqs q') ((S(d := ys @ zs)) e)" for e unfolding keptD(2) [OF q'(3)] using b by simp
  have 4: "\<forall>x\<in>set ((S(d := ys @ zs)) d). blk_rq_pos (rqs q' x) \<noteq> blk_rq_pos (rqs q' r)"
    using by_pos_unique [of "rqs q" "S d"] b a q'(3) 3 [of d] by (auto simp: kept_def)
  show ?thesis
    using 1 q'(2,3,4) 2 3 4 bp a
    by (intro exI [of _ "[a]"] exI [of _ q'] exI [of _ "F(d := remove1 a (F d))"] exI [of _ "S(d := ys @ zs)"]) simp
qed

lemma add_rq_rb_ok:
  assumes c: "dl_core q F S D" and b: "\<forall>e. by_pos (rqs q) (S e)" and r: "node_ok r" "data_dir q r = d" "r \<notin> set (S d)"
  shows "\<exists>A q' F' S'. deadline_add_rq_rb q r = Some q' \<and>
    fifos (links q') (fifo_list (elevator_data q')) (queue_head q') F' (D @ A) \<and>
    (\<forall>e. rb_list (deadline_rb_root q' e) (S' e) \<and> by_pos (rqs q') (S' e) \<and>
       set (S' e) = set (S e) - set A \<union> (if e = d then {r} else {}) \<and> F' e = filter (\<lambda>x. x \<notin> set A) (F e) \<and>
       next_rq (elevator_data q') e \<in> insert NULL (set (F' e)) \<and> (\<forall>x\<in>set (F' e). data_dir q' x = e)) \<and>
    (A = [] \<or> (\<exists>a. A = [a] \<and> a \<in> set (S d) \<and> blk_rq_pos (rqs q a) = blk_rq_pos (rqs q r))) \<and>
    kept (set A) q q' \<and> nr_sorted q' = nr_sorted q - of_nat (length A) \<and> (A = [] \<longrightarrow> next_rq (elevator_data q') = next_rq (elevator_data q))"
proof -
  obtain A q1 F1 S1 where 1: "deadline_add_rq_rb q r = deadline_add_rq_rb q1 r" "dl_core q1 F1 S1 (D @ A)"
    "\<forall>e. by_pos (rqs q1) (S1 e)" "\<forall>x\<in>set (S1 d). blk_rq_pos (rqs q1 x) \<noteq> blk_rq_pos (rqs q1 r)"
    "A = [] \<or> (\<exists>a. A = [a] \<and> a \<in> set (S d) \<and> blk_rq_pos (rqs q a) = blk_rq_pos (rqs q r))"
    "\<forall>e. F1 e = filter (\<lambda>x. x \<notin> set A) (F e) \<and> set (S1 e) = set (S e) - set A"
    "kept (set A) q q1" "nr_sorted q1 = nr_sorted q - of_nat (length A)"
    "A = [] \<longrightarrow> next_rq (elevator_data q1) = next_rq (elevator_data q)"
    using add_rq_rb_alias [OF c b r] by blast
  have d1: "data_dir q1 r = d" unfolding keptD(1) [OF 1(7)] by (rule r(2))
  have rS1: "r \<notin> set (S1 d)" using 1(6) [rule_format, of d] r(3) by simp
  obtain q2 ys zs where 2: "deadline_add_rq_rb q1 r = Some q2" "S1 d = ys @ zs"
    "\<forall>e. rb_list (deadline_rb_root q2 e) ((S1(d := ys @ r # zs)) e) \<and> by_pos (rqs q2) ((S1(d := ys @ r # zs)) e)"
    "links q2 = links q1" "next_rq (elevator_data q2) = next_rq (elevator_data q1)" "kept {} q1 q2" "nr_sorted q2 = nr_sorted q1"
    using add_rq_rb_now [OF 1(2,3) r(1) d1 rS1 1(4)] by blast
  note C = dl_coreD [OF 1(2)]
  have f: "fifos (links q2) (fifo_list (elevator_data q2)) (queue_head q2) F1 (D @ A)"
    unfolding 2(4) keptD(3,4) [OF 2(6)] by (rule C(1))
  have s: "set ((S1(d := ys @ r # zs)) e) = set (S e) - set A \<union> (if e = d then {r} else {})" for e
    using 1(6) [rule_format, of e] 2(2) by (cases "e = d") auto
  have n: "next_rq (elevator_data q2) e \<in> insert NULL (set (F1 e))" for e unfolding 2(5) by (rule C(5))
  have dd: "data_dir q2 x = e" if "x \<in> set (F1 e)" for x e unfolding keptD(1) [OF 2(6)] by (rule C(4) [OF that])
  have k: "kept (set A) q q2" using kept_trans [OF 1(7) 2(6)] by simp
  have nr: "nr_sorted q2 = nr_sorted q - of_nat (length A)" using 2(7) 1(8) by simp
  have n0: "A = [] \<longrightarrow> next_rq (elevator_data q2) = next_rq (elevator_data q)" using 2(5) 1(9) by simp
  have e: "deadline_add_rq_rb q r = Some q2" using 1(1) 2(1) by simp
  have F1: "F1 e = filter (\<lambda>x. x \<notin> set A) (F e)" for e using 1(6) by blast
  show ?thesis
    by (intro exI [of _ A] exI [of _ q2] exI [of _ F1] exI [of _ "S1(d := ys @ r # zs)"] conjI allI e f s F1 n ballI dd 1(5) k nr n0)
      (use 2(3) in blast)+
qed

lemma dlI:
  assumes "fifos (links q) (fifo_list (elevator_data q)) (queue_head q) F D"
    and "\<And>e. rb_list (deadline_rb_root q e) (S e)" "\<And>e. by_pos (rqs q) (S e)" "\<And>e. set (S e) = set (F e)"
    and "\<And>e x. x \<in> set (F e) \<Longrightarrow> data_dir q x = e" "\<And>e. next_rq (elevator_data q) e \<in> insert NULL (set (F e))"
  shows "dl q F S D"
  unfolding dl_def dl_core_def using assms by simp

lemma dlD:
  assumes "dl q F S D"
  shows "dl_core q F S D" "\<forall>e. by_pos (rqs q) (S e)" "set (S d) = set (F d)" "r \<in> set (F d) \<Longrightarrow> node_ok r"
proof -
  show c: "dl_core q F S D" "\<forall>e. by_pos (rqs q) (S e)" "set (S d) = set (F d)" using assms by (simp_all add: dl_def)
  show "r \<in> set (F d) \<Longrightarrow> node_ok r" using rb_list_ok [OF dl_coreD(2) [OF c(1)], of r d] c(3) by simp
qed

lemma deadline_add_ok:
  assumes l: "dl q F S D" and r: "node_ok r" "\<And>e. r \<notin> set (fifo_list (elevator_data q) e # F e)" "r \<notin> set (queue_head q # D)"
    and dr: "data_dir q r = d"
  shows "\<exists>A q' F' S'. deadline_add_request q r = Some q' \<and> dl q' F' S' (D @ A) \<and>
    F' = (\<lambda>e. filter (\<lambda>x. x \<notin> set A) (F e) @ (if e = d then [r] else [])) \<and>
    (A = [] \<or> (\<exists>a. A = [a] \<and> a \<in> set (F d) \<and> blk_rq_pos (rqs q a) = blk_rq_pos (rqs q r))) \<and>
    nr_sorted q' = nr_sorted q - of_nat (length A) \<and> kept (insert r (set A)) q q' \<and>
    rq_fifo_time (rqs q' r) = jiffies q + fifo_expire (elevator_data q) d \<and> (A = [] \<longrightarrow> next_rq (elevator_data q') = next_rq (elevator_data q))"
proof -
  note L = dlD [OF l]
  have rS: "r \<notin> set (S d)" using r(2) [of d] L(3) [of d] by simp
  obtain A q2 F1 S1 where 1: "deadline_add_rq_rb q r = Some q2"
    "fifos (links q2) (fifo_list (elevator_data q2)) (queue_head q2) F1 (D @ A)"
    "\<forall>e. rb_list (deadline_rb_root q2 e) (S1 e) \<and> by_pos (rqs q2) (S1 e) \<and>
       set (S1 e) = set (S e) - set A \<union> (if e = d then {r} else {}) \<and> F1 e = filter (\<lambda>x. x \<notin> set A) (F e) \<and>
       next_rq (elevator_data q2) e \<in> insert NULL (set (F1 e)) \<and> (\<forall>x\<in>set (F1 e). data_dir q2 x = e)"
    "A = [] \<or> (\<exists>a. A = [a] \<and> a \<in> set (S d) \<and> blk_rq_pos (rqs q a) = blk_rq_pos (rqs q r))"
    "kept (set A) q q2" "nr_sorted q2 = nr_sorted q - of_nat (length A)"
    "A = [] \<longrightarrow> next_rq (elevator_data q2) = next_rq (elevator_data q)"
    using add_rq_rb_ok [OF L(1,2) r(1) dr rS] by blast
  let ?dd = "elevator_data q2"
  let ?q3 = "rq_set_fifo_time r (jiffies q2 + fifo_expire ?dd d) q2"
  let ?q' = "?q3\<lparr>links := list_add_tail r (fifo_list ?dd d) (links ?q3)\<rparr>"
  have e: "deadline_add_request q r = Some ?q'"
    using 1(1) by (simp add: deadline_add_request_def dr Let_def)
  have k: "kept (insert r (set A)) q ?q'" using 1(5) by (simp add: kept_def rq_set_fifo_time_def)
  have AF: "A = [] \<or> (\<exists>a. A = [a] \<and> a \<in> set (F d) \<and> blk_rq_pos (rqs q a) = blk_rq_pos (rqs q r))"
    using 1(4) unfolding L(3) [of d] .
  then have "set A \<subseteq> set (F d)" by (metis empty_subsetI insert_subset list.set(1,2))
  then have rA: "r \<notin> set A" using r(2) [of d] by auto
  have F1: "F1 e = filter (\<lambda>x. x \<notin> set A) (F e)" for e using 1(3) by blast
  have fr: "r \<notin> set (fifo_list (elevator_data q2) e # F1 e)" for e
    using r(2) [of e] F1 [of e] unfolding keptD(3) [OF 1(5)] by simp
  have fd: "r \<notin> set (queue_head q2 # D @ A)" using r(3) rA unfolding keptD(4) [OF 1(5)] by simp
  have f: "fifos (links ?q') (fifo_list (elevator_data ?q')) (queue_head ?q') (F1(d := F1 d @ [r])) (D @ A)"
    using fifos_add [OF 1(2) fr fd, of d] by (simp add: rq_set_fifo_time_def)
  have bp: "by_pos (rqs ?q') xs = by_pos (rqs q2) xs" for xs by (rule by_pos_cong) (simp add: rq_set_fifo_time_def)
  have "rb_list (deadline_rb_root ?q' e) (S1 e) \<and> by_pos (rqs ?q') (S1 e)" for e
    unfolding bp using 1(3) by (simp add: deadline_rb_root_def rq_set_fifo_time_def)
  moreover have "set (S1 e) = set ((F1(d := F1 d @ [r])) e)" for e
    using 1(3) [rule_format, of e] L(3) [of e] F1 [of e] F1 [of d] by (cases "e = d") auto
  moreover have "data_dir ?q' x = e" if "x \<in> set ((F1(d := F1 d @ [r])) e)" for x e
  proof -
    have "data_dir ?q' x = data_dir q2 x" by (simp add: data_dir_def rq_set_fifo_time_def)
    moreover have "data_dir q2 r = d" unfolding keptD(1) [OF 1(5)] by (rule dr)
    ultimately show ?thesis using that 1(3) [rule_format, of e] by (auto split: if_splits)
  qed
  moreover have "next_rq (elevator_data ?q') e \<in> insert NULL (set ((F1(d := F1 d @ [r])) e))" for e
    using 1(3) [rule_format, of e] by (auto simp: rq_set_fifo_time_def)
  ultimately have "dl ?q' (F1(d := F1 d @ [r])) S1 (D @ A)"
    unfolding dl_def dl_core_def using f by simp
  moreover have "rq_fifo_time (rqs ?q' r) = jiffies q + fifo_expire (elevator_data q) d"
    using 1(5) by (simp add: rq_set_fifo_time_def kept_def)
  moreover have "nr_sorted ?q' = nr_sorted q - of_nat (length A)" using 1(6) by (simp add: rq_set_fifo_time_def)
  moreover have "A = [] \<longrightarrow> next_rq (elevator_data ?q') = next_rq (elevator_data q)"
    using 1(7) by (simp add: rq_set_fifo_time_def)
  moreover have "F1(d := F1 d @ [r]) = (\<lambda>e. filter (\<lambda>x. x \<notin> set A) (F e) @ (if e = d then [r] else []))"
    using F1 by (auto simp: fun_eq_iff)
  ultimately show ?thesis using e k AF by (intro exI [of _ A] exI [of _ ?q']) auto
qed

section \<open>Which request a dispatch takes\<close>

lemma dl_set_dd:
  assumes "\<And>dd. fifo_list (g dd) = fifo_list dd" "\<And>dd. sort_list (g dd) = sort_list dd" "\<And>dd. next_rq (g dd) = next_rq dd"
  shows "dl (set_dd g q) F S D = dl q F S D"
  by (simp add: dl_def dl_core_def deadline_rb_root_def data_dir_def assms)

definition dl_expired :: "deadline_queue \<Rightarrow> (bool \<Rightarrow> ptr list) \<Rightarrow> bool \<Rightarrow> bool" where
  "dl_expired q F d \<longleftrightarrow> time_after (jiffies q) (rq_fifo_time (rqs q (head_or_null (F d))))"

text \<open>The direction of a new batch, and the first request of a batch in this direction.\<close>

definition dl_direction :: "deadline_queue \<Rightarrow> (bool \<Rightarrow> ptr list) \<Rightarrow> bool" where
  "dl_direction q F \<longleftrightarrow>
     F READ = [] \<or> F WRITE \<noteq> [] \<and> starved (elevator_data q) \<ge> writes_starved (elevator_data q)"

definition dl_batch_head :: "deadline_queue \<Rightarrow> (bool \<Rightarrow> ptr list) \<Rightarrow> bool \<Rightarrow> ptr" where
  "dl_batch_head q F d =
     (if dl_expired q F d \<or> next_rq (elevator_data q) d = NULL then head_or_null (F d) else next_rq (elevator_data q) d)"

definition dl_current :: "deadline_queue \<Rightarrow> ptr" where
  "dl_current q =
     (let dd = elevator_data q in if next_rq dd WRITE \<noteq> NULL then next_rq dd WRITE else next_rq dd READ)"

definition dl_batches :: "deadline_queue \<Rightarrow> bool" where
  "dl_batches q \<longleftrightarrow> dl_current q \<noteq> NULL \<and> batching (elevator_data q) < fifo_batch (elevator_data q)"

definition dl_choice :: "deadline_queue \<Rightarrow> (bool \<Rightarrow> ptr list) \<Rightarrow> ptr" where
  "dl_choice q F = (if dl_batches q then dl_current q else dl_batch_head q F (dl_direction q F))"

lemma dl_empty: "dl q F S D \<Longrightarrow> RB_EMPTY_ROOT (deadline_rb_root q d) \<longleftrightarrow> F d = []"
  using rb_list_empty dl_coreD(2) dlD(1,3) by (metis set_empty)

lemma dl_choice_in:
  assumes l: "dl q F S D" and ne: "F READ \<noteq> [] \<or> F WRITE \<noteq> []"
  shows "dl_choice q F \<in> set (F READ) \<union> set (F WRITE)" "\<not> dl_batches q \<Longrightarrow> dl_choice q F \<in> set (F (dl_direction q F))"
proof -
  note n = dl_coreD(5) [OF dlD(1) [OF l]]
  have b: "dl_batch_head q F d \<in> set (F d)" if "F d \<noteq> []" for d
    using n [of d] that by (cases "F d") (auto simp: dl_batch_head_def)
  have "F (dl_direction q F) \<noteq> []" using ne by (cases "dl_direction q F") (auto simp: dl_direction_def)
  then have d: "dl_batch_head q F (dl_direction q F) \<in> set (F (dl_direction q F))" by (rule b)
  then show "\<not> dl_batches q \<Longrightarrow> dl_choice q F \<in> set (F (dl_direction q F))" by (simp add: dl_choice_def)
  have "dl_current q \<in> set (F READ) \<union> set (F WRITE)" if "dl_current q \<noteq> NULL"
    using n [of READ] n [of WRITE] that by (auto simp: dl_current_def Let_def split: if_splits)
  then show "dl_choice q F \<in> set (F READ) \<union> set (F WRITE)"
    using d by (cases "dl_direction q F") (auto simp: dl_choice_def dl_batches_def)
qed

lemma dispatch_request_ok:
  assumes l: "dl q F S D" and r: "r \<in> set (F d)"
  shows "\<exists>q'. dispatch_request q r = Some (1, q') \<and>
    dl q' (F(d := remove1 r (F d))) (S(d := remove1 r (S d))) (D @ [r]) \<and> nr_sorted q' = nr_sorted q - 1 \<and>
    (\<exists>q0. q0 = set_dd (\<lambda>dd. dd\<lparr>batching := batching dd + 1\<rparr>) q \<and> kept {r} q0 q') \<and>
    next_rq (elevator_data q') = (\<lambda>_. NULL)(d := head_or_null (tl (dropWhile (\<lambda>x. x \<noteq> r) (S d))))"
proof -
  let ?q0 = "set_dd (\<lambda>dd. dd\<lparr>batching := batching dd + 1\<rparr>) q"
  have l0: "dl ?q0 F S D" using l by (simp add: dl_set_dd)
  note L = dlD [OF l0] and C = dl_coreD [OF dlD(1) [OF l0]]
  have rS: "r \<in> set (S d)" using r L(3) [of d] by simp
  obtain ys zs where s: "S d = ys @ r # zs" using split_list [OF rS] by blast
  have dist: "distinct (ys @ r # zs)" using rb_list_distinct [OF C(2) [of d]] s by simp
  have s1: "remove1 r (S d) = ys @ zs" "tl (dropWhile (\<lambda>x. x \<noteq> r) (S d)) = zs"
    using dist unfolding s by (simp_all add: remove1_append dropWhile_append)
  obtain q' where q': "deadline_move_request ?q0 r = Some q'"
    "dl_core q' (F(d := remove1 r (F d))) (S(d := ys @ zs)) (D @ [r])" "kept {r} ?q0 q'" "nr_sorted q' = nr_sorted q - 1"
    "next_rq (elevator_data q') = (\<lambda>_. NULL)(d := head_or_null zs)"
    using deadline_move_ok [OF L(1) s] by auto
  have "by_pos (rqs ?q0) (ys @ zs)" using L(2) [rule_format, of d] s by (auto simp: by_pos_append by_pos_Cons)
  then have b: "by_pos (rqs q') ((S(d := ys @ zs)) e)" for e unfolding keptD(2) [OF q'(3)] using L(2) by simp
  have "set ((S(d := ys @ zs)) e) = set ((F(d := remove1 r (F d))) e)" for e
    using L(3) [of e] dist s remove1_set [OF fifos_distinct(1) [OF C(1)], of r d] by (cases "e = d") auto
  with q'(2) b have "dl q' (F(d := remove1 r (F d))) (S(d := ys @ zs)) (D @ [r])" unfolding dl_def by blast
  then show ?thesis using q' s1 by (simp add: dispatch_request_def)
qed

lemma dispatch_find_request_eq:
  assumes "dl q F S D" "F d \<noteq> []"
  shows "dispatch_find_request q d = dispatch_request (set_dd (\<lambda>dd. dd\<lparr>batching := 0\<rparr>) q) (dl_batch_head q F d)"
proof -
  obtain r rs where F: "F d = r # rs" using assms(2) by (cases "F d") auto
  have "nxt (links q) (fifo_list (elevator_data q) d) = r"
    using fifos_first [OF dl_coreD(1) [OF dlD(1) [OF assms(1)]] F] .
  then show ?thesis
    by (simp add: dispatch_find_request_def dl_batch_head_def dl_expired_def deadline_check_fifo_def F Let_def)
qed

text \<open>The queue when the chosen request is taken.\<close>

definition dl_select :: "deadline_queue \<Rightarrow> (bool \<Rightarrow> ptr list) \<Rightarrow> deadline_queue" where
  "dl_select q F =
     (if dl_batches q then q
      else set_dd (\<lambda>dd. dd\<lparr>
             starved := if dl_direction q F then 0 else if F WRITE \<noteq> [] then starved dd + 1 else starved dd,
             batching := 0\<rparr>) q)"

lemma deadline_dispatch_eq:
  assumes l: "dl q F S D"
  shows "deadline_dispatch_requests q force =
    (if F READ = [] \<and> F WRITE = [] then Some (0, q) else dispatch_request (dl_select q F) (dl_choice q F))"
proof -
  note E = fifos_empty [OF dl_coreD(1) [OF dlD(1) [OF l]]] and R = dl_empty [OF l]
  define at where "at k = set_dd (\<lambda>dd. dd\<lparr>starved := k\<rparr>) q" for k
  have fd: "dispatch_find_request (at k) d = dispatch_request (set_dd (\<lambda>dd. dd\<lparr>starved := k, batching := 0\<rparr>) q) (dl_batch_head q F d)"
    if "F d \<noteq> []" for k d
  proof -
    have "dl (at k) F S D" using l by (simp add: dl_set_dd at_def)
    from dispatch_find_request_eq [OF this that]
    have "dispatch_find_request (at k) d = dispatch_request (set_dd (\<lambda>dd. dd\<lparr>batching := 0\<rparr>) (at k)) (dl_batch_head (at k) F d)" .
    moreover have "dl_batch_head (at k) F d = dl_batch_head q F d" by (simp add: dl_batch_head_def dl_expired_def at_def)
    moreover have "set_dd (\<lambda>dd. dd\<lparr>batching := 0\<rparr>) (at k) = set_dd (\<lambda>dd. dd\<lparr>starved := k, batching := 0\<rparr>) q"
      by (simp add: set_dd_def at_def)
    ultimately show ?thesis by simp
  qed
  have q: "q = at (starved (elevator_data q))" by (simp add: at_def set_dd_def)
  have sw: "dispatch_writes (at k) = dispatch_find_request (at 0) WRITE" if "F WRITE \<noteq> []" for k
    using R [of WRITE] that by (simp add: dispatch_writes_def at_def set_dd_def deadline_rb_root_def)
  show ?thesis
  proof (cases "dl_batches q")
    case True
    then have "F READ \<noteq> [] \<or> F WRITE \<noteq> []"
      using dl_coreD(5) [OF dlD(1) [OF l], of READ] dl_coreD(5) [OF dlD(1) [OF l], of WRITE]
      by (auto simp: dl_batches_def dl_current_def Let_def split: if_splits)
    then show ?thesis using True
      by (auto simp: deadline_dispatch_requests_def dl_batches_def dl_current_def dl_select_def dl_choice_def Let_def)
  next
    case False
    then have nb: "\<not> ((if next_rq (elevator_data q) WRITE \<noteq> NULL then next_rq (elevator_data q) WRITE
        else next_rq (elevator_data q) READ) \<noteq> NULL \<and> batching (elevator_data q) < fifo_batch (elevator_data q))"
      by (simp add: dl_batches_def dl_current_def Let_def)
    have "deadline_dispatch_requests q force =
      (if F READ \<noteq> [] then
         if F WRITE \<noteq> [] then
           if starved (elevator_data q) \<ge> writes_starved (elevator_data q) then dispatch_find_request (at 0) WRITE
           else dispatch_find_request (at (starved (elevator_data q) + 1)) READ
         else dispatch_find_request (at (starved (elevator_data q))) READ
       else if F WRITE \<noteq> [] then dispatch_find_request (at 0) WRITE
       else Some (0, q))"
      unfolding deadline_dispatch_requests_def Let_def if_not_P [OF nb] E R
      using sw [of "starved (elevator_data q) + 1"] sw [of "starved (elevator_data q)"] q by (simp add: at_def set_dd_def)
    then show ?thesis using False fd
      by (auto simp: dl_choice_def dl_select_def dl_direction_def set_dd_def)
  qed
qed


lemma deadline_dispatch_ok:
  assumes l: "dl q F S D" and ne: "F READ \<noteq> [] \<or> F WRITE \<noteq> []" and c: "dl_choice q F = c"
  shows "\<exists>q' d. deadline_dispatch_requests q force = Some (1, q') \<and> c \<in> set (F d) \<and> (dl_batches q \<or> d = dl_direction q F) \<and>
    dl q' (F(d := remove1 c (F d))) (S(d := remove1 c (S d))) (D @ [c]) \<and> nr_sorted q' = nr_sorted q - 1 \<and>
    kept {c} (set_dd (\<lambda>dd. dd\<lparr>batching := batching dd + 1\<rparr>) (dl_select q F)) q' \<and>
    next_rq (elevator_data q') = (\<lambda>_. NULL)(d := head_or_null (tl (dropWhile (\<lambda>x. x \<noteq> c) (S d))))"
proof -
  have s: "dl (dl_select q F) F S D" using l by (simp add: dl_select_def dl_set_dd)
  have n: "nr_sorted (dl_select q F) = nr_sorted q" by (simp add: dl_select_def)
  have "\<exists>d. c \<in> set (F d) \<and> (dl_batches q \<or> d = dl_direction q F)"
    using dl_choice_in [OF l ne] c by (cases "dl_batches q") auto
  then obtain d where d: "c \<in> set (F d)" "dl_batches q \<or> d = dl_direction q F" by blast
  from dispatch_request_ok [OF s d(1)] show ?thesis
    using deadline_dispatch_eq [OF l, of force] ne c d n by auto
qed


section \<open>Merges\<close>

text \<open>
  A front merge moves the start of \<open>req\<close>, so that the tree is ordered but for \<open>req\<close>; afterwards all of it is.
\<close>

lemma deadline_merged_request_ok:
  assumes c: "dl_core q F S D" and s: "\<forall>e. set (S e) = set (F e) \<and> by_pos (rqs q) (remove1 req (S e))"
    and r: "req \<in> set (F d)"
  shows "\<exists>A q' S'. deadline_merged_request q req ELEVATOR_FRONT_MERGE = Some q' \<and>
    dl q' (\<lambda>e. filter (\<lambda>x. x \<notin> set A) (F e)) S' (D @ A) \<and> kept (set A) q q' \<and>
    nr_sorted q' = nr_sorted q - of_nat (length A) \<and>
    (A = [] \<or> (\<exists>a. A = [a] \<and> a \<noteq> req \<and> a \<in> set (F d) \<and> blk_rq_pos (rqs q a) = blk_rq_pos (rqs q req)))"
proof -
  note C = dl_coreD [OF c]
  have dr: "data_dir q req = d" by (rule C(4) [OF r])
  have rS: "req \<in> set (S d)" using r s by simp
  have dist: "distinct (S e)" for e by (rule rb_list_distinct [OF C(2)])
  have nS: "req \<notin> set (S e)" if "e \<noteq> d" for e
    using C(4) [of req e] s dr that by auto
  obtain st where st: "elv_rb_del (deadline_rb_root q d) req = Some st" "rb_list st (remove1 req (S d))"
    "\<And>z. z \<notin> set (S d) \<Longrightarrow> nodes st z = nodes (deadline_rb_root q d) z"
    using elv_rb_del_ok [OF C(2) rS] by blast
  let ?q1 = "put_tree d st q" and ?S1 = "S(d := remove1 req (S d))"
  have t: "rb_list (deadline_rb_root ?q1 e) (?S1 e)" for e
  proof (rule put_tree_trees)
    show "rb_list (deadline_rb_root q (\<not> d)) (S (\<not> d))" by (rule C(2))
    show "nodes st z = rb_nodes q z" if "z \<in> set (S (\<not> d))" for z
      using st(3) [of z] C(6) [of d] that by (auto simp: deadline_rb_root_def)
  qed (rule st(2))
  have S1: "set (?S1 e) = set (F e) - {req}" for e
    using s dist nS [of e] by (cases "e = d") (auto simp: remove1_set)
  have dd: "data_dir ?q1 x = data_dir q x" for x by (simp add: data_dir_def)
  have c1: "dl_core ?q1 F ?S1 D"
    unfolding dl_core_def dd using C(1,4,5) t S1 by simp
  have b1: "\<forall>e. by_pos (rqs ?q1) (?S1 e)"
  proof
    show "by_pos (rqs ?q1) (?S1 e)" for e using s [rule_format, of e] nS [of e] by (cases "e = d") (simp_all add: remove1_idem)
  qed
  have d1: "data_dir ?q1 req = d" using dr dd by simp
  have n1: "req \<notin> set (?S1 d)" using S1 [of d] by simp
  obtain A q' F' S' where 1: "deadline_add_rq_rb ?q1 req = Some q'"
    "fifos (links q') (fifo_list (elevator_data q')) (queue_head q') F' (D @ A)"
    "\<forall>e. rb_list (deadline_rb_root q' e) (S' e) \<and> by_pos (rqs q') (S' e) \<and>
       set (S' e) = set (?S1 e) - set A \<union> (if e = d then {req} else {}) \<and> F' e = filter (\<lambda>x. x \<notin> set A) (F e) \<and>
       next_rq (elevator_data q') e \<in> insert NULL (set (F' e)) \<and> (\<forall>x\<in>set (F' e). data_dir q' x = e)"
    "A = [] \<or> (\<exists>a. A = [a] \<and> a \<in> set (?S1 d) \<and> blk_rq_pos (rqs ?q1 a) = blk_rq_pos (rqs ?q1 req))"
    "kept (set A) ?q1 q'" "nr_sorted q' = nr_sorted ?q1 - of_nat (length A)"
    using add_rq_rb_ok [OF c1 b1 rb_list_ok [OF C(2) rS] d1 n1] by blast
  have e: "deadline_merged_request q req ELEVATOR_FRONT_MERGE = Some q'"
    by (simp add: deadline_merged_request_def dr st(1) 1(1))
  have A: "A = [] \<or> (\<exists>a. A = [a] \<and> a \<noteq> req \<and> a \<in> set (F d) \<and> blk_rq_pos (rqs q a) = blk_rq_pos (rqs q req))"
    using 1(4) unfolding S1 by auto
  then have rA: "req \<notin> set A" by auto
  have F': "F' = (\<lambda>e. filter (\<lambda>x. x \<notin> set A) (F e))" using 1(3) by blast
  have "set (S' e) = set (F' e)" for e
    using 1(3) [rule_format, of e] S1 [of e] r rA nS [of e] s by (cases "e = d") auto
  then have "dl q' F' S' (D @ A)"
    using 1(3) by (intro dlI [OF 1(2)]) blast+
  moreover have "kept (set A) q q'" using 1(5) by (simp add: kept_def)
  ultimately show ?thesis using e A 1(6) F' by auto
qed


lemma deadline_remove_dl:
  assumes l: "dl q F S D" and r: "r \<in> set (F d)"
  shows "\<exists>q'. deadline_remove_request q r = Some q' \<and> dl q' (F(d := remove1 r (F d))) (S(d := remove1 r (S d))) D \<and>
    kept {r} q q' \<and> nr_sorted q' = nr_sorted q"
proof -
  note L = dlD [OF l] and C = dl_coreD [OF dlD(1) [OF l]]
  obtain ys zs where s: "S d = ys @ r # zs" using split_list [of r "S d"] r L(3) [of d] by auto
  have dist: "distinct (ys @ r # zs)" using rb_list_distinct [OF C(2) [of d]] s by simp
  then have s1: "remove1 r (S d) = ys @ zs" unfolding s by (simp add: remove1_append)
  obtain q' where q': "deadline_remove_request q r = Some q'" "links q' = list_del_init r (links q)" "kept {r} q q'"
    "nr_sorted q' = nr_sorted q" "\<forall>e. rb_list (deadline_rb_root q' e) ((S(d := ys @ zs)) e)"
    "next_rq (elevator_data q') = (next_rq (elevator_data q))
      (d := if next_rq (elevator_data q) d = r then head_or_null zs else next_rq (elevator_data q) d)"
    using deadline_remove_ok [OF L(1) s] by blast
  have F: "set (remove1 r (F d)) = set (F d) - {r}" by (rule remove1_set, rule fifos_distinct(1) [OF C(1)])
  have zs: "insert NULL (set zs) \<subseteq> insert NULL (set (remove1 r (F d)))" using L(3) [of d] s dist unfolding F by auto
  have c: "dl_core q' (F(d := remove1 r (F d))) (S(d := ys @ zs)) D"
  proof (rule dl_core_less [OF L(1) s _ q'(3,5)])
    show "fifos (links q') (fifo_list (elevator_data q')) (queue_head q') (F(d := remove1 r (F d))) D"
      unfolding q'(2) keptD(3,4) [OF q'(3)] by (rule fifos_del [OF C(1) r])
    have n: "(if next_rq (elevator_data q) d = r then head_or_null zs else next_rq (elevator_data q) d) \<in>
        insert NULL (set (remove1 r (F d)))"
      using C(5) [of d] zs head_or_null_in [of zs] unfolding F by auto
    show "\<forall>e. next_rq (elevator_data q') e \<in> insert NULL (set ((F(d := remove1 r (F d))) e))"
    proof
      show "next_rq (elevator_data q') e \<in> insert NULL (set ((F(d := remove1 r (F d))) e))" for e
        unfolding q'(6) fun_upd_apply using n C(5) [of e] by (cases "e = d") (simp_all only: if_True if_False simp_thms)
    qed
  qed
  have "by_pos (rqs q) (ys @ zs)" using L(2) [rule_format, of d] s by (auto simp: by_pos_append by_pos_Cons)
  then have "by_pos (rqs q') ((S(d := ys @ zs)) e)" for e unfolding keptD(2) [OF q'(3)] using L(2) by simp
  moreover have "set ((S(d := ys @ zs)) e) = set ((F(d := remove1 r (F d))) e)" for e
    using L(3) [of e] dist s F by (cases "e = d") auto
  ultimately have "dl q' (F(d := remove1 r (F d))) (S(d := ys @ zs)) D" using c unfolding dl_def by blast
  then show ?thesis using q' s1 by auto
qed

text \<open>
  Merging \<open>next\<close> into \<open>req\<close>: if \<open>next\<close> expires first, \<open>req\<close> takes its deadline and its place in the FIFO list.
\<close>

definition dl_merged_fifo :: "bool \<Rightarrow> ptr \<Rightarrow> ptr \<Rightarrow> ptr list \<Rightarrow> ptr list" where
  "dl_merged_fifo earlier req next xs =
     (if earlier then map (\<lambda>x. if x = next then req else x) (remove1 req xs) else remove1 next xs)"

lemma dl_merged_fifo_move:
  assumes "remove1 req xs = as @ next # bs" "distinct xs" "req \<in> set xs" "next \<noteq> req"
  shows "remove1 next (as @ next # req # bs) = dl_merged_fifo True req next xs"
proof -
  have "distinct (as @ next # bs)" using assms(1,2) by (metis distinct_remove1)
  moreover from this have "map (\<lambda>x. if x = next then req else x) as = as" "map (\<lambda>x. if x = next then req else x) bs = bs"
    by (auto intro!: map_idI)
  ultimately show ?thesis unfolding dl_merged_fifo_def using assms(1,4) by (simp add: remove1_append)
qed

lemma deadline_merged_requests_ok:
  assumes l: "dl q F S D" and r: "req \<in> set (F d)" "next \<in> set (F d)" "next \<noteq> req"
    and e: "time_before (rq_fifo_time (rqs q next)) (rq_fifo_time (rqs q req)) = earlier"
  shows "\<exists>q'. deadline_merged_requests q req next = Some q' \<and>
    dl q' (F(d := dl_merged_fifo earlier req next (F d))) (S(d := remove1 next (S d))) D \<and>
    kept {req, next} q q' \<and> nr_sorted q' = nr_sorted q \<and>
    rq_fifo_time (rqs q' req) = (if earlier then rq_fifo_time (rqs q next) else rq_fifo_time (rqs q req))"
proof -
  note L = dlD [OF l] and C = dl_coreD [OF dlD(1) [OF l]]
  note dist = fifos_distinct(1) [OF C(1), of d]
  have ne: "\<not> list_empty x (links q)" if "x \<in> set (F d)" for x
    using dlist_member_not_empty [OF fifosD(1) [OF C(1)] that] .
  obtain as bs where m: "remove1 req (F d) = as @ next # bs"
    using split_list [of "next" "remove1 req (F d)"] r dist by auto
  define q1 where "q1 = (if earlier then rq_set_fifo_time req (rq_fifo_time (rqs q next)) (q\<lparr>links := list_move req next (links q)\<rparr>) else q)"
  define F1 where "F1 = (if earlier then F(d := as @ next # req # bs) else F)"
  have q1: "deadline_merged_requests q req next = deadline_remove_request q1 next"
    using ne r(1,2) e by (simp add: deadline_merged_requests_def q1_def)
  have k1: "kept {req} q q1" "nr_sorted q1 = nr_sorted q"
    by (simp_all add: q1_def kept_def rq_set_fifo_time_def)
  have f1: "fifos (links q1) (fifo_list (elevator_data q1)) (queue_head q1) F1 D"
    using fifos_move [OF C(1) r m] C(1) by (simp add: q1_def F1_def rq_set_fifo_time_def)
  have sF1: "set (F1 x) = set (F x)" for x
  proof -
    have "set (as @ next # req # bs) = insert req (set (remove1 req (F d)))" unfolding m by auto
    also have "\<dots> = set (F d)" using r(1) dist by auto
    finally show ?thesis by (simp add: F1_def)
  qed
  have l1: "dl q1 F1 S D"
    unfolding dl_def dl_core_def sF1 keptD(1,2) [OF k1(1)]
    using f1 L(2,3) C(2,4,5) by (simp add: q1_def deadline_rb_root_def rq_set_fifo_time_def)
  have "next \<in> set (F1 d)" using r(2) sF1 by simp
  from deadline_remove_dl [OF l1 this] obtain q' where
    q': "deadline_remove_request q1 next = Some q'" "dl q' (F1(d := remove1 next (F1 d))) (S(d := remove1 next (S d))) D"
      "kept {next} q1 q'" "nr_sorted q' = nr_sorted q1" by blast
  have "F1(d := remove1 next (F1 d)) = F(d := dl_merged_fifo earlier req next (F d))"
    using dl_merged_fifo_move [OF m dist r(1,3)] by (simp add: F1_def) (simp add: dl_merged_fifo_def)
  moreover have "kept {req, next} q q'" using kept_trans [OF k1(1) q'(3)] by (simp add: insert_commute)
  moreover have "rqs q' req = rqs q1 req" using q'(3) r(3) by (auto simp: kept_def)
  then have "rq_fifo_time (rqs q' req) = (if earlier then rq_fifo_time (rqs q next) else rq_fifo_time (rqs q req))"
    by (simp add: q1_def rq_set_fifo_time_def)
  ultimately show ?thesis using q1 q' k1(2) by auto
qed

end
