(* ===== verification/Deadline_Contract.thy ===== *)
theory Deadline_Contract
  imports Deadline_Iosched
begin

text \<open>
  What the deadline scheduler promises: it fulfils \<open>io_scheduler\<close>, its operations keep the lists and the trees in step,
  it dispatches the request its policy names, it finds front merges, and reads cannot keep writes waiting for ever.
\<close>

section \<open>The contract of an I/O scheduler\<close>

definition dl_state :: "deadline_queue \<Rightarrow> ptr multiset \<Rightarrow> ptr list \<Rightarrow> bool" where
  "dl_state q P D \<longleftrightarrow> (\<exists>F S. P = mset (F READ) + mset (F WRITE) \<and> dl q F S D)"

text \<open>A request that is on none of the queue's lists.\<close>

definition dl_fresh :: "deadline_queue \<Rightarrow> ptr \<Rightarrow> bool" where
  "dl_fresh q r \<longleftrightarrow> node_ok r \<and> r \<noteq> queue_head q \<and> (\<forall>e. r \<noteq> fifo_list (elevator_data q) e) \<and>
     (\<forall>F S D. dl q F S D \<longrightarrow> r \<notin> set D \<and> (\<forall>e. r \<notin> set (F e)))"

lemma dl_unique:
  assumes "dl q F S D" "dl q F' S' D'"
  shows "F' = F" "D' = D"
proof -
  note f = dl_coreD(1) [OF dlD(1) [OF assms(1)]] and f' = dl_coreD(1) [OF dlD(1) [OF assms(2)]]
  show "F' = F" using dlist_unique [OF fifosD(1) [OF f] fifosD(1) [OF f']] by (auto simp: fun_eq_iff)
  show "D' = D" using dlist_unique [OF fifosD(2) [OF f] fifosD(2) [OF f']] by simp
qed

lemma dl_freshI:
  assumes "dl q F S D" "node_ok r" "r \<notin> set (queue_head q # D)" "\<And>e. r \<notin> set (fifo_list (elevator_data q) e # F e)"
  shows "dl_fresh q r"
  unfolding dl_fresh_def using assms(2-4) dl_unique [OF assms(1)] by auto

lemma dl_freshD:
  assumes "dl_fresh q r" "dl q F S D"
  shows "node_ok r" "r \<notin> set (fifo_list (elevator_data q) e # F e)" "r \<notin> set (queue_head q # D)"
  using assms by (auto simp: dl_fresh_def)

lemma deadline_add_new:
  assumes l: "dl q F S D" and r: "dl_fresh q r" "data_dir q r = d"
    and p: "\<forall>x\<in>set (F d). blk_rq_pos (rqs q x) \<noteq> blk_rq_pos (rqs q r)"
  shows "\<exists>q' S'. deadline_add_request q r = Some q' \<and> dl q' (F(d := F d @ [r])) S' D \<and> kept {r} q q' \<and>
    nr_sorted q' = nr_sorted q \<and> next_rq (elevator_data q') = next_rq (elevator_data q)"
proof -
  obtain A q' F' S' where q': "deadline_add_request q r = Some q'" "dl q' F' S' (D @ A)"
    "F' = (\<lambda>e. filter (\<lambda>x. x \<notin> set A) (F e) @ (if e = d then [r] else []))"
    "A = [] \<or> (\<exists>a. A = [a] \<and> a \<in> set (F d) \<and> blk_rq_pos (rqs q a) = blk_rq_pos (rqs q r))"
    "nr_sorted q' = nr_sorted q - of_nat (length A)" "kept (insert r (set A)) q q'"
    "A = [] \<longrightarrow> next_rq (elevator_data q') = next_rq (elevator_data q)"
    using deadline_add_ok [OF l dl_freshD [OF r(1) l] r(2)] by blast
  have A: "A = []" using q'(4) p by blast
  have "F' = F(d := F d @ [r])" unfolding q'(3) A by (auto simp: fun_eq_iff)
  then show ?thesis using q'(1,2,5,6,7) A by auto
qed

lemma mset_without:
  assumes "distinct xs" "a \<in> set xs"
  shows "add_mset a (mset (filter (\<lambda>x. x \<noteq> a) xs)) = mset xs"
proof -
  have "filter (\<lambda>x. x \<noteq> a) xs = filter ((\<noteq>) a) xs" by (rule filter_cong) auto
  then have "filter (\<lambda>x. x \<noteq> a) xs = remove1 a xs" using distinct_remove1_removeAll [OF assms(1)] by (simp add: removeAll_filter_not_eq)
  then show ?thesis using assms(2) by simp
qed

lemma dl_mset:
  assumes l: "dl q F S D" and A: "A = [] \<or> (\<exists>a. A = [a] \<and> a \<in> set (F d))"
  shows "mset (filter (\<lambda>x. x \<notin> set A) (F READ)) + mset (filter (\<lambda>x. x \<notin> set A) (F WRITE)) + mset A =
    mset (F READ) + mset (F WRITE)"
  using A
proof
  assume "\<exists>a. A = [a] \<and> a \<in> set (F d)"
  then obtain a where a: "A = [a]" "a \<in> set (F d)" by blast
  note f = fifos_distinct [OF dl_coreD(1) [OF dlD(1) [OF l]]]
  have n: "filter (\<lambda>x. x \<noteq> a) (F (\<not> d)) = F (\<not> d)" using f(2) [OF a(2)] by (auto intro!: filter_True)
  have m: "add_mset a (mset (filter (\<lambda>x. x \<noteq> a) (F d))) = mset (F d)" by (rule mset_without [OF f(1) a(2)])
  show ?thesis using n m a(1) by (cases d) auto
qed simp

lemma dl_state_add:
  assumes s: "dl_state q P D" and r: "dl_fresh q r"
  shows "\<exists>q' P' D'. deadline_add_request q r = Some q' \<and> dl_state q' P' D' \<and> r \<in># P' \<and>
    P' + mset D' = add_mset r (P + mset D) \<and> nr_sorted q' + of_nat (size P) + 1 = nr_sorted q + of_nat (size P')"
proof -
  obtain F S where P: "P = mset (F READ) + mset (F WRITE)" and l: "dl q F S D" using s unfolding dl_state_def by blast
  define d where "d = data_dir q r"
  obtain A q' S' where q': "deadline_add_request q r = Some q'"
    "dl q' (\<lambda>e. filter (\<lambda>x. x \<notin> set A) (F e) @ (if e = d then [r] else [])) S' (D @ A)"
    "A = [] \<or> (\<exists>a. A = [a] \<and> a \<in> set (F d) \<and> blk_rq_pos (rqs q a) = blk_rq_pos (rqs q r))"
    "nr_sorted q' = nr_sorted q - of_nat (length A)"
    using deadline_add_ok [OF l dl_freshD(1) [OF r l] dl_freshD(2) [OF r l] dl_freshD(3) [OF r l], of d] by (auto simp: d_def)
  let ?P = "mset (filter (\<lambda>x. x \<notin> set A) (F READ)) + mset (filter (\<lambda>x. x \<notin> set A) (F WRITE))"
  have A: "A = [] \<or> (\<exists>a. A = [a] \<and> a \<in> set (F d))" using q'(3) by auto
  have m: "?P + mset A = P" using dl_mset [OF l A] P by simp
  have st: "dl_state q' (add_mset r ?P) (D @ A)"
    unfolding dl_state_def
    by (rule exI [of _ "\<lambda>e. filter (\<lambda>x. x \<notin> set A) (F e) @ (if e = d then [r] else [])"], rule exI [of _ S'], rule conjI [OF _ q'(2)])
      (cases d, simp_all)
  have "size P = size ?P + length A" using m by (metis size_mset size_union)
  then have "nr_sorted q' + of_nat (size P) + 1 = nr_sorted q + of_nat (size (add_mset r ?P))" using q'(4) by simp
  moreover have "add_mset r ?P + mset (D @ A) = add_mset r (P + mset D)" using m by (simp add: ac_simps)
  ultimately show ?thesis using st q'(1) by (intro exI [of _ q'] exI [of _ "add_mset r ?P"] exI [of _ "D @ A"]) simp
qed

lemma dl_state_dispatch:
  assumes s: "dl_state q P D" and P: "P \<noteq> {#}"
  shows "\<exists>r q' D'. deadline_dispatch_requests q force = Some (1, q') \<and> r \<in># P \<and> dl_state q' (P - {#r#}) D' \<and>
    mset D' = add_mset r (mset D) \<and> nr_sorted q' = nr_sorted q - 1"
proof -
  obtain F S where F: "P = mset (F READ) + mset (F WRITE)" and l: "dl q F S D" using s unfolding dl_state_def by blast
  have ne: "F READ \<noteq> [] \<or> F WRITE \<noteq> []" using P F by auto
  let ?c = "dl_choice q F"
  obtain q' d where q': "deadline_dispatch_requests q force = Some (1, q')" "?c \<in> set (F d)"
    "dl q' (F(d := remove1 ?c (F d))) (S(d := remove1 ?c (S d))) (D @ [?c])" "nr_sorted q' = nr_sorted q - 1"
    using deadline_dispatch_ok [OF l ne refl] by blast
  have u: "A - {#a#} + B = A + B - {#a#}" if "a \<in># A" for A B :: "ptr multiset" and a
    using diff_union_single_conv [OF that, of B] by (simp add: add.commute)
  have "mset ((F(d := remove1 ?c (F d))) READ) + mset ((F(d := remove1 ?c (F d))) WRITE) = P - {#?c#}"
  proof (cases d)
    case True
    then show ?thesis using u [of ?c "mset (F WRITE)" "mset (F READ)"] q'(2) F by (simp add: add.commute)
  next
    case False
    then show ?thesis using u [of ?c "mset (F READ)" "mset (F WRITE)"] q'(2) F by simp
  qed
  then have "dl_state q' (P - {#?c#}) (D @ [?c])"
    unfolding dl_state_def by (intro exI [of _ "F(d := remove1 ?c (F d))"] exI [of _ "S(d := remove1 ?c (S d))"] conjI q'(3)) simp
  moreover have "?c \<in># P" using q'(2) F by (cases d) auto
  ultimately show ?thesis using q'(1,4) by (intro exI [of _ ?c] exI [of _ q'] exI [of _ "D @ [?c]"]) simp
qed

interpretation deadline: io_scheduler iosched_deadline dl_state dl_fresh
proof unfold_locales
  fix q D force
  assume s: "dl_state q {#} D"
  then obtain F S where l: "F READ = []" "F WRITE = []" "dl q F S D" unfolding dl_state_def by auto
  then show "\<exists>q'. elevator_dispatch_fn iosched_deadline q force = Some (0, q') \<and> dl_state q' {#} D \<and> nr_sorted q' = nr_sorted q"
    using deadline_dispatch_eq [OF l(3), of force] s by (simp add: iosched_deadline_def deadline_ops_def)
next
  fix q P D force
  assume "dl_state q P D" and "P \<noteq> {#}"
  then show "\<exists>r q' D'. elevator_dispatch_fn iosched_deadline q force = Some (1, q') \<and> r \<in># P \<and> dl_state q' (P - {#r#}) D' \<and>
      mset D' = add_mset r (mset D) \<and> nr_sorted q' = nr_sorted q - 1"
    using dl_state_dispatch [of q P D force] by (simp add: iosched_deadline_def deadline_ops_def)
next
  fix q P D r
  assume "dl_state q P D" and "dl_fresh q r"
  then show "\<exists>q' P' D'. elevator_add_req_fn iosched_deadline q r = Some q' \<and> dl_state q' P' D' \<and> r \<in># P' \<and>
      P' + mset D' = add_mset r (P + mset D) \<and> nr_sorted q' + of_nat (size P) + 1 = nr_sorted q + of_nat (size P')"
    using dl_state_add [of q P D r] by (simp add: iosched_deadline_def deadline_ops_def)
next
  fix q P D
  assume "dl_state q P D"
  then obtain F S where l: "P = mset (F READ) + mset (F WRITE)" "dl q F S D" unfolding dl_state_def by blast
  have "deadline_queue_empty q \<longleftrightarrow> F WRITE = [] \<and> F READ = []"
    using fifos_empty [OF dl_coreD(1) [OF dlD(1) [OF l(2)]]] by (simp add: deadline_queue_empty_def Let_def)
  then show "\<exists>f. elevator_queue_empty_fn iosched_deadline = Some f \<and> (f q \<longleftrightarrow> P = {#})"
    using l(1) by (auto simp: iosched_deadline_def deadline_ops_def)
next
  fix q P D
  assume "dl_state q P D"
  then show "dlist (links q) (queue_head q) D"
    unfolding dl_state_def using fifosD(2) [OF dl_coreD(1) [OF dlD(1)]] by blast
next
  fix q P D r
  assume "dl_state q P D" and r: "r \<in># P"
  then obtain F S where l: "P = mset (F READ) + mset (F WRITE)" "dl q F S D" unfolding dl_state_def by blast
  note f = fifos_distinct [OF dl_coreD(1) [OF dlD(1) [OF l(2)]]]
  have "count P r = 1"
    using r l(1) f(1) [of READ] f(1) [of WRITE] f(2) [of r READ] by (auto simp: count_mset_distinct count_eq_zero_iff)
  then show "count P r = 1 \<and> r \<notin> set D" using r l(1) f(2) [of r READ] f(2) [of r WRITE] by auto
qed


section \<open>A new queue\<close>

lemma deadline_init_dl:
  assumes i: "deadline_init_queue (Some f) h = Some (dd, h')" and l: "dlist h p D"
    and f: "f READ \<noteq> f WRITE" "\<And>e. f e \<notin> set (p # D)"
    and q: "elevator_data q = dd" "links q = h'" "queue_head q = p"
  shows "dl q (\<lambda>_. []) (\<lambda>_. []) D"
proof (rule dlI)
  have h': "h' = INIT_LIST_HEAD (f WRITE) (INIT_LIST_HEAD (f READ) h)" and dd: "fifo_list dd = f" "sort_list dd = (\<lambda>_. NULL)"
    "next_rq dd = (\<lambda>_. NULL)"
    using i by (auto simp: deadline_init_queue_def)
  have "dlist h' p D"
    by (rule dlist_cong [OF l]) (use f(2) [of READ] f(2) [of WRITE] in \<open>auto simp: h' INIT_LIST_HEAD_def set_next_def set_prev_def\<close>)
  moreover have "dlist h' (f e) []" for e using f(1) by (cases e) (auto simp: h' INIT_LIST_HEAD_def set_next_def set_prev_def)
  ultimately show "fifos (links q) (fifo_list (elevator_data q)) (queue_head q) (\<lambda>_. []) D"
    unfolding fifos_def q dd using f by auto
  show "rb_list (deadline_rb_root q e) []" for e by (rule rb_list_Nil) (simp add: deadline_rb_root_def q dd)
  show "next_rq (elevator_data q) e \<in> insert NULL (set [])" for e by (simp add: q dd)
qed (simp_all add: by_pos_def)

text \<open>A queue with list head 4 and FIFO heads 8 and 12; request 20 is a write, every other request a read, 24 not at sector 0.\<close>

definition deadline_queue0 :: deadline_queue where
  "deadline_queue0 =
     (case deadline_init_queue (Some (\<lambda>e. if e then 12 else 8)) (INIT_LIST_HEAD 4 \<lparr>nxt = (\<lambda>_. 0), prv = (\<lambda>_. 0)\<rparr>) of
        Some (dd, h) \<Rightarrow> (blank_queue 4 dd h)\<lparr>links := h, rqs := (\<lambda>_. blank_request)(20 := blank_request\<lparr>cmd_flags := 1\<rparr>, 24 := blank_request\<lparr>rq_sector := 64\<rparr>)\<rparr>)"

lemma deadline_queue0_dl:
  "dl deadline_queue0 (\<lambda>_. []) (\<lambda>_. []) []" "queue_head deadline_queue0 = 4"
  "fifo_list (elevator_data deadline_queue0) e = (if e then 12 else 8)" "nr_sorted deadline_queue0 = 0"
proof -
  show "queue_head deadline_queue0 = 4" "fifo_list (elevator_data deadline_queue0) e = (if e then 12 else 8)"
    "nr_sorted deadline_queue0 = 0"
    by (simp_all add: deadline_queue0_def deadline_init_queue_def blank_queue_def)
  show "dl deadline_queue0 (\<lambda>_. []) (\<lambda>_. []) []"
  proof (rule deadline_init_dl)
    show "dlist (INIT_LIST_HEAD 4 \<lparr>nxt = (\<lambda>_. 0), prv = (\<lambda>_. 0)\<rparr>) 4 []" by (simp add: INIT_LIST_HEAD_dlist del: dlist_Nil)
    show "deadline_init_queue (Some (\<lambda>e. if e then 12 else 8)) (INIT_LIST_HEAD 4 \<lparr>nxt = (\<lambda>_. 0), prv = (\<lambda>_. 0)\<rparr>) =
        Some (elevator_data deadline_queue0, links deadline_queue0)"
      by (simp add: deadline_queue0_def deadline_init_queue_def blank_queue_def)
  qed (simp_all add: deadline_queue0_def deadline_init_queue_def blank_queue_def)
qed

lemma node_ok_small: "node_ok 16" "node_ok 20" "node_ok 24"
  by (simp_all add: node_ok_def ptr_al_def)

lemma deadline_queue0_fresh: "dl_fresh deadline_queue0 16" "dl_fresh deadline_queue0 20" "dl_fresh deadline_queue0 24"
  by (rule dl_freshI [OF deadline_queue0_dl(1)]; simp add: deadline_queue0_dl node_ok_small)+

lemma deadline_queue0_rqs:
  "data_dir deadline_queue0 16 = READ" "data_dir deadline_queue0 20 = WRITE" "data_dir deadline_queue0 24 = READ"
  "blk_rq_pos (rqs deadline_queue0 16) = 0" "blk_rq_pos (rqs deadline_queue0 24) = 64"
  by (simp_all add: data_dir_def deadline_queue0_def deadline_init_queue_def blank_queue_def blank_request_def rq_data_dir_def blk_rq_pos_def)

lemma deadline_queue0_counters:
  "next_rq (elevator_data deadline_queue0) = (\<lambda>_. NULL)" "starved (elevator_data deadline_queue0) = 0"
  "writes_starved (elevator_data deadline_queue0) = 2" "fifo_batch (elevator_data deadline_queue0) = 1"
  by (simp_all add: deadline_queue0_def deadline_init_queue_def blank_queue_def default_writes_starved_def deadline_fifo_batch_def)

text \<open>A read is queued, and then a write or a second read.\<close>

lemma deadline_queue0_read:
  "\<exists>q S. deadline_add_request deadline_queue0 16 = Some q \<and> dl q (\<lambda>e. if e then [] else [16]) S [] \<and>
    kept {16} deadline_queue0 q \<and> nr_sorted q = 0 \<and> next_rq (elevator_data q) = (\<lambda>_. NULL)"
proof -
  have "(\<lambda>_. [])(READ := [] @ [16]) = (\<lambda>e. if e then [] else [16 :: ptr])" by (auto simp: fun_eq_iff)
  then show ?thesis
    using deadline_add_new [OF deadline_queue0_dl(1) deadline_queue0_fresh(1) deadline_queue0_rqs(1)]
    by (simp add: deadline_queue0_dl(4) deadline_queue0_counters(1))
qed

lemma deadline_queue0_both:
  "\<exists>q q' S. deadline_add_request deadline_queue0 16 = Some q \<and> deadline_add_request q 20 = Some q' \<and> dl_fresh q 20 \<and>
    dl q' (\<lambda>e. if e then [20] else [16]) S [] \<and> kept {16, 20} deadline_queue0 q' \<and> next_rq (elevator_data q') = (\<lambda>_. NULL)"
proof -
  obtain q S where q: "deadline_add_request deadline_queue0 16 = Some q" "dl q (\<lambda>e. if e then [] else [16]) S []"
    "kept {16} deadline_queue0 q" "next_rq (elevator_data q) = (\<lambda>_. NULL)"
    using deadline_queue0_read by blast
  have d: "data_dir q 20 = WRITE" using keptD(1) [OF q(3)] deadline_queue0_rqs(2) by simp
  have f: "dl_fresh q 20"
    by (rule dl_freshI [OF q(2) node_ok_small(2)]) (simp_all add: keptD(3,4) [OF q(3)] deadline_queue0_dl)
  obtain q' S' where q': "deadline_add_request q 20 = Some q'" "dl q' ((\<lambda>e. if e then [] else [16])(WRITE := [] @ [20])) S' []"
    "kept {20} q q'" "next_rq (elevator_data q') = next_rq (elevator_data q)"
    using deadline_add_new [OF q(2) f d] by auto
  have "(\<lambda>e. if e then [] else [16])(WRITE := [] @ [20]) = (\<lambda>e. if e then [20] else [16 :: ptr])" by (auto simp: fun_eq_iff)
  moreover have "kept {16, 20} deadline_queue0 q'" using kept_trans [OF q(3) q'(3)] by (simp add: insert_commute)
  ultimately show ?thesis using q(1,4) q'(1,2,4) f by auto
qed

lemma deadline_queue0_two:
  "\<exists>q q' S. deadline_add_request deadline_queue0 16 = Some q \<and> deadline_add_request q 24 = Some q' \<and>
    dl q' (\<lambda>e. if e then [] else [16, 24]) S [] \<and> dl_fresh q' 20"
proof -
  obtain q S where q: "deadline_add_request deadline_queue0 16 = Some q" "dl q (\<lambda>e. if e then [] else [16]) S []"
    "kept {16} deadline_queue0 q"
    using deadline_queue0_read by blast
  have d: "data_dir q 24 = READ" using keptD(1) [OF q(3)] deadline_queue0_rqs(3) by simp
  have f: "dl_fresh q 24"
    by (rule dl_freshI [OF q(2) node_ok_small(3)]) (simp_all add: keptD(3,4) [OF q(3)] deadline_queue0_dl)
  have p: "blk_rq_pos (rqs q x) = blk_rq_pos (rqs deadline_queue0 x)" for x using q(3) by (simp add: kept_def)
  obtain q' S' where q': "deadline_add_request q 24 = Some q'" "dl q' ((\<lambda>e. if e then [] else [16])(READ := [16] @ [24])) S' []"
    "kept {24} q q'"
    using deadline_add_new [OF q(2) f d] by (auto simp: p deadline_queue0_rqs)
  have F: "(\<lambda>e. if e then [] else [16])(READ := [16] @ [24]) = (\<lambda>e. if e then [] else [16, 24 :: ptr])" by (auto simp: fun_eq_iff)
  have k: "kept {16, 24} deadline_queue0 q'" using kept_trans [OF q(3) q'(3)] by (simp add: insert_commute)
  have "dl_fresh q' 20"
    by (rule dl_freshI [OF q'(2)[unfolded F] node_ok_small(2)]) (simp_all add: keptD(3,4) [OF k] deadline_queue0_dl)
  then show ?thesis using q(1) q'(1,2) F by auto
qed

section \<open>Properties of the scheduler\<close>

text \<open>
  (C10) Draining a queue under the deadline scheduler ends, hands every queued request to the dispatch list exactly once,
  leaves no request in the trees and FIFO lists, brings \<open>nr_sorted\<close> to zero and prints no complaint.
\<close>

theorem deadline_drain:
  assumes "dl_state q P D" and "nr_sorted q = of_nat (size P)"
  shows "\<exists>q' D'. elv_drain_elevator iosched_deadline n q = Some (n, q') \<and> dl_state q' {#} D' \<and>
    mset D' = mset D + P \<and> nr_sorted q' = 0"
  using assms by (rule deadline.drain)

theorem deadline_drain_witness:
  "\<exists>q q' D'. deadline_add_request deadline_queue0 16 = Some q \<and>
    elv_drain_elevator iosched_deadline 0 (q\<lparr>nr_sorted := 1\<rparr>) = Some (0, q') \<and> dl_state q' {#} D' \<and> mset D' = {#16#}"
proof -
  obtain q S where q: "deadline_add_request deadline_queue0 16 = Some q" "dl q (\<lambda>e. if e then [] else [16]) S []"
    using deadline_queue0_read by blast
  have "dl (q\<lparr>nr_sorted := 1\<rparr>) (\<lambda>e. if e then [] else [16]) S []"
    using q(2) by (simp add: dl_def dl_core_def deadline_rb_root_def data_dir_def)
  then have "dl_state (q\<lparr>nr_sorted := 1\<rparr>) {#16#} []"
    unfolding dl_state_def by (intro exI [of _ "\<lambda>e. if e then [] else [16]"] exI [of _ S]) simp
  from deadline_drain [OF this, of 0] q(1) show ?thesis by auto
qed


text \<open>
  (C6) A dispatch on an empty scheduler returns 0 and changes nothing.  Otherwise it takes exactly one request: the next
  one of the running batch while the batch is not full; else the first of a new batch, of the reads unless there are none
  or writes wait and have been passed over \<open>writes_starved\<close> times, and in this direction the oldest request if it has
  expired or the last batch ended, else the one after the last one.  The request leaves its FIFO list and its tree and
  goes to the end of the dispatch list, the batch counters follow, and the batch goes on with its successor in sector
  order.
\<close>

theorem deadline_dispatch_choice:
  assumes "dl q F S D"
  shows "if F READ = [] \<and> F WRITE = [] then deadline_dispatch_requests q force = Some (0, q)
    else \<exists>q' d. deadline_dispatch_requests q force = Some (1, q') \<and> dl_choice q F \<in> set (F d) \<and>
      dl q' (F(d := remove1 (dl_choice q F) (F d))) (S(d := remove1 (dl_choice q F) (S d))) (D @ [dl_choice q F]) \<and>
      next_rq (elevator_data q') = (\<lambda>_. NULL)(d := head_or_null (tl (dropWhile (\<lambda>x. x \<noteq> dl_choice q F) (S d)))) \<and>
      batching (elevator_data q') = (if dl_batches q then batching (elevator_data q) + 1 else 1) \<and>
      starved (elevator_data q') =
        (if dl_batches q then starved (elevator_data q) else if d = WRITE then 0
         else if F WRITE \<noteq> [] then starved (elevator_data q) + 1 else starved (elevator_data q))"
proof (cases "F READ = [] \<and> F WRITE = []")
  case True
  then show ?thesis using deadline_dispatch_eq [OF assms, of force] by simp
next
  case False
  obtain q' d where q': "deadline_dispatch_requests q force = Some (1, q')" "dl_choice q F \<in> set (F d)"
    "dl_batches q \<or> d = dl_direction q F"
    "dl q' (F(d := remove1 (dl_choice q F) (F d))) (S(d := remove1 (dl_choice q F) (S d))) (D @ [dl_choice q F])"
    "kept {dl_choice q F} (set_dd (\<lambda>dd. dd\<lparr>batching := batching dd + 1\<rparr>) (dl_select q F)) q'"
    "next_rq (elevator_data q') = (\<lambda>_. NULL)(d := head_or_null (tl (dropWhile (\<lambda>x. x \<noteq> dl_choice q F) (S d))))"
    using deadline_dispatch_ok [OF assms, of "dl_choice q F"] False by blast
  have "batching (elevator_data q') = (if dl_batches q then batching (elevator_data q) + 1 else 1)"
    using q'(5) by (simp add: kept_def dl_select_def)
  moreover have "starved (elevator_data q') = (if dl_batches q then starved (elevator_data q) else if d = WRITE then 0
      else if F WRITE \<noteq> [] then starved (elevator_data q) + 1 else starved (elevator_data q))"
    using q'(3,5) by (auto simp: kept_def dl_select_def)
  ultimately show ?thesis unfolding if_not_P [OF False] using q'(1,2,4,6) by blast
qed

theorem deadline_dispatch_choice_witness:
  "\<exists>q1 q2 q3 S. deadline_add_request deadline_queue0 16 = Some q1 \<and> deadline_add_request q1 20 = Some q2 \<and>
    deadline_dispatch_requests q2 False = Some (1, q3) \<and> dl q3 (\<lambda>e. if e then [20] else []) S [16] \<and>
    starved (elevator_data q3) = 1"
proof -
  obtain q1 q2 S where q: "deadline_add_request deadline_queue0 16 = Some q1" "deadline_add_request q1 20 = Some q2"
    "dl q2 (\<lambda>e. if e then [20] else [16]) S []" "kept {16, 20} deadline_queue0 q2" "next_rq (elevator_data q2) = (\<lambda>_. NULL)"
    using deadline_queue0_both by blast
  let ?F = "\<lambda>e. if e then [20 :: ptr] else [16]"
  have s: "starved (elevator_data q2) = 0" "writes_starved (elevator_data q2) = 2"
    using q(4) by (simp_all add: kept_def deadline_queue0_counters)
  have b: "\<not> dl_batches q2" by (simp add: dl_batches_def dl_current_def q(5))
  then have c: "dl_choice q2 ?F = 16"
    by (simp add: dl_choice_def dl_direction_def dl_batch_head_def q(5) s)
  obtain q3 d where q3: "deadline_dispatch_requests q2 False = Some (1, q3)" "16 \<in> set (?F d)"
    "dl q3 (?F(d := remove1 16 (?F d))) (S(d := remove1 16 (S d))) [16]"
    "starved (elevator_data q3) = (if d = WRITE then 0 else 1)"
    using deadline_dispatch_choice [OF q(3), of False] unfolding c by (auto simp: b s)
  have d: "d = READ" using q3(2) by (cases d) auto
  have "?F(READ := remove1 16 (?F READ)) = (\<lambda>e. if e then [20] else [])" by (auto simp: fun_eq_iff)
  then show ?thesis using q(1,2) q3(1,3,4) unfolding d by auto
qed


text \<open>
  (C11) The search for a front merge always returns.  With front merges on, it reports the queued request of the bio's
  direction that starts where the bio ends, if there is one and it may be merged; in every other case it reports none.
\<close>

theorem deadline_merge_front:
  assumes "dl q F S D" and "d = (bio_data_dir b = 1)"
  shows "(front_merges (elevator_data q) \<noteq> 0 \<and>
      (\<exists>r\<in>set (F d). blk_rq_pos (rqs q r) = bi_sector b + bio_sectors b \<and> elv_rq_merge_ok e q r b \<and>
         deadline_merge e q b = Some (ELEVATOR_FRONT_MERGE, r))) \<or>
    ((front_merges (elevator_data q) = 0 \<or>
      (\<forall>r\<in>set (F d). blk_rq_pos (rqs q r) = bi_sector b + bio_sectors b \<longrightarrow> \<not> elv_rq_merge_ok e q r b)) \<and>
      deadline_merge e q b = Some (ELEVATOR_NO_MERGE, NULL))"
proof -
  let ?s = "bi_sector b + bio_sectors b"
  note L = dlD [OF assms(1)]
  have bp: "by_pos (rqs q) (S d)" using L(2) by blast
  obtain n where n: "elv_rb_find (rqs q) (deadline_rb_root q d) ?s = Some n"
    "if n = NULL then \<forall>x\<in>set (S d). blk_rq_pos (rqs q x) \<noteq> ?s else n \<in> set (S d) \<and> blk_rq_pos (rqs q n) = ?s"
    using elv_rb_find_cases [OF dl_coreD(2) [OF L(1)] bp, of ?s] by blast
  have m: "deadline_merge e q b = (if front_merges (elevator_data q) \<noteq> 0 \<and> n \<noteq> NULL \<and> elv_rq_merge_ok e q n b
      then Some (ELEVATOR_FRONT_MERGE, n) else Some (ELEVATOR_NO_MERGE, NULL))"
    using n unfolding assms(2) by (cases "n = NULL") (simp_all add: deadline_merge_def Let_def)
  show ?thesis
  proof (cases "n = NULL")
    case True
    then have "\<forall>x\<in>set (F d). blk_rq_pos (rqs q x) \<noteq> ?s" using n(2) L(3) [of d] by simp
    then show ?thesis using m True by simp
  next
    case False
    then have i: "n \<in> set (F d)" "blk_rq_pos (rqs q n) = ?s" using n(2) L(3) [of d] by simp_all
    have u: "x = n" if "x \<in> set (F d)" "blk_rq_pos (rqs q x) = ?s" for x
      using by_pos_unique [OF bp, of x n] that i L(3) [of d] by simp
    show ?thesis
    proof (cases "front_merges (elevator_data q) \<noteq> 0 \<and> elv_rq_merge_ok e q n b")
      case True
      then have "deadline_merge e q b = Some (ELEVATOR_FRONT_MERGE, n)" using m False by simp
      then show ?thesis using True i by blast
    next
      case no: False
      then have "deadline_merge e q b = Some (ELEVATOR_NO_MERGE, NULL)" using m by auto
      then show ?thesis using no u by blast
    qed
  qed
qed

theorem deadline_merge_front_witness:
  "\<exists>q. deadline_add_request deadline_queue0 16 = Some q \<and> deadline_merge deadline_ops q b0 = Some (ELEVATOR_NO_MERGE, NULL)"
proof -
  obtain q S where q: "deadline_add_request deadline_queue0 16 = Some q" "dl q (\<lambda>e. if e then [] else [16]) S []"
    "kept {16} deadline_queue0 q"
    using deadline_queue0_read by blast
  have "blk_rq_pos (rqs q 16) = blk_rq_pos (rqs deadline_queue0 16)" using q(3) by (simp add: kept_def)
  then have "blk_rq_pos (rqs q 16) = 0"
    by (simp add: deadline_queue0_def deadline_init_queue_def blank_queue_def blank_request_def blk_rq_pos_def)
  moreover have "bi_sector b0 + bio_sectors b0 \<noteq> 0" by (simp add: b0_def bio_sectors_def)
  ultimately show ?thesis using deadline_merge_front [OF q(2) refl, of b0 deadline_ops] q(1) by (auto split: if_splits)
qed

definition dl_wf :: "deadline_queue \<Rightarrow> bool" where
  "dl_wf q \<longleftrightarrow> (\<exists>F S D. dl q F S D)"

lemma dl_moved:
  assumes "dl q F S D" and r: "req \<in> set (F d)"
  shows "dl_core (upd_rq req (\<lambda>rq. rq\<lparr>rq_sector := s\<rparr>) q) F S D"
    "\<forall>e. set (S e) = set (F e) \<and> by_pos (rqs (upd_rq req (\<lambda>rq. rq\<lparr>rq_sector := s\<rparr>) q)) (remove1 req (S e))"
proof -
  note L = dlD [OF assms(1)] and C = dl_coreD [OF dlD(1) [OF assms(1)]]
  let ?q = "upd_rq req (\<lambda>rq. rq\<lparr>rq_sector := s\<rparr>) q"
  have "data_dir ?q x = data_dir q x" for x by (simp add: data_dir_def upd_rq_def rq_data_dir_def)
  then show "dl_core ?q F S D"
    unfolding dl_core_def using L(1) by (simp add: dl_core_def deadline_rb_root_def)
  have "by_pos (rqs ?q) (remove1 req (S e))" for e
  proof (cases "req \<in> set (S e)")
    case True
    then obtain ys zs where s: "S e = ys @ req # zs" using split_list by metis
    have d: "distinct (ys @ req # zs)" using rb_list_distinct [OF C(2) [of e]] s by simp
    have "by_pos (rqs q) (ys @ zs)" using L(2) [rule_format, of e] s by (auto simp: by_pos_append by_pos_Cons)
    then have "by_pos (rqs ?q) (ys @ zs)" using by_pos_upd [of req "ys @ zs" "\<lambda>rq. rq\<lparr>rq_sector := s\<rparr>" q] d by simp
    then show ?thesis using d unfolding s by (simp add: remove1_append)
  next
    case False
    then show ?thesis using L(2) [rule_format, of e] by_pos_upd [OF False, of "\<lambda>rq. rq\<lparr>rq_sector := s\<rparr>" q] by (simp add: remove1_idem)
  qed
  then show "\<forall>e. set (S e) = set (F e) \<and> by_pos (rqs ?q) (remove1 req (S e))" using L(3) by simp
qed




section \<open>Reads do not starve writes\<close>

text \<open>
  What else happens to the queue between dispatches: requests arrive and are merged, the driver takes the request at the
  front of the dispatch list, and time passes.
\<close>

inductive dl_other :: "deadline_queue \<Rightarrow> deadline_queue \<Rightarrow> bool" where
  arrive: "dl_fresh q r \<Longrightarrow> deadline_add_request q r = Some q' \<Longrightarrow> dl_other q q'"
| grow: "dl q F S D \<Longrightarrow> req \<in> set (F d) \<Longrightarrow>
    deadline_merged_request (upd_rq req (\<lambda>rq. rq\<lparr>rq_sector := s\<rparr>) q) req ELEVATOR_FRONT_MERGE = Some q' \<Longrightarrow> dl_other q q'"
| join: "dl q F S D \<Longrightarrow> req \<in> set (F d) \<Longrightarrow> next \<in> set (F d) \<Longrightarrow> next \<noteq> req \<Longrightarrow>
    deadline_merged_requests q req next = Some q' \<Longrightarrow> dl_other q q'"
| take: "dl q F S (r # D) \<Longrightarrow> dl_other q (q\<lparr>links := list_del_init r (links q)\<rparr>)"
| tick: "dl_other q (q\<lparr>jiffies := t\<rparr>)"

text \<open>A run in which \<open>n\<close> dispatches each took a read although a write was queued.\<close>

inductive dl_reads :: "deadline_queue \<Rightarrow> nat \<Rightarrow> deadline_queue \<Rightarrow> bool" where
  start: "dl_reads q 0 q"
| other: "dl_reads q n q' \<Longrightarrow> dl_other q' q'' \<Longrightarrow> dl_reads q n q''"
| read: "dl_reads q n q' \<Longrightarrow> dl q' F S D \<Longrightarrow> F WRITE \<noteq> [] \<Longrightarrow> c \<in> set (F READ) \<Longrightarrow>
    deadline_dispatch_requests q' force = Some (ret, q'') \<Longrightarrow> dl q'' F'' S'' (D @ [c]) \<Longrightarrow> dl_reads q (Suc n) q''"

text \<open>The counters and limits, and how many reads may still pass the writes.\<close>

definition dl_counters :: "deadline_queue \<Rightarrow> u32 \<times> u32 \<times> u32 \<times> u32" where
  "dl_counters q =
     (let dd = elevator_data q in (batching dd, starved dd, fifo_batch dd, writes_starved dd))"

definition dl_credit :: "deadline_queue \<Rightarrow> nat" where
  "dl_credit q =
     (let dd = elevator_data q; b = max 1 (unat (fifo_batch dd))
      in (unat (writes_starved dd) - unat (starved dd)) * b + (b - unat (batching dd)))"

lemma dl_credit_counters: "dl_counters q' = dl_counters q \<Longrightarrow> dl_credit q' = dl_credit q"
  by (simp add: dl_counters_def dl_credit_def Let_def)

lemma kept_counters: "kept R q q' \<Longrightarrow> dl_counters q' = dl_counters q"
  by (simp add: kept_def dl_counters_def Let_def)

lemma dl_take:
  assumes l: "dl q F S (r # D)"
  shows "dl (q\<lparr>links := list_del_init r (links q)\<rparr>) F S D"
proof (rule dlI)
  note L = dlD [OF l] and C = dl_coreD [OF dlD(1) [OF l]]
  note f = fifosD [OF C(1)]
  have 1: "dlist (list_del_init r (links q)) (queue_head q) D" using klist.holds_del [OF f(2), of r] by simp
  have 2: "dlist (list_del_init r (links q)) (fifo_list (elevator_data q) e) (F e)" for e
    by (rule klist.frame_del [OF f(1) f(2)]) (use f(3) [of e] in auto)
  show "fifos (links (q\<lparr>links := list_del_init r (links q)\<rparr>)) (fifo_list (elevator_data (q\<lparr>links := list_del_init r (links q)\<rparr>)))
      (queue_head (q\<lparr>links := list_del_init r (links q)\<rparr>)) F D"
    using C(1) 1 2 by (auto simp: fifos_def)
  show "rb_list (deadline_rb_root (q\<lparr>links := list_del_init r (links q)\<rparr>) e) (S e)" for e
    using C(2) [of e] by (simp add: deadline_rb_root_def)
  show "data_dir (q\<lparr>links := list_del_init r (links q)\<rparr>) x = e" if "x \<in> set (F e)" for e x
    using C(4) [OF that] by (simp add: data_dir_def)
  show "next_rq (elevator_data (q\<lparr>links := list_del_init r (links q)\<rparr>)) e \<in> insert NULL (set (F e))" for e
    using C(5) [of e] by simp
qed (use dlD(2,3) [OF l] in simp_all)

lemma dl_other_ok:
  assumes "dl_other q q'" and "dl_wf q"
  shows "dl_wf q' \<and> dl_counters q' = dl_counters q"
  using assms
proof cases
  case (arrive r)
  obtain F S D where l: "dl q F S D" using assms(2) unfolding dl_wf_def by blast
  then show ?thesis
    using deadline_add_ok [OF l dl_freshD [OF arrive(1) l] refl] arrive(2) kept_counters unfolding dl_wf_def by auto
next
  case (grow F S D req d s)
  from deadline_merged_request_ok [OF dl_moved [OF grow(1,2)] grow(2), of s] grow(3)
  have "dl_wf q'" "\<exists>A. kept A (upd_rq req (\<lambda>rq. rq\<lparr>rq_sector := s\<rparr>) q) q'" unfolding dl_wf_def by auto
  then show ?thesis using kept_counters by (fastforce simp: dl_counters_def Let_def)
next
  case (join F S D req d "next")
  then show ?thesis
    using deadline_merged_requests_ok [OF join(1-4) refl] kept_counters unfolding dl_wf_def by auto
next
  case (take F S r D)
  then show ?thesis using dl_take [OF take(2)] by (auto simp: dl_wf_def dl_counters_def Let_def)
next
  case (tick t)
  have "dl q' F S D = dl q F S D" for F S D by (simp add: tick dl_def dl_core_def deadline_rb_root_def data_dir_def)
  then show ?thesis using assms(2) by (simp add: dl_wf_def dl_counters_def Let_def tick)
qed

lemma dl_read_credit:
  assumes l: "dl q F S D" and w: "F WRITE \<noteq> []" and c: "c \<in> set (F READ)"
    and d: "deadline_dispatch_requests q force = Some (ret, q')" "dl q' F' S' (D @ [c])"
  shows "dl_credit q' < dl_credit q" "fifo_batch (elevator_data q') = fifo_batch (elevator_data q)"
    "writes_starved (elevator_data q') = writes_starved (elevator_data q)"
proof -
  obtain e where e: "dl_choice q F \<in> set (F e)" "dl_batches q \<or> e = dl_direction q F"
    "dl q' (F(e := remove1 (dl_choice q F) (F e))) (S(e := remove1 (dl_choice q F) (S e))) (D @ [dl_choice q F])"
    "kept {dl_choice q F} (set_dd (\<lambda>dd. dd\<lparr>batching := batching dd + 1\<rparr>) (dl_select q F)) q'"
    using deadline_dispatch_ok [OF l _ refl, of force] w d(1) by auto
  have "dl_choice q F = c" using dl_unique(2) [OF e(3) d(2)] by simp
  then have eR: "e = READ" using e(1) c fifos_distinct(2) [OF dl_coreD(1) [OF dlD(1) [OF l]], of c e] by auto
  let ?dd = "elevator_data q" and ?dd' = "elevator_data q'"
  show fw: "fifo_batch ?dd' = fifo_batch ?dd" "writes_starved ?dd' = writes_starved ?dd"
    using e(4) by (simp_all add: kept_def dl_select_def)
  show "dl_credit q' < dl_credit q"
  proof (cases "dl_batches q")
    case True
    then have b: "batching ?dd < fifo_batch ?dd" by (simp add: dl_batches_def)
    have "batching ?dd' = batching ?dd + 1" "starved ?dd' = starved ?dd" using e(4) True by (simp_all add: kept_def dl_select_def)
    then show ?thesis using unat_plus1 [OF b] b fw by (simp add: dl_credit_def Let_def word_less_nat_alt)
  next
    case False
    then have dir: "dl_direction q F = READ" using e(2) eR by simp
    then have s: "starved ?dd < writes_starved ?dd" using w by (simp add: dl_direction_def not_le)
    have "batching ?dd' = 1" "starved ?dd' = starved ?dd + 1" using e(4) False dir w by (simp_all add: kept_def dl_select_def)
    then have "dl_credit q' = (unat (writes_starved ?dd) - unat (starved ?dd) - 1) * max 1 (unat (fifo_batch ?dd)) +
        (max 1 (unat (fifo_batch ?dd)) - 1)"
      using unat_plus1 [OF s] fw by (simp add: dl_credit_def Let_def)
    also have "\<dots> < (unat (writes_starved ?dd) - unat (starved ?dd)) * max 1 (unat (fifo_batch ?dd))"
    proof -
      obtain k where "unat (writes_starved ?dd) - unat (starved ?dd) = Suc k"
        using s by (metis word_less_nat_alt Suc_diff_Suc)
      then show ?thesis by simp
    qed
    also have "\<dots> \<le> dl_credit q" by (simp add: dl_credit_def Let_def)
    finally show ?thesis .
  qed
qed

lemma dl_reads_credit:
  assumes "dl_reads q n q'" and "dl_wf q"
  shows "dl_wf q' \<and> n + dl_credit q' \<le> dl_credit q"
  using assms
proof (induction rule: dl_reads.induct)
  case (other q n q' q'')
  then show ?case using dl_other_ok [of q' q''] dl_credit_counters [of q'' q'] by simp
next
  case (read q n q' F S D c force ret q'' F'' S'')
  then show ?case using dl_read_credit(1) [OF read.hyps(2-6)] by (auto simp: dl_wf_def)
qed simp

text \<open>
  (C5) Reads cannot keep writes waiting for ever: whatever requests arrive, are merged or are taken by the driver in
  between and however the clock moves, at most \<open>(writes_starved + 1) * max 1 fifo_batch\<close> dispatches in a row take a read
  while a write is queued.  The limits are the values of the attributes read as unsigned numbers.
\<close>

theorem deadline_writes_not_starved:
  assumes "dl q F S D" and "dl_reads q n q'"
  shows "n \<le> (unat (writes_starved (elevator_data q)) + 1) * max 1 (unat (fifo_batch (elevator_data q)))"
proof -
  have "dl_wf q" using assms(1) unfolding dl_wf_def by blast
  then have "n \<le> dl_credit q" using dl_reads_credit [OF assms(2)] by simp
  also have "\<dots> \<le> (unat (writes_starved (elevator_data q)) + 1) * max 1 (unat (fifo_batch (elevator_data q)))"
  proof -
    have "(w - s) * m + (m - b) \<le> (w + 1) * m" for w s m b :: nat
      using add_le_mono [OF mult_le_mono1 [OF diff_le_self [of w s], of m] diff_le_self [of m b]] by (simp add: add.commute)
    then show ?thesis by (simp only: dl_credit_def Let_def)
  qed
  finally show ?thesis .
qed

theorem deadline_writes_not_starved_witness:
  "\<exists>q q' q''. deadline_add_request deadline_queue0 16 = Some q \<and> deadline_add_request q 20 = Some q' \<and>
    dl_reads deadline_queue0 1 q'' \<and> (1 :: nat) \<le> (unat (2 :: u32) + 1) * max 1 (unat (1 :: u32))"
proof -
  obtain q q' S where q: "deadline_add_request deadline_queue0 16 = Some q" "deadline_add_request q 20 = Some q'" "dl_fresh q 20"
    "dl q' (\<lambda>e. if e then [20] else [16]) S []" "kept {16, 20} deadline_queue0 q'" "next_rq (elevator_data q') = (\<lambda>_. NULL)"
    using deadline_queue0_both by blast
  let ?F = "\<lambda>e. if e then [20 :: ptr] else [16]"
  have s: "starved (elevator_data q') = 0" "writes_starved (elevator_data q') = 2"
    using q(5) by (simp_all add: kept_def deadline_queue0_counters)
  have b: "\<not> dl_batches q'" by (simp add: dl_batches_def dl_current_def q(6))
  then have c: "dl_choice q' ?F = 16" by (simp add: dl_choice_def dl_direction_def dl_batch_head_def q(6) s)
  obtain q'' d where q'': "deadline_dispatch_requests q' False = Some (1, q'')"
    "dl q'' (?F(d := remove1 16 (?F d))) (S(d := remove1 16 (S d))) ([] @ [16])"
    using deadline_dispatch_ok [OF q(4) _ c, of False] by auto
  have "dl_reads deadline_queue0 0 q'"
    using dl_reads.start deadline_queue0_fresh(1) q(1-3) by (meson dl_reads.other dl_other.arrive)
  then have r: "dl_reads deadline_queue0 (Suc 0) q''"
    by (rule dl_reads.read [OF _ q(4) _ _ q'']) simp_all
  have "Suc 0 \<le> (unat (2 :: u32) + 1) * max 1 (unat (1 :: u32))"
    using deadline_writes_not_starved [OF deadline_queue0_dl(1) r] by (simp add: deadline_queue0_counters)
  then show ?thesis using q(1,2) r by auto
qed

end
