(* ===== verification/Kernel_Math.thy ===== *)
theory Kernel_Math
  imports Kernel_Prelude "HOL-Library.Signed_Division"
begin

text \<open>
  Integer arithmetic of \<open>lib/\<close>: the shift-and-subtract 64-bit division of \<open>lib/div64.c\<close> with the
  wrappers of \<open>include/linux/math64.h\<close>, \<open>lib/gcd.c\<close>, \<open>lib/lcm.c\<close>, \<open>lib/int_sqrt.c\<close>,
  \<open>lib/reciprocal_div.c\<close>, \<open>lib/rational.c\<close>, \<open>lib/hweight.c\<close>, \<open>lib/bcd.c\<close> and the bit searches of
  \<open>arch/arm/include/asm/bitops.h\<close> and \<open>include/linux/log2.h\<close>.

  A division by zero traps; it is the value \<open>None\<close>.
\<close>

lemma sint_pos_u64: "0 < sint (b :: u64) \<longleftrightarrow> 0 < unat b \<and> unat b < 2 ^ 63"
proof -
  obtain n where n: "uint b = int n" "unat b = n" using uint_nat by blast
  moreover have "n < 2 ^ 64" using unsigned_less [of b, where ?'a = nat] n by simp
  ultimately show ?thesis by (simp add: sint_u64)
qed

section \<open>Last set bit\<close>

text \<open>
  \<open>fls\<close> is the \<open>clz\<close> instruction, or this routine when the argument is a constant.  \<open>fls_half\<close> is one
  of its five conditional shifts.
\<close>

definition fls_half :: "nat \<Rightarrow> u32 \<Rightarrow> u32 \<times> nat \<Rightarrow> u32 \<times> nat" where
  "fls_half k m = (\<lambda>(x, r). if x AND m = 0 then (push_bit k x, r - k) else (x, r))"

definition constant_fls :: "u32 \<Rightarrow> nat" where
  "constant_fls x =
     (if x = 0 then 0
      else
        snd (fls_half 1 0x80000000 (fls_half 2 0xc0000000 (fls_half 4 0xf0000000
          (fls_half 8 0xff000000 (fls_half 16 0xffff0000 (x, 32)))))))"

abbreviation fls :: "u32 \<Rightarrow> nat" where
  "fls \<equiv> constant_fls"

definition fls_index :: "u32 \<Rightarrow> int" where
  "fls_index x = int (fls x) - 1"

definition ffs :: "u32 \<Rightarrow> nat" where
  "ffs x = fls (x AND - x)"

lemma and_not_mask_eq_0: "(x :: u32) AND NOT (mask n) = 0 \<longleftrightarrow> unat x < 2 ^ n"
proof -
  have "x AND NOT (mask n) = 0 \<longleftrightarrow> take_bit n x = x"
    by (auto simp: bit_eq_iff bit_simps)
  also have "\<dots> \<longleftrightarrow> take_bit n (unat x) = unat x"
    by (simp add: word_unat_eq_iff unsigned_take_bit_eq)
  also have "\<dots> \<longleftrightarrow> unat x < 2 ^ n" by (simp add: take_bit_nat_eq_self_iff)
  finally show ?thesis .
qed

text \<open>The value shifted so far, with its top set bit in the upper half of what is left.\<close>

definition fls_inv :: "u32 \<Rightarrow> nat \<Rightarrow> nat \<Rightarrow> u32 \<times> nat \<Rightarrow> bool" where
  "fls_inv x0 i j = (\<lambda>(x, r). unat x0 * 2 ^ (32 - r) = unat x \<and> 2 ^ i \<le> unat x \<and> j \<le> r \<and> r \<le> 32)"

lemma fls_half_inv:
  assumes "fls_inv x0 i j s" "i + k = n" "n + k = 32" "m = NOT (mask n)" "k \<le> j"
  shows "fls_inv x0 n (j - k) (fls_half k m s)"
proof -
  obtain x r where s: "s = (x, r)" by (cases s)
  have inv: "unat x0 * 2 ^ (32 - r) = unat x" "2 ^ i \<le> unat x" "j \<le> r" "r \<le> 32"
    using assms(1) by (auto simp: fls_inv_def s)
  show ?thesis
  proof (cases "unat x < 2 ^ n")
    case True
    have "unat x * 2 ^ k < 2 ^ n * 2 ^ k" using True by simp
    then have p: "unat (push_bit k x) = unat x * 2 ^ k"
      using assms(3) by (intro unat_push_bit) (simp add: power_add [symmetric])
    have e: "(2 :: nat) ^ (32 - (r - k)) = 2 ^ (32 - r) * 2 ^ k"
      using inv(3,4) assms(5) by (simp add: power_add [symmetric])
    have jr: "j - k \<le> r - k" "r - k \<le> 32" using inv(3,4) by simp_all
    have "2 ^ i * 2 ^ k \<le> unat x * 2 ^ k" using inv(2) by simp
    then have "2 ^ n \<le> unat x * 2 ^ k" using assms(2) by (simp add: power_add [symmetric])
    then show ?thesis
      using True inv p e assms(4) jr by (simp add: fls_half_def fls_inv_def s and_not_mask_eq_0 flip: mult.assoc)
  next
    case False
    then show ?thesis
      using inv assms(4) by (simp add: fls_half_def fls_inv_def s and_not_mask_eq_0)
  qed
qed

lemma fls_bounds:
  assumes "x \<noteq> 0"
  shows "2 ^ (fls x - 1) \<le> unat x \<and> unat x < 2 ^ fls x \<and> 0 < fls x \<and> fls x \<le> 32"
proof -
  have "0 < unat x" using assms by (simp add: unat_gt_0)
  then have "fls_inv x 0 32 (x, 32)" by (simp add: fls_inv_def Suc_le_eq)
  then have "fls_inv x 16 16 (fls_half 16 0xffff0000 (x, 32))"
    by (drule_tac fls_half_inv [where k = 16 and n = 16]) (simp_all add: mask_eq_decr_exp)
  then have "fls_inv x 24 8 (fls_half 8 0xff000000 (fls_half 16 0xffff0000 (x, 32)))"
    by (drule_tac fls_half_inv [where k = 8 and n = 24]) (simp_all add: mask_eq_decr_exp)
  then have "fls_inv x 28 4 (fls_half 4 0xf0000000 (fls_half 8 0xff000000 (fls_half 16 0xffff0000 (x, 32))))"
    by (drule_tac fls_half_inv [where k = 4 and n = 28]) (simp_all add: mask_eq_decr_exp)
  then have "fls_inv x 30 2 (fls_half 2 0xc0000000 (fls_half 4 0xf0000000 (fls_half 8 0xff000000
      (fls_half 16 0xffff0000 (x, 32)))))"
    by (drule_tac fls_half_inv [where k = 2 and n = 30]) (simp_all add: mask_eq_decr_exp)
  then have "fls_inv x 31 1 (fls_half 1 0x80000000 (fls_half 2 0xc0000000 (fls_half 4 0xf0000000
      (fls_half 8 0xff000000 (fls_half 16 0xffff0000 (x, 32))))))"
    by (drule_tac fls_half_inv [where k = 1 and n = 31]) (simp_all add: mask_eq_decr_exp)
  then have "\<exists>st. fls_inv x 31 1 st \<and> fls x = snd st"
    using assms unfolding constant_fls_def by (intro exI conjI) (assumption, simp)
  then obtain y :: u32 and f where y: "unat x * 2 ^ (32 - f) = unat y" "2 ^ 31 \<le> unat y" "1 \<le> f" "f \<le> 32"
    and f: "fls x = f"
    unfolding fls_inv_def split_beta by blast
  have "(2 :: nat) ^ 32 = 2 ^ (f + (32 - f))" "(2 :: nat) ^ 31 = 2 ^ ((f - 1) + (32 - f))"
    using y(3,4) by simp_all
  then have e: "(2 :: nat) ^ 32 = 2 ^ f * 2 ^ (32 - f)" "(2 :: nat) ^ 31 = 2 ^ (f - 1) * 2 ^ (32 - f)"
    by (simp_all only: power_add)
  have "unat y < 2 ^ 32" using unsigned_less [of y] by simp
  then have "unat x * 2 ^ (32 - f) < 2 ^ f * 2 ^ (32 - f)" unfolding y(1) e(1) .
  then have "unat x < 2 ^ f" by simp
  moreover have "2 ^ (f - 1) * 2 ^ (32 - f) \<le> unat x * 2 ^ (32 - f)"
    using y(2) unfolding y(1) e(2) .
  then have "2 ^ (f - 1) \<le> unat x" by simp
  ultimately show ?thesis using y(3,4) f by simp
qed

section \<open>64-bit division\<close>

text \<open>The loop that scales the divisor up, and the shift-and-subtract loop.\<close>

function div64_scale :: "u64 \<Rightarrow> u64 \<Rightarrow> u64 \<Rightarrow> u64 \<times> u64" where
  "div64_scale b d rem = (if 0 < sint b \<and> b < rem then div64_scale (b + b) (d + d) rem else (b, d))"
  by auto
termination
proof (relation "measure (\<lambda>(b, d, rem). 2 ^ 64 - unat b)", goal_cases)
  case (2 b d rem)
  then have "unat b < 2 ^ 63" "0 < unat b" by (simp_all add: sint_pos_u64)
  moreover from this have "unat (b + b) = unat b + unat b" by (intro unat_add_lt) simp
  ultimately show ?case by simp
qed simp

function div64_reduce :: "u64 \<Rightarrow> u64 \<Rightarrow> u64 \<Rightarrow> u64 \<Rightarrow> u64 \<times> u64" where
  "div64_reduce rem res b d =
     (let (rem, res) = (if rem \<ge> b then (rem - b, res + d) else (rem, res));
          b = drop_bit 1 b;
          d = drop_bit 1 d
      in if d \<noteq> 0 then div64_reduce rem res b d else (rem, res))"
  by auto
termination
proof (relation "measure (\<lambda>(rem, res, b, d). unat d)", goal_cases)
  case (2 rem res b d p rem' res' b' d')
  then have "d' \<noteq> 0" "unat d' = unat d div 2" by (simp_all add: unat_drop_bit)
  moreover from this have "unat d' \<noteq> 0" by (metis unat_eq_zero)
  ultimately show ?case by simp
qed simp

declare div64_scale.simps [simp del] div64_reduce.simps [simp del]

definition div64_32 :: "u64 \<Rightarrow> u32 \<Rightarrow> (u64 \<times> u32) option" where
  "div64_32 n divisor =
     (let rem = n; b = ucast divisor; d = 1; high = (ucast (drop_bit 32 rem) :: u32); res = 0 in
      if high \<ge> divisor \<and> divisor = 0 then None
      else
        let (res, rem) =
              (if high \<ge> divisor then
                 let high = high div divisor
                 in (push_bit 32 (ucast high), rem - push_bit 32 (ucast (high * divisor)))
               else (res, rem));
            (b, d) = div64_scale b d rem;
            (rem, res) = div64_reduce rem res b d
        in Some (res, ucast rem))"

definition do_div :: "u64 \<Rightarrow> u32 \<Rightarrow> (u64 \<times> u32) option" where
  "do_div n divisor =
     (if drop_bit 32 n = 0 then
        if divisor = 0 then None
        else Some (ucast ((ucast n :: u32) div divisor), (ucast n :: u32) mod divisor)
      else div64_32 n divisor)"

definition div_u64_rem :: "u64 \<Rightarrow> u32 \<Rightarrow> (u64 \<times> u32) option" where
  "div_u64_rem dividend divisor = do_div dividend divisor"

definition div_u64 :: "u64 \<Rightarrow> u32 \<Rightarrow> u64 option" where
  "div_u64 dividend divisor = map_option fst (div_u64_rem dividend divisor)"

text \<open>\<open>abs\<close> of a 32-bit \<open>long\<close>; the signed operands are words read by \<open>sint\<close>.\<close>

definition abs_long :: "u32 \<Rightarrow> u32" where
  "abs_long x = (if sint x < 0 then - x else x)"

definition div_s64_rem :: "u64 \<Rightarrow> u32 \<Rightarrow> (u64 \<times> u32) option" where
  "div_s64_rem dividend divisor =
     (if sint dividend < 0 then
        case div_u64_rem (- dividend) (abs_long divisor) of
          None \<Rightarrow> None
        | Some (quot, remainder) \<Rightarrow>
            Some (if sint divisor > 0 then - quot else quot, - remainder)
      else
        case div_u64_rem dividend (abs_long divisor) of
          None \<Rightarrow> None
        | Some (quot, remainder) \<Rightarrow>
            Some (if sint divisor < 0 then - quot else quot, remainder))"

definition div_s64 :: "u64 \<Rightarrow> u32 \<Rightarrow> u64 option" where
  "div_s64 dividend divisor = map_option fst (div_s64_rem dividend divisor)"

definition div64_u64 :: "u64 \<Rightarrow> u64 \<Rightarrow> u64 option" where
  "div64_u64 dividend divisor =
     (let high = (ucast (drop_bit 32 divisor) :: u32);
          (d, dividend) =
            (if high \<noteq> 0 then
               let shift = fls high
               in (ucast (drop_bit shift divisor) :: u32, drop_bit shift dividend)
             else (ucast divisor, dividend))
      in div_u64 dividend d)"

text \<open>\<open>iter_div_u64_rem\<close> loops forever when the divisor is zero.\<close>

partial_function (option) iter_div_loop :: "u64 \<Rightarrow> u32 \<Rightarrow> u32 \<Rightarrow> (u32 \<times> u64) option" where
  "iter_div_loop dividend divisor ret =
     (if dividend \<ge> ucast divisor then iter_div_loop (dividend - ucast divisor) divisor (ret + 1)
      else Some (ret, dividend))"

definition iter_div_u64_rem :: "u64 \<Rightarrow> u32 \<Rightarrow> (u32 \<times> u64) option" where
  "iter_div_u64_rem dividend divisor = iter_div_loop dividend divisor 0"

lemma div64_scale_spec:
  assumes "div64_scale b d rem = (b', d')" "unat b = n * 2 ^ k" "unat d = 2 ^ k" "0 < n"
  shows "\<exists>k'. unat b' = n * 2 ^ k' \<and> unat d' = 2 ^ k' \<and> unat rem < 2 * unat b'"
  using assms
proof (induction b d rem arbitrary: k rule: div64_scale.induct)
  case (1 b d rem)
  show ?case
  proof (cases "0 < sint b \<and> b < rem")
    case True
    then have b: "unat b < 2 ^ 63" by (simp add: sint_pos_u64)
    have "unat d \<le> unat b" using 1(3,4,5) by simp
    then have "unat (b + b) = unat b + unat b" "unat (d + d) = unat d + unat d"
      using b by (intro unat_add_lt; simp)+
    then have "unat (b + b) = n * 2 ^ Suc k" "unat (d + d) = 2 ^ Suc k"
      using 1(3,4) by simp_all
    from 1(1) [OF True _ this 1(5)] 1(2) True show ?thesis
      by (simp add: div64_scale.simps [of b])
  next
    case False
    have "0 < unat b" using 1(3,5) by simp
    then have "unat rem < 2 * unat b"
      using False unsigned_less [of rem, where ?'a = nat] by (auto simp: sint_pos_u64 word_less_nat_alt)
    then show ?thesis
      using 1(2,3,4) False by (auto simp: div64_scale.simps [of b])
  qed
qed

lemma div64_reduce_spec:
  assumes "div64_reduce rem res b d = (rem', res')" "unat b = n * 2 ^ k" "unat d = 2 ^ k"
    and "unat rem < 2 * unat b" "unat res * n + unat rem < 2 ^ 64" "0 < n"
  shows "unat res' * n + unat rem' = unat res * n + unat rem \<and> unat rem' < n"
  using assms
proof (induction rem res b d arbitrary: k rule: div64_reduce.induct)
  case (1 rem res b d)
  define rem1 where "rem1 = (if rem \<ge> b then rem - b else rem)"
  define res1 where "res1 = (if rem \<ge> b then res + d else res)"
  have p: "(if rem \<ge> b then (rem - b, res + d) else (rem, res)) = (rem1, res1)"
    by (simp add: rem1_def res1_def)
  have "unat res + unat d < 2 ^ 64" if "rem \<ge> b"
  proof -
    have "unat d * n \<le> unat rem" using 1(3,4) that by (simp add: word_le_nat_alt mult.commute)
    then have "(unat res + unat d) * n < 2 ^ 64" using 1(6) by (simp add: distrib_right)
    moreover have "unat res + unat d \<le> (unat res + unat d) * n" using 1(7) by (cases n) simp_all
    ultimately show ?thesis by (rule le_less_trans [rotated])
  qed
  then have r: "unat res1 * n + unat rem1 = unat res * n + unat rem" "unat rem1 < unat b"
    using 1(3-6) by (auto simp: rem1_def res1_def unat_add_lt unat_sub_le word_le_nat_alt distrib_right)
  have un: "div64_reduce rem res b d = (if drop_bit 1 d \<noteq> 0
      then div64_reduce rem1 res1 (drop_bit 1 b) (drop_bit 1 d) else (rem1, res1))"
    by (subst div64_reduce.simps) (simp only: p Let_def split_conv)
  show ?case
  proof (cases k)
    case 0
    then have "unat (drop_bit 1 d) = 0" using 1(4) unfolding unat_drop_bit by simp
    then have "drop_bit 1 d = 0" by (simp add: unat_eq_zero)
    then show ?thesis using un r 0 1(2,3) by simp
  next
    case (Suc j)
    then have bd: "unat (drop_bit 1 b) = n * 2 ^ j" "unat (drop_bit 1 d) = 2 ^ j"
      using 1(3,4) by (simp_all add: unat_drop_bit)
    then have "drop_bit 1 d \<noteq> 0" by (metis power_eq_0_iff unat_0 zero_neq_numeral)
    moreover have "unat rem1 < 2 * unat (drop_bit 1 b)" using r(2) 1(3) bd Suc by simp
    ultimately show ?thesis
      using 1(1) [OF p [symmetric] refl refl refl _ _ bd] un r 1(2,6,7) by simp
  qed
qed

lemma unat_high: "unat (ucast (drop_bit 32 (n :: u64)) :: u32) = unat n div 2 ^ 32"
proof -
  have "unat n div 2 ^ 32 < 2 ^ 32"
    using unsigned_less [of n, where ?'a = nat] by (simp add: less_mult_imp_div_less)
  then show ?thesis
    by (simp add: unsigned_ucast_eq take_bit_nat_eq_self unat_drop_bit del: drop_bit_numeral_minus_bit1)
qed

lemma unat_ucast_u32: "unat (ucast (x :: u32) :: u64) = unat x"
proof -
  have "unat x < 2 ^ 64" using unsigned_less [of x, where ?'a = nat] by simp
  then show ?thesis by (simp add: unsigned_ucast_eq take_bit_nat_eq_self)
qed

lemma unat_ucast_u64: "unat (ucast (x :: u64) :: u32) = unat x mod 2 ^ 32"
  unfolding unsigned_ucast_eq by (simp add: take_bit_eq_mod)

lemma ucast_up_down [simp]: "(ucast (ucast (x :: u32) :: u64) :: u32) = x"
  using unsigned_less [of x, where ?'a = nat] by (simp add: word_unat_eq_iff unat_ucast_u32 unat_ucast_u64)

lemma ucast_down_up: "unat (x :: u64) < 2 ^ 32 \<Longrightarrow> ucast (ucast x :: u32) = x"
  by (simp add: word_unat_eq_iff unat_ucast_u32 unat_ucast_u64)

lemma unat_push_32: "unat (push_bit 32 (ucast (x :: u32)) :: u64) = unat x * 2 ^ 32"
proof -
  have "unat x * 2 ^ 32 < 2 ^ 64" using unsigned_less [of x, where ?'a = nat] by simp
  then show ?thesis by (subst unat_push_bit) (simp_all add: unat_ucast_u32)
qed

lemma word_divmod_unique:
  assumes "unat (n :: u64) = unat (q :: u64) * unat (b :: u32) + unat (r :: u64)" "unat r < unat b"
  shows "q = n div ucast b" "(ucast r :: u32) = ucast (n mod ucast b)"
proof -
  have "unat n div unat b = unat q" "unat n mod unat b = unat r"
    using assms by (simp_all add: div_mult_self3)
  then have "unat (n div ucast b) = unat q" "unat (n mod ucast b) = unat r"
    by (simp_all add: unat_div unat_mod unat_ucast_u32)
  then show "q = n div ucast b" "(ucast r :: u32) = ucast (n mod ucast b)"
    by (simp_all add: word_unat_eq_iff unsigned_ucast_eq)
qed

lemma div64_32_correct:
  assumes "divisor \<noteq> 0"
  shows "div64_32 n divisor = Some (n div ucast divisor, ucast (n mod ucast divisor))"
proof -
  define high where "high = (ucast (drop_bit 32 n) :: u32)"
  define m where "m = unat divisor"
  have m: "0 < m" using assms by (simp add: m_def unat_gt_0)
  define res where "res = (if high \<ge> divisor then push_bit 32 (ucast (high div divisor)) else (0 :: u64))"
  define rem where "rem = (if high \<ge> divisor then n - push_bit 32 (ucast (high div divisor * divisor)) else n)"
  have rr: "unat res * m + unat rem = unat n"
  proof (cases "high \<ge> divisor")
    case True
    define q where "q = unat high div m"
    have qm: "q * m \<le> unat high" by (simp add: q_def)
    have h: "unat high * 2 ^ 32 \<le> unat n" by (simp add: high_def unat_high)
    have qd: "unat (high div divisor) = q" by (simp add: q_def m_def unat_div)
    moreover have "unat (high div divisor * divisor) = q * m"
      using qm unsigned_less [of high, where ?'a = nat] by (subst unat_mult_lt) (simp_all add: qd m_def [symmetric])
    moreover have "q * m * 2 ^ 32 \<le> unat n" using qm h by (meson mult_le_mono1 order_trans)
    ultimately show ?thesis
      using True by (simp add: res_def rem_def unat_push_32 unat_sub_le)
  qed (simp add: res_def rem_def)
  obtain b d where bd: "div64_scale (ucast divisor) 1 rem = (b, d)" by fastforce
  obtain k where k: "unat b = m * 2 ^ k" "unat d = 2 ^ k" "unat rem < 2 * unat b"
    using div64_scale_spec [OF bd, of m 0] m by (auto simp: unat_ucast_u32 m_def)
  obtain rem' res' where red: "div64_reduce rem res b d = (rem', res')" by fastforce
  have "unat res * m + unat rem < 2 ^ 64" using rr unsigned_less [of n, where ?'a = nat] by simp
  from div64_reduce_spec [OF red k this m] have "unat n = unat res' * m + unat rem'" "unat rem' < m"
    using rr by simp_all
  note u = this [unfolded m_def]
  have "res' = n div ucast divisor" "(ucast rem' :: u32) = ucast (n mod ucast divisor)"
    by (rule word_divmod_unique [OF u])+
  moreover have "div64_32 n divisor = Some (res', ucast rem')"
    using assms bd red unfolding div64_32_def Let_def high_def [symmetric]
    by (simp add: res_def rem_def split: if_splits)
  ultimately show ?thesis by simp
qed

lemma do_div_correct:
  "do_div n divisor = (if divisor = 0 then do_div n 0 else Some (n div ucast divisor, ucast (n mod ucast divisor)))"
proof (cases "divisor = 0 \<or> drop_bit 32 n \<noteq> 0")
  case True
  then show ?thesis by (auto simp: do_div_def div64_32_correct)
next
  case False
  then have "unat n div 2 ^ 32 = 0" by (metis unat_0 unat_drop_bit)
  then have n: "unat n < 2 ^ 32" by (simp add: div_eq_0_iff)
  then have c: "unat (ucast n :: u32) = unat n" by (simp add: unsigned_ucast_eq take_bit_nat_eq_self)
  define q where "q = (ucast ((ucast n :: u32) div divisor) :: u64)"
  define r where "r = (ucast ((ucast n :: u32) mod divisor) :: u64)"
  have qr: "unat q = unat n div unat divisor" "unat r = unat n mod unat divisor"
    by (simp_all add: q_def r_def unat_ucast_u32 unat_div unat_mod c)
  have "0 < unat divisor" using False by (simp add: unat_gt_0)
  then have u: "unat n = unat q * unat divisor + unat r" "unat r < unat divisor" by (simp_all add: qr)
  have "(ucast r :: u32) = (ucast n :: u32) mod divisor"
    by (simp add: r_def)
  then show ?thesis
    using False word_divmod_unique [OF u] by (simp add: do_div_def q_def)
qed

lemma div_u64_correct: "divisor \<noteq> 0 \<Longrightarrow> div_u64 n divisor = Some (n div ucast divisor)"
  by (subst div_u64_def, subst div_u64_rem_def, subst do_div_correct) simp

text \<open>The signed division truncates toward zero.\<close>

lemma uint_minus_sint: "sint (a :: 'a :: len word) < 0 \<Longrightarrow> uint (- a) = - sint a"
proof -
  assume "sint a < 0"
  then have a: "sint a = uint a - 2 ^ LENGTH('a)" "0 < uint a"
    using uint_bounded [of a] by (auto simp: sint_word not_less intro: less_le_trans [rotated] split: if_splits)
  have "uint (- a) = (- uint a) mod 2 ^ LENGTH('a)" by (simp add: uint_word_ariths)
  also have "\<dots> = (2 ^ LENGTH('a) - uint a) mod 2 ^ LENGTH('a)"
    by (metis minus_mod_self1 uminus_add_conv_diff add.commute mod_add_self2)
  also have "\<dots> = 2 ^ LENGTH('a) - uint a" 
    by (rule mod_pos_pos_trivial) (use a(2) uint_bounded [of a] in linarith)+
  finally show ?thesis using a(1) by simp
qed

lemma uint_sint_nonneg: "\<not> sint (a :: 'a :: len word) < 0 \<Longrightarrow> uint a = sint a"
  using uint_bounded [of a] by (auto simp: sint_word split: if_splits)

lemma div_s64_rem_correct:
  assumes "divisor \<noteq> 0" "\<not> (sint dividend = - (2 ^ 63) \<and> sint divisor = - 1)"
  shows "\<exists>q r. div_s64_rem dividend divisor = Some (q, r) \<and>
    sint q = sint dividend sdiv sint divisor \<and> sint r = sint dividend smod sint divisor"
proof -
  define A where "A = sint dividend"
  define B where "B = sint divisor"
  have A: "- (2 ^ 63) \<le> A" "A < 2 ^ 63"
    using sint_ge [of dividend] sint_lt [of dividend] by (simp_all add: A_def)
  have B: "- (2 ^ 31) \<le> B" "B < 2 ^ 31"
    using sint_ge [of divisor] sint_lt [of divisor] by (simp_all add: B_def)
  have B0: "B \<noteq> 0" using assms(1) unfolding B_def by (metis signed_eq_0_iff)
  have ab: "int (unat (abs_long divisor)) = \<bar>B\<bar>"
    by (simp add: abs_long_def B_def uint_minus_sint uint_sint_nonneg)
  have b0: "abs_long divisor \<noteq> 0" using ab B0 by auto
  define n where "n = (if A < 0 then - dividend else dividend)"
  have an: "int (unat n) = \<bar>A\<bar>" by (simp add: n_def A_def uint_minus_sint uint_sint_nonneg)
  define q where "q = n div ucast (abs_long divisor)"
  define r where "r = (ucast (n mod ucast (abs_long divisor)) :: u32)"
  have du: "div_u64_rem n (abs_long divisor) = Some (q, r)"
    unfolding div_u64_rem_def by (subst do_div_correct) (simp add: b0 q_def r_def)
  have "int (unat q) = \<bar>A\<bar> div \<bar>B\<bar>"
    unfolding q_def unat_div unat_ucast_u32 zdiv_int an ab ..
  then have q: "q = of_int (\<bar>A\<bar> div \<bar>B\<bar>)" by (metis uint_nat word_of_int_uint)
  have m: "int (unat (n mod ucast (abs_long divisor))) = \<bar>A\<bar> mod \<bar>B\<bar>"
    unfolding unat_mod unat_ucast_u32 zmod_int an ab ..
  have "\<bar>A\<bar> mod \<bar>B\<bar> < \<bar>B\<bar>" "\<bar>B\<bar> \<le> 2 ^ 31" using B B0 by auto
  then have mb: "0 \<le> \<bar>A\<bar> mod \<bar>B\<bar>" "\<bar>A\<bar> mod \<bar>B\<bar> < 2 ^ 31" using B0 by (simp, linarith)
  then have "int (unat r) = \<bar>A\<bar> mod \<bar>B\<bar>"
    unfolding r_def unat_ucast_u64 zmod_int m by simp
  then have r: "r = of_int (\<bar>A\<bar> mod \<bar>B\<bar>)" by (metis uint_nat word_of_int_uint)
  define Q where "Q = \<bar>A\<bar> div \<bar>B\<bar>"
  define R where "R = \<bar>A\<bar> mod \<bar>B\<bar>"
  have qQ: "q = of_int Q" by (simp only: q Q_def)
  have rR: "r = of_int R" by (simp only: r R_def)
  have "Q \<le> \<bar>A\<bar>" unfolding Q_def using B0 zdiv_mono2 [of "\<bar>A\<bar>" 1 "\<bar>B\<bar>"] by simp
  then have Q: "0 \<le> Q" "Q \<le> 2 ^ 63" using A B0 by (simp_all add: Q_def pos_imp_zdiv_nonneg_iff)
  have Q2: "Q < 2 ^ 63" if "(A < 0) = (B < 0)"
  proof (cases "\<bar>B\<bar> = 1")
    case True
    then have "Q = \<bar>A\<bar>" "A \<noteq> - (2 ^ 63)"
      using assms(2) that A by (auto simp: Q_def A_def [symmetric] B_def [symmetric])
    then show ?thesis using A by auto
  next
    case False
    then have "1 < \<bar>B\<bar>" using B0 by linarith
    then have "A = 0 \<or> Q < \<bar>A\<bar>"
      using int_div_less_self [of "\<bar>A\<bar>" "\<bar>B\<bar>"] by (auto simp: Q_def)
    then show ?thesis using A by (auto simp: Q_def)
  qed
  have sR: "sint (of_int R :: u32) = R" "sint (- of_int R :: u32) = - R"
    using mb sint_of_int_u32 [of R] sint_of_int_u32 [of "- R"] by (simp_all add: R_def)
  have sQ: "sint (of_int i :: u64) = i" if "- (2 ^ 63) \<le> i" "i < 2 ^ 63" for i
    using that by (simp add: signed_of_int signed_take_bit_int_eq_self)
  have sd: "A sdiv B = sgn A * sgn B * Q" "A smod B = sgn A * R"
    by (simp_all add: signed_divide_int_def signed_modulo_int_def Q_def R_def)
  show ?thesis
  proof (cases "A < 0")
    case True
    then have "div_s64_rem dividend divisor = Some (if B > 0 then - q else q, - r)"
      using du by (simp add: div_s64_rem_def A_def B_def n_def)
    moreover have "sint (if B > 0 then - q else q) = A sdiv B"
      using True B0 Q Q2 sQ [of Q] sQ [of "- Q"] by (auto simp: sd qQ)
    ultimately show ?thesis using True sR sd by (simp add: A_def B_def rR)
  next
    case False
    then have "div_s64_rem dividend divisor = Some (if B < 0 then - q else q, r)"
      using du by (simp add: div_s64_rem_def A_def B_def n_def)
    moreover have "sint (if B < 0 then - q else q) = A sdiv B"
      using False B0 Q Q2 sQ [of Q] sQ [of "- Q"] by (cases "A = 0") (auto simp: sd qQ Q_def)
    moreover have "R = 0 \<or> sgn A = 1" using False by (cases "A = 0") (simp_all add: R_def)
    ultimately show ?thesis using False sR sd by (auto simp: A_def B_def rR)
  qed
qed


lemma div_scale_bound:
  fixes d D N s :: nat
  assumes "d = D div 2 ^ s" "2 ^ 31 \<le> d" "2 ^ 31 * 2 ^ s \<le> D" "N < 2 ^ 64" "0 < s"
  shows "N div D \<le> N div 2 ^ s div d \<and> N div 2 ^ s div d \<le> N div D + 1"
proof -
  define p where "p = (2 :: nat) ^ s"
  define e where "e = D mod p"
  have D: "D = p * d + e" "e < p" by (simp_all add: assms(1) e_def p_def)
  have dd: "N div 2 ^ s div d = N div (p * d)" by (simp add: div_mult2_eq p_def)
  have pd: "0 < p * d" using assms(2) by (simp add: p_def)
  have "N div D \<le> N div (p * d)" using D(1) pd by (intro div_le_mono2) simp_all
  moreover have "N div (p * d) \<le> N div D + 1"
  proof -
    define q where "q = N div (p * d)"
    have qN: "q * (p * d) \<le> N" by (simp add: q_def)
    have "q * e \<le> D"
    proof -
      have "p \<ge> 2" using assms(5) by (cases s) (simp_all add: p_def)
      have "q * (p * 2 ^ 31) \<le> q * (p * d)" using assms(2) by simp
      then have "q * p * 2 ^ 31 < 2 ^ 64" using qN assms(4) unfolding mult.assoc by linarith
      then have qp: "q * p < 2 ^ 33" by (simp add: mult.commute)
      show ?thesis
      proof (cases "p = 2")
        case True
        then have "e = 0 \<or> e = 1" using D(2) by auto
        then show ?thesis using qp True assms(3) by (auto simp: p_def [symmetric])
      next
        case False
        then have "p \<ge> 4" using assms(5) by (cases s; cases "s - 1") (simp_all add: p_def)
        moreover have "q * e \<le> q * p" using D(2) by (intro mult_le_mono) simp_all
        moreover have "q * p < 8589934592" "2147483648 * p \<le> D" using qp assms(3) by (simp_all add: p_def)
        ultimately show ?thesis by linarith
      qed
    qed
    then have "q * D \<le> N + D" using qN by (simp add: D(1) distrib_left)
    moreover have "0 < D" using D(1) pd by simp
    ultimately have "q \<le> (N + D) div D" by (simp add: less_eq_div_iff_mult_less_eq)
    also have "\<dots> = N div D + 1" using \<open>0 < D\<close> by (simp add: div_add_self2)
    finally show ?thesis by (simp only: q_def)
  qed
  ultimately show ?thesis by (simp add: dd)
qed

text \<open>A divisor of more than 32 bits loses its low bits: the quotient may be one too large.\<close>

lemma div64_u64_bound:
  assumes "divisor \<noteq> 0"
  shows "\<exists>q. div64_u64 dividend divisor = Some q \<and>
    (if unat divisor < 2 ^ 32 then q = dividend div divisor
     else unat dividend div unat divisor \<le> unat q \<and> unat q \<le> unat dividend div unat divisor + 1)"
proof (cases "unat divisor < 2 ^ 32")
  case True
  then have "(ucast (drop_bit 32 divisor) :: u32) = 0"
    by (simp add: word_unat_eq_iff unat_high)
  moreover have "(ucast (ucast divisor :: u32) :: u64) = divisor" using True by (rule ucast_down_up)
  moreover from this have "(ucast divisor :: u32) \<noteq> 0" using assms by auto
  ultimately show ?thesis
    using True by (simp add: div64_u64_def Let_def div_u64_correct)
next
  case False
  define high where "high = (ucast (drop_bit 32 divisor) :: u32)"
  have h: "unat high = unat divisor div 2 ^ 32" by (simp add: high_def unat_high)
  have h0: "high \<noteq> 0" using False h by (auto simp: word_unat_eq_iff not_less div_eq_0_iff)
  define s where "s = fls high"
  have s: "2 ^ (s - 1) \<le> unat high" "unat high < 2 ^ s" "0 < s" "s \<le> 32"
    using fls_bounds [OF h0] by (simp_all add: s_def)
  define d where "d = unat divisor div 2 ^ s"
  define D where "D = unat divisor"
  have "(2 :: nat) ^ 32 * 2 ^ s = 2 ^ s * 2 ^ 32" "(2 :: nat) ^ 31 * 2 ^ s = 2 ^ (s - 1) * 2 ^ 32"
    using s(3) by (cases s; simp)+
  moreover have "D < 2 ^ s * 2 ^ 32" "2 ^ (s - 1) * 2 ^ 32 \<le> D"
    using s(1,2) h by (simp_all add: D_def div_less_iff_less_mult less_eq_div_iff_mult_less_eq)
  ultimately have d: "d < 2 ^ 32" "2 ^ 31 \<le> d" and D: "2 ^ 31 * 2 ^ s \<le> D"
    by (simp_all add: d_def D_def [symmetric] div_less_iff_less_mult less_eq_div_iff_mult_less_eq)
  define N where "N = unat dividend"
  have N: "N < 2 ^ 64" using unsigned_less [of dividend, where ?'a = nat] by (simp add: N_def)
  define q where "q = N div 2 ^ s div d"
  have dw: "unat (ucast (drop_bit s divisor) :: u32) = d"
    using d(1) by (simp add: unat_ucast_u64 unat_drop_bit d_def)
  then have "div64_u64 dividend divisor = Some (drop_bit s dividend div ucast (ucast (drop_bit s divisor) :: u32))"
    unfolding div64_u64_def Let_def high_def [symmetric] using h0 d(2)
    by (subst div_u64_correct [symmetric]) (auto simp: s_def)
  moreover have "unat (drop_bit s dividend div ucast (ucast (drop_bit s divisor) :: u32)) = q"
    by (simp add: unat_div unat_drop_bit unat_ucast_u32 dw q_def N_def)
  moreover have "N div D \<le> q" "q \<le> N div D + 1"
    using div_scale_bound [of d D s N] d D N s(3) by (auto simp: q_def d_def D_def)
  ultimately show ?thesis using False by (simp add: N_def D_def)
qed

lemma iter_div_loop_spec:
  assumes "divisor \<noteq> 0"
  shows "iter_div_loop dividend divisor ret =
    Some (ret + ucast (dividend div ucast divisor), dividend mod ucast divisor)"
proof (induction "unat dividend" arbitrary: dividend ret rule: less_induct)
  case less
  define c where "c = (ucast divisor :: u64)"
  have c: "0 < unat c" using assms by (simp add: c_def unat_ucast_u32 unat_gt_0)
  then have c0: "c \<noteq> 0" by auto
  show ?case
  proof (cases "dividend \<ge> c")
    case True
    then have le: "unat c \<le> unat dividend" by (simp add: word_le_nat_alt)
    then have s: "unat (dividend - c) = unat dividend - unat c" by (rule unat_sub_le)
    have q: "dividend div c = (dividend - c) div c + 1"
    proof -
      have "unat dividend div unat c = unat (dividend - c) div unat c + 1"
        using c le by (simp add: s le_div_geq)
      moreover from this have "unat (dividend - c) div unat c + 1 < 2 ^ 64"
        using div_le_dividend [of "unat dividend" "unat c"] unsigned_less [of dividend, where ?'a = nat]
        by simp
      ultimately show ?thesis
        by (simp add: word_unat_eq_iff unat_div unat_add_lt)
    qed
    have m: "(dividend - c) mod c = dividend mod c"
      using c le by (simp add: word_unat_eq_iff unat_mod s le_mod_geq)
    have "ucast (x + 1) = (ucast x + 1 :: u32)" for x :: u64
      by (simp add: word_unat_eq_iff unat_ucast_u64 unat_word_ariths mod_mod_cancel) (simp add: mod_Suc_eq)
    then have "ret + 1 + ucast ((dividend - c) div c) = ret + ucast (dividend div c)"
      by (simp add: q)
    moreover have "iter_div_loop (dividend - c) divisor (ret + 1) =
        Some (ret + 1 + ucast ((dividend - c) div c), (dividend - c) mod c)"
      using less.hyps [of "dividend - c" "ret + 1"] c le s by (simp add: c_def [symmetric])
    ultimately show ?thesis
      using True m by (subst iter_div_loop.simps) (simp add: c_def [symmetric])
  next
    case False
    then have "unat dividend < unat c" by (simp add: word_le_nat_alt)
    then have "dividend div c = 0" "dividend mod c = dividend"
      by (simp_all add: word_unat_eq_iff unat_div unat_mod)
    then show ?thesis
      using False by (subst iter_div_loop.simps) (simp add: c_def)
  qed
qed

section \<open>Greatest common divisor and least common multiple\<close>

text \<open>\<open>gcd\<close> divides by \<open>b\<close>, the smaller argument, at least once.\<close>

function gcd_loop :: "ulong \<Rightarrow> ulong \<Rightarrow> ulong option" where
  "gcd_loop a b =
     (if b = 0 then None
      else let r = a mod b in if r \<noteq> 0 then gcd_loop b r else Some b)"
  by auto
termination
proof (relation "measure (\<lambda>(a, b). unat b)", goal_cases)
  case (2 a b r)
  then show ?case by (simp add: unat_mod unat_gt_0)
qed simp

declare gcd_loop.simps [simp del]

definition kgcd :: "ulong \<Rightarrow> ulong \<Rightarrow> ulong option" where
  "kgcd a b = (let (a, b) = (if a < b then (b, a) else (a, b)) in gcd_loop a b)"

definition klcm :: "ulong \<Rightarrow> ulong \<Rightarrow> ulong option" where
  "klcm a b =
     (if a \<noteq> 0 \<and> b \<noteq> 0 then map_option (\<lambda>g. (a * b) div g) (kgcd a b)
      else if b \<noteq> 0 then Some b
      else Some a)"

lemma gcd_loop_spec: "b \<noteq> 0 \<Longrightarrow> \<exists>g. gcd_loop a b = Some g \<and> unat g = gcd (unat a) (unat b)"
proof (induction a b rule: gcd_loop.induct)
  case (1 a b)
  show ?case
  proof (cases "a mod b = 0")
    case True
    then have "unat b dvd unat a" by (metis unat_0 unat_mod dvd_eq_mod_eq_0)
    then have "gcd (unat a) (unat b) = unat b" by (simp add: gcd_proj2_if_dvd)
    then show ?thesis using True 1(2) by (simp add: gcd_loop.simps [of a])
  next
    case False
    then obtain g where "gcd_loop b (a mod b) = Some g" "unat g = gcd (unat b) (unat a mod unat b)"
      using 1 by (auto simp: unat_mod)
    then show ?thesis
      using False 1(2) by (simp add: gcd_loop.simps [of a] gcd_red_nat [symmetric] gcd.commute)
  qed
qed

lemma kgcd_spec:
  assumes "a \<noteq> 0" "b \<noteq> 0"
  shows "\<exists>g. kgcd a b = Some g \<and> unat g = gcd (unat a) (unat b)"
  using gcd_loop_spec [of b a] gcd_loop_spec [of a b] assms by (auto simp: kgcd_def gcd.commute)

lemma klcm_spec:
  assumes "a \<noteq> 0" "b \<noteq> 0" "unat a * unat b < 2 ^ 32"
  shows "\<exists>l. klcm a b = Some l \<and> unat l = lcm (unat a) (unat b)"
proof -
  obtain g where "kgcd a b = Some g" "unat g = gcd (unat a) (unat b)" using kgcd_spec [OF assms(1,2)] by blast
  moreover have "unat (a * b) = unat a * unat b" using assms(3) by (intro unat_mult_lt) simp
  ultimately show ?thesis using assms by (simp add: klcm_def unat_div lcm_nat_def)
qed

section \<open>Integer square root\<close>

function int_sqrt_scale :: "ulong \<Rightarrow> ulong \<Rightarrow> ulong" where
  "int_sqrt_scale one op = (if one > op then int_sqrt_scale (drop_bit 2 one) op else one)"
  by auto
termination
proof (relation "measure (\<lambda>(one, op). unat one)", goal_cases)
  case (2 one op)
  then have "0 < unat one" by (simp add: word_less_nat_alt)
  then show ?case by (simp add: unat_drop_bit)
qed simp

function int_sqrt_loop :: "ulong \<Rightarrow> ulong \<Rightarrow> ulong \<Rightarrow> ulong" where
  "int_sqrt_loop op res one =
     (if one \<noteq> 0 then
        let (op, res) = (if op \<ge> res + one then (op - (res + one), res + 2 * one) else (op, res))
        in int_sqrt_loop op (res div 2) (one div 4)
      else res)"
  by auto
termination
proof (relation "measure (\<lambda>(op, res, one). unat one)", goal_cases)
  case (2 op res one)
  then have "0 < unat one" by (simp add: unat_gt_0)
  then show ?case by (simp add: unat_div)
qed simp

declare int_sqrt_scale.simps [simp del] int_sqrt_loop.simps [simp del]

definition int_sqrt :: "ulong \<Rightarrow> ulong" where
  "int_sqrt x = (let one = push_bit 30 1 in int_sqrt_loop x 0 (int_sqrt_scale one x))"

lemma int_sqrt_scale_spec:
  assumes "unat one = 4 ^ k" "unat x < 4 ^ Suc k" "x \<noteq> 0"
  shows "\<exists>j\<le>k. unat (int_sqrt_scale one x) = 4 ^ j \<and> unat x < 4 ^ Suc j"
  using assms
proof (induction k arbitrary: one)
  case 0
  then have "\<not> one > x" by (simp add: word_less_nat_alt unat_eq_zero)
  then show ?case using 0 by (simp add: int_sqrt_scale.simps [of one])
next
  case (Suc k)
  show ?case
  proof (cases "one > x")
    case True
    have "unat (drop_bit 2 one) = 4 ^ k" using Suc.prems(1) by (simp add: unat_drop_bit)
    moreover have "unat x < 4 ^ Suc k" using True Suc.prems(1) by (simp add: word_less_nat_alt)
    ultimately obtain j where "j \<le> k" "unat (int_sqrt_scale (drop_bit 2 one) x) = 4 ^ j" "unat x < 4 ^ Suc j"
      using Suc.IH Suc.prems(3) by blast
    then show ?thesis using True by (auto simp: int_sqrt_scale.simps [of one] intro: le_SucI)
  next
    case False
    then show ?thesis using Suc.prems by (auto simp: int_sqrt_scale.simps [of one])
  qed
qed

lemma int_sqrt_loop_step:
  fixes r k x p :: nat and op res one :: ulong
  assumes p: "p = 2 ^ k" and one: "unat one = p * p" and op: "unat op + r * r = x"
    and res: "unat res = r * (2 * p)" and x: "x < 2 ^ 32" and r: "r = 0 \<and> k \<le> 15 \<or> r < 2 ^ 16 \<and> k \<le> 14"
  defines "b \<equiv> op \<ge> res + one"
  defines "op' \<equiv> (if b then op - (res + one) else op)" and "res' \<equiv> (if b then res + 2 * one else res)"
    and "r' \<equiv> (if b then r + p else r)"
  shows "b \<longleftrightarrow> (r + p) * (r + p) \<le> x" "unat op' + r' * r' = x" "unat (res' div 2) = r' * p"
proof -
  have big: "r * (2 * p) + 2 * (p * p) < 2 ^ 32"
    using r
  proof (elim disjE conjE)
    assume "r = 0" "k \<le> 15"
    then have "p \<le> 2 ^ 15" using power_increasing [of k 15 "2 :: nat"] by (simp add: p)
    from mult_le_mono [OF this this] have "p * p \<le> 2 ^ 15 * 2 ^ 15" .
    then show ?thesis using \<open>r = 0\<close> by simp
  next
    assume "r < 2 ^ 16" "k \<le> 14"
    then have "p \<le> 2 ^ 14" using power_increasing [of k 14 "2 :: nat"] by (simp add: p)
    then have "p * p \<le> 2 ^ 14 * 2 ^ 14" "r * (2 * p) \<le> 2 ^ 16 * (2 * 2 ^ 14)"
      using \<open>r < 2 ^ 16\<close> by (intro mult_le_mono; simp)+
    then show ?thesis by (simp add: ac_simps)
  qed
  have s1: "unat (res + one) = r * (2 * p) + p * p"
    using big unat_add_lt [of res one] unfolding one res by simp
  have o2: "unat (2 * one) = 2 * (p * p)"
    using big unat_add_lt [of one one] unfolding one by simp
  then have s2: "unat (res + 2 * one) = r * (2 * p) + 2 * (p * p)"
    using big unat_add_lt [of res "2 * one"] unfolding o2 res by simp
  have sq: "(r + p) * (r + p) = r * r + (r * (2 * p) + p * p)" by (simp add: algebra_simps)
  show b: "b \<longleftrightarrow> (r + p) * (r + p) \<le> x"
    unfolding b_def sq word_le_nat_alt s1 using op by auto
  show "unat op' + r' * r' = x"
  proof (cases b)
    case True
    then have "r * (2 * p) + p * p \<le> unat op" using b op unfolding sq by simp
    then show ?thesis using True op unfolding op'_def r'_def by (simp add: unat_sub_le s1 sq)
  qed (simp add: op'_def r'_def op)
  have "r * (2 * p) + 2 * (p * p) = (r + p) * p * 2" "r * (2 * p) = r * p * 2" by (simp_all add: algebra_simps)
  then have "unat res' = r' * p * 2" unfolding res'_def r'_def using s2 res by simp
  then show "unat (res' div 2) = r' * p" unfolding unat_div by simp
qed

lemma int_sqrt_loop_spec:
  assumes "unat one = 2 ^ k * 2 ^ k" "unat op + r * r = x" "unat res = r * (2 * 2 ^ k)" "x < 2 ^ 32"
    and "x < (r + 2 * 2 ^ k) * (r + 2 * 2 ^ k)" "r = 0 \<and> k \<le> 15 \<or> r < 2 ^ 16 \<and> k \<le> 14"
  shows "\<exists>s. unat (int_sqrt_loop op res one) = s \<and> s * s \<le> x \<and> x < (s + 1) * (s + 1)"
  using assms
proof (induction k arbitrary: op r res one)
  case 0
  define b where "b \<longleftrightarrow> op \<ge> res + one"
  note st = int_sqrt_loop_step [OF refl 0(1-4,6), folded b_def]
  have "one \<noteq> 0" "one div 4 = 0" using 0(1) by (auto simp: word_unat_eq_iff unat_div)
  then have "int_sqrt_loop op res one = (if b then res + 2 * one else res) div 2"
    by (simp add: int_sqrt_loop.simps [of op res one] int_sqrt_loop.simps [of _ _ 0] b_def)
  then have "unat (int_sqrt_loop op res one) = (if b then r + 1 else r)" using st(3) by simp
  then show ?case using st(1,2) 0(2,5) by (auto simp: not_le)
next
  case (Suc k)
  define p where "p = (2 :: nat) ^ Suc k"
  define b where "b \<longleftrightarrow> op \<ge> res + one"
  define r' where "r' = (if b then r + p else r)"
  note st = int_sqrt_loop_step [OF refl Suc.prems(1-4,6), folded b_def p_def, folded r'_def]
  have "0 < unat one" using Suc.prems(1) by simp
  then have "one \<noteq> 0" by auto
  then have step: "int_sqrt_loop op res one = int_sqrt_loop (if b then op - (res + one) else op)
      ((if b then res + 2 * one else res) div 2) (one div 4)"
    by (simp add: int_sqrt_loop.simps [of op res one] b_def)
  have x': "x < (r' + p) * (r' + p)"
    using st(1) Suc.prems(5) by (auto simp: r'_def p_def not_le add.assoc mult_2 [symmetric])
  have "r' * r' \<le> x" using st(2) by simp
  then have "r' < 2 ^ 16"
  proof -
    have "\<not> 2 ^ 16 \<le> r'"
    proof
      assume "2 ^ 16 \<le> r'"
      then have "2 ^ 16 * 2 ^ 16 \<le> r' * r'" by (rule mult_le_mono) fact
      then show False using \<open>r' * r' \<le> x\<close> Suc.prems(4) by simp
    qed
    then show ?thesis by simp
  qed
  moreover have "Suc k \<le> 15" using Suc.prems(6) by auto
  ultimately have k: "r' = 0 \<and> k \<le> 15 \<or> r' < 2 ^ 16 \<and> k \<le> 14" by auto
  have "unat (one div 4) = 2 ^ k * 2 ^ k" using Suc.prems(1) by (simp add: unat_div)
  from Suc.IH [OF this st(2) _ Suc.prems(4) _ k] show ?case
    using st(3) x' unfolding step by (simp add: p_def)
qed

lemma int_sqrt_floor: "unat (int_sqrt x) * unat (int_sqrt x) \<le> unat x \<and> unat x < (unat (int_sqrt x) + 1) * (unat (int_sqrt x) + 1)"
proof (cases "x = 0")
  case True
  have "int_sqrt_scale one 0 = 0" for one
  proof (induction one "0 :: ulong" rule: int_sqrt_scale.induct)
    case (1 one)
    then show ?case
      by (cases "one = 0") (subst int_sqrt_scale.simps, simp add: word_neq_0_conv)+
  qed
  then show ?thesis using True by (simp add: int_sqrt_def int_sqrt_loop.simps)
next
  case False
  have "unat (push_bit 30 1 :: ulong) = 4 ^ 15" by simp
  moreover have "unat x < 4 ^ Suc 15" using unsigned_less [of x, where ?'a = nat] by simp
  ultimately obtain j where j: "j \<le> 15" "unat (int_sqrt_scale (push_bit 30 1) x) = 4 ^ j" "unat x < 4 ^ Suc j"
    using int_sqrt_scale_spec [OF _ _ False, of "push_bit 30 1" 15] by blast
  have "(4 :: nat) ^ j = 2 ^ j * 2 ^ j" by (simp add: power_mult_distrib [symmetric])
  then show ?thesis
    using int_sqrt_loop_spec [of "int_sqrt_scale (push_bit 30 1) x" j x 0 "unat x" 0] j
      unsigned_less [of x, where ?'a = nat]
    by (simp add: int_sqrt_def Let_def)
qed

section \<open>Division by a reciprocal\<close>

definition reciprocal_value :: "u32 \<Rightarrow> u32 option" where
  "reciprocal_value k =
     (let val = (2 ^ 32 :: u64) + ucast (k - 1)
      in map_option (\<lambda>(val, _). ucast val) (do_div val k))"

definition reciprocal_divide :: "u32 \<Rightarrow> u32 \<Rightarrow> u32" where
  "reciprocal_divide a r = ucast (drop_bit 32 ((ucast a :: u64) * ucast r))"

lemma reciprocal_value_eq:
  assumes "1 < unat k"
  shows "\<exists>r. reciprocal_value k = Some r \<and> unat r = (2 ^ 32 + (unat k - 1)) div unat k"
proof -
  define val where "val = (2 ^ 32 :: u64) + ucast (k - 1)"
  have k0: "k \<noteq> 0" using assms by auto
  have "unat (k - 1) = unat k - 1" using assms by (subst unat_sub_le) simp_all
  then have v: "unat val = 2 ^ 32 + (unat k - 1)"
    using unsigned_less [of k, where ?'a = nat] unfolding val_def
    by (subst unat_add_lt) (simp_all add: unat_ucast_u32)
  define q where "q = (2 ^ 32 + (unat k - 1)) div unat k"
  have "q < 2 ^ 32"
  proof -
    have "2 ^ 32 + (unat k - 1) < 2 ^ 32 * unat k"
    proof -
      obtain m where "unat k = m + 2" using assms by (metis add.commute le_Suc_ex Suc_1 Suc_leI)
      then show ?thesis by simp
    qed
    then show ?thesis using assms by (simp add: q_def div_less_iff_less_mult)
  qed
  moreover have "unat (val div ucast k) = q" by (simp add: unat_div v unat_ucast_u32 q_def)
  moreover have "reciprocal_value k = Some (ucast (val div ucast k))"
    unfolding reciprocal_value_def Let_def val_def [symmetric] by (subst do_div_correct) (simp add: k0)
  ultimately show ?thesis by (auto simp: unat_ucast_u64 q_def)
qed

lemma reciprocal_arith:
  fixes a k r :: nat
  assumes "0 < k" "r = (2 ^ 32 + (k - 1)) div k"
  shows "a div k \<le> a * r div 2 ^ 32" and "a * (k - 1) < 2 ^ 32 \<Longrightarrow> a * r div 2 ^ 32 = a div k"
proof -
  define e where "e = k * r - 2 ^ 32"
  have le: "2 ^ 32 \<le> k * r" "k * r \<le> 2 ^ 32 + (k - 1)"
  proof -
    show "k * r \<le> 2 ^ 32 + (k - 1)" by (simp add: assms(2))
    have "2 ^ 32 + (k - 1) < k * r + k"
      using assms dividend_less_times_div [of k "2 ^ 32 + (k - 1)"] by simp
    then show "2 ^ 32 \<le> k * r" using assms(1) by simp
  qed
  have kr: "k * r = 2 ^ 32 + e" "e \<le> k - 1" using le by (simp_all add: e_def)
  define q where "q = a div k"
  define m where "m = a mod k"
  have a: "a = k * q + m" "m < k" using assms(1) by (simp_all add: q_def m_def)
  have ar: "k * (a * r) = 2 ^ 32 * a + a * e"
    using kr(1) by (metis distrib_left mult.commute mult.left_commute)
  have "2 ^ 32 * q * k \<le> k * (a * r)" using a(1) ar by simp
  then have "2 ^ 32 * q \<le> a * r" using assms(1) by (simp add: mult.commute)
  then show lo: "a div k \<le> a * r div 2 ^ 32" by (simp add: q_def less_eq_div_iff_mult_less_eq mult.commute)
  assume "a * (k - 1) < 2 ^ 32"
  moreover have "a * e \<le> a * (k - 1)" using kr(2) by simp
  ultimately have "a * e < 2 ^ 32" by linarith
  moreover have "2 ^ 32 * a \<le> 2 ^ 32 * (k * q + (k - 1))" using a by simp
  ultimately have "k * (a * r) < 2 ^ 32 * (k * q + (k - 1)) + 2 ^ 32" using ar by linarith
  also have "\<dots> = k * (2 ^ 32 * (q + 1))" using assms(1) by (cases k) (simp_all add: algebra_simps)
  finally have "a * r < 2 ^ 32 * (q + 1)" by simp
  then have "a * r div 2 ^ 32 < q + 1" by (simp add: div_less_iff_less_mult mult.commute)
  then show "a * r div 2 ^ 32 = a div k" using lo by (simp add: q_def)
qed

lemma unat_reciprocal_divide: "unat (reciprocal_divide a r) = unat a * unat r div 2 ^ 32"
proof -
  have "unat a * unat r < 2 ^ 64"
  proof -
    have "unat a * unat r \<le> (2 ^ 32 - 1) * (2 ^ 32 - 1)"
      using unsigned_less [of a, where ?'a = nat] unsigned_less [of r, where ?'a = nat] by (intro mult_le_mono) simp_all
    then show ?thesis by simp
  qed
  then have "unat ((ucast a :: u64) * ucast r) = unat a * unat r"
    by (subst unat_mult_lt) (simp_all add: unat_ucast_u32)
  moreover from \<open>unat a * unat r < 2 ^ 64\<close> have "unat a * unat r div 2 ^ 32 < 2 ^ 32"
    by (simp add: div_less_iff_less_mult)
  ultimately show ?thesis by (simp add: reciprocal_divide_def unat_ucast_u64 unat_drop_bit)
qed

section \<open>Binary coded decimal\<close>

definition bcd2bin :: "u8 \<Rightarrow> u32" where
  "bcd2bin val = ucast (val AND 0x0f) + ucast (drop_bit 4 val) * 10"

definition bin2bcd :: "u32 \<Rightarrow> u8" where
  "bin2bcd val = ucast (push_bit 4 (val div 10) + val mod 10)"

lemma bcd_roundtrip: "\<forall>n\<in>set [0..<100]. bcd2bin (bin2bcd (of_nat n)) = of_nat n"
  by code_simp

section \<open>Rational approximation\<close>

function rational_loop :: "ulong \<Rightarrow> ulong \<Rightarrow> ulong \<Rightarrow> ulong \<Rightarrow> ulong \<Rightarrow> ulong \<Rightarrow> ulong \<Rightarrow> ulong \<Rightarrow> ulong \<times> ulong"
  where
  "rational_loop max_numerator max_denominator n d n0 d0 n1 d1 =
     (if n1 > max_numerator \<or> d1 > max_denominator then (n0, d0)
      else if d = 0 then (n1, d1)
      else
        let a = n div d
        in rational_loop max_numerator max_denominator d (n mod d) n1 d1 (n0 + a * n1) (d0 + a * d1))"
  by auto
termination
proof (relation "measure (\<lambda>(_, _, n, d, _). unat d)", goal_cases)
  case (2 mn md n d n0 d0 n1 d1 a)
  then show ?case by (simp add: unat_mod unat_gt_0)
qed simp

declare rational_loop.simps [simp del]

definition rational_best_approximation :: "ulong \<Rightarrow> ulong \<Rightarrow> ulong \<Rightarrow> ulong \<Rightarrow> ulong \<times> ulong" where
  "rational_best_approximation given_numerator given_denominator max_numerator max_denominator =
     rational_loop max_numerator max_denominator given_numerator given_denominator 0 1 1 0"

lemma rational_loop_bounded:
  "n0 \<le> max_numerator \<Longrightarrow> d0 \<le> max_denominator \<Longrightarrow>
   rational_loop max_numerator max_denominator n d n0 d0 n1 d1 = (bn, bd) \<Longrightarrow>
   bn \<le> max_numerator \<and> bd \<le> max_denominator"
proof (induction max_numerator max_denominator n d n0 d0 n1 d1 rule: rational_loop.induct)
  case (1 mn md n d n0 d0 n1 d1)
  show ?case
  proof (cases "n1 > mn \<or> d1 > md")
    case True
    then show ?thesis using 1(2-4) by (simp add: rational_loop.simps [of mn])
  next
    case False
    then have "(if d = 0 then (n1, d1)
        else rational_loop mn md d (n mod d) n1 d1 (n0 + n div d * n1) (d0 + n div d * d1)) = (bn, bd)"
      using 1(4) by (subst (asm) rational_loop.simps) (simp add: Let_def split: if_splits)
    then show ?thesis using 1(1) [OF False _ refl] False by (cases "d = 0") (auto simp: not_less)
  qed
qed

section \<open>Properties\<close>

text \<open>
  (C36) The shift-and-subtract loop of \<open>__div64_32\<close> computes 64-bit division: for every dividend and every
  divisor but zero both loops end, no intermediate value wraps around, and the results are the exact
  quotient and remainder.
\<close>

theorem div64_32_quotient:
  assumes "divisor \<noteq> 0"
  shows "div64_32 n divisor = Some (n div ucast divisor, ucast (n mod ucast divisor))"
  by (rule div64_32_correct [OF assms])

theorem div64_32_quotient_witness:
  "div64_32 0xfffffffffffffffe 10 = Some (1844674407370955161, 4)"
  using div64_32_quotient [of 10 "0xfffffffffffffffe"] by simp

text \<open>
  (C37) \<open>div64_u64\<close> returns for every divisor but zero.  It is exact for divisors below \<open>2 ^ 32\<close>; above,
  where it drops the low bits of both operands, the quotient is exact or one too large.
\<close>

theorem div64_u64_error:
  assumes "divisor \<noteq> 0"
  shows "\<exists>q. div64_u64 dividend divisor = Some q \<and>
    (if unat divisor < 2 ^ 32 then q = dividend div divisor
     else unat dividend div unat divisor \<le> unat q \<and> unat q \<le> unat dividend div unat divisor + 1)"
  by (rule div64_u64_bound [OF assms])

theorem div64_u64_error_witness:
  "\<exists>q. div64_u64 100 0x100000001 = Some q \<and> unat q \<le> 1"
  using div64_u64_error [of "0x100000001" 100] by auto

text \<open>The bound is sharp.\<close>

lemma div64_u64_inexact: "div64_u64 0x1fffffffe 0x1ffffffff = Some 1"
proof -
  have "fls 1 = 1" by code_simp
  then show ?thesis by (simp add: div64_u64_def div_u64_correct)
qed

text \<open>
  (C38) \<open>int_sqrt\<close> is the largest number whose square is at most its argument, for every argument; its
  loops end and nothing wraps around.
\<close>

theorem int_sqrt_is_floor:
  "unat (int_sqrt x) * unat (int_sqrt x) \<le> unat x \<and>
   unat x < (unat (int_sqrt x) + 1) * (unat (int_sqrt x) + 1)"
  by (rule int_sqrt_floor)

text \<open>
  (C39) The iterative division returns for every divisor but zero, with the low 32 bits of the quotient
  and the exact remainder.
\<close>

theorem iter_div_u64_rem_returns:
  assumes "divisor \<noteq> 0"
  shows "iter_div_u64_rem dividend divisor =
    Some (ucast (dividend div ucast divisor), dividend mod ucast divisor)"
  using iter_div_loop_spec [OF assms, of dividend 0] by (simp add: iter_div_u64_rem_def)

theorem iter_div_u64_rem_returns_witness: "iter_div_u64_rem 2000000001 1000000000 = Some (2, 1)"
  using iter_div_u64_rem_returns [of 1000000000 2000000001] by simp

text \<open>
  \<open>reciprocal_div.h\<close> states that multiplying by the reciprocal gives the quotient.  It does when the
  dividend is small, but not for every pair of 32-bit numbers, and never for the divisor one.
\<close>

lemma reciprocal_divide_exact:
  assumes "1 < unat k" "unat a * (unat k - 1) < 2 ^ 32"
  shows "\<exists>r. reciprocal_value k = Some r \<and> reciprocal_divide a r = a div k"
  using reciprocal_value_eq [OF assms(1)] reciprocal_arith(2) [OF _ refl assms(2)] assms(1)
  by (auto simp: word_unat_eq_iff unat_reciprocal_divide unat_div)

lemma reciprocal_divide_inexact:
  "map_option (reciprocal_divide 4294967294) (reciprocal_value 3) = Some 1431655765"
  "4294967294 div (3 :: u32) = 1431655764"
  "map_option (reciprocal_divide 7) (reciprocal_value 1) = Some 0"
proof -
  have "do_div 4294967298 3 = Some (1431655766, 0)" "do_div 4294967296 1 = Some (4294967296, 0)"
    by (subst do_div_correct; simp)+
  then show "map_option (reciprocal_divide 4294967294) (reciprocal_value 3) = Some 1431655765"
    "map_option (reciprocal_divide 7) (reciprocal_value 1) = Some 0"
    by (simp_all add: reciprocal_value_def reciprocal_divide_def)
  show "4294967294 div (3 :: u32) = 1431655764" by simp
qed

end
