(* ===== verification/Vr_Iosched.thy ===== *)
theory Vr_Iosched
  imports Elevator_Rb Fifo_Lists Kernel_Time Kernel_Math Vsprintf
begin

text \<open>
  The V(R) scheduler, \<open>block/vr-iosched.c\<close>: one tree of all requests ordered by sector, with a cursor to the requests
  next to the head position, and two FIFO lists, \<^term>\<open>True\<close> for synchronous requests and \<^term>\<open>False\<close> for asynchronous ones.

  The lemmas describe a queue by the requests below and above the head, the FIFO lists and the dispatch list.
\<close>

section \<open>Operations\<close>

abbreviation (input) ASYNC :: bool where "ASYNC \<equiv> False"
abbreviation (input) SYNC :: bool where "SYNC \<equiv> True"

datatype vr_head_dir = FORWARD | BACKWARD

definition vr_sync_expire :: u32 where "vr_sync_expire = of_nat (HZ div 2)"
definition vr_async_expire :: u32 where "vr_async_expire = of_nat (5 * HZ)"
definition vr_fifo_batch :: u32 where "vr_fifo_batch = 1"
definition vr_rev_penalty :: u32 where "vr_rev_penalty = 10"

record vr_data =
  sort_list :: ptr
  fifo_list :: "bool \<Rightarrow> ptr"
  next_rq :: ptr
  prev_rq :: ptr
  nbatched :: u32
  last_sector :: sector
  head_dir :: vr_head_dir
  fifo_expire :: "bool \<Rightarrow> u32"
  fifo_batch :: u32
  rev_penalty :: u32

type_synonym vr_queue = "vr_data request_queue"

definition set_vd :: "(vr_data \<Rightarrow> vr_data) \<Rightarrow> vr_queue \<Rightarrow> vr_queue" where
  "set_vd f q = q\<lparr>elevator_data := f (elevator_data q)\<rparr>"

text \<open>The tree \<open>vd->sort_list\<close>: its root and the nodes of the requests.\<close>

definition vr_tree :: "vr_queue \<Rightarrow> rb_tree" where
  "vr_tree q = \<lparr>nodes = rb_nodes q, rb_root = sort_list (elevator_data q)\<rparr>"

definition vr_put_tree :: "rb_tree \<Rightarrow> vr_queue \<Rightarrow> vr_queue" where
  "vr_put_tree st q = set_vd (\<lambda>vd. vd\<lparr>sort_list := rb_root st\<rparr>) (q\<lparr>rb_nodes := nodes st\<rparr>)"

text \<open>The conditions of the \<open>BUG_ON\<close>s on the cursor; an operation in which one fires does not return.\<close>

definition cursor_same :: "vr_queue \<Rightarrow> bool" where
  "cursor_same q \<longleftrightarrow> (let vd = elevator_data q in next_rq vd \<noteq> NULL \<and> next_rq vd = prev_rq vd)"

definition cursor_crossed :: "vr_queue \<Rightarrow> bool" where
  "cursor_crossed q \<longleftrightarrow>
     (let vd = elevator_data q
      in next_rq vd \<noteq> NULL \<and> prev_rq vd \<noteq> NULL \<and> blk_rq_pos (rqs q (next_rq vd)) < blk_rq_pos (rqs q (prev_rq vd)))"

definition vr_del_rq_rb :: "vr_queue \<Rightarrow> ptr \<Rightarrow> vr_queue option" where
  "vr_del_rq_rb q rq =
     Option.bind
       (if next_rq (elevator_data q) = rq
        then map_option (\<lambda>n. set_vd (\<lambda>vd. vd\<lparr>next_rq := n\<rparr>) q) (elv_rb_latter_request q rq)
        else if prev_rq (elevator_data q) = rq
        then map_option (\<lambda>n. set_vd (\<lambda>vd. vd\<lparr>prev_rq := n\<rparr>) q) (elv_rb_former_request q rq)
        else Some q)
       (\<lambda>q. if cursor_same q \<or> cursor_crossed q then None
            else map_option (\<lambda>st. vr_put_tree st q) (elv_rb_del (vr_tree q) rq))"

definition vr_remove_request :: "vr_queue \<Rightarrow> ptr \<Rightarrow> vr_queue option" where
  "vr_remove_request q rq = vr_del_rq_rb (rq_fifo_clear rq q) rq"

definition vr_move_request :: "vr_queue \<Rightarrow> ptr \<Rightarrow> vr_queue option" where
  "vr_move_request q rq =
     (let pos = blk_rq_pos (rqs q rq);
          q = set_vd (\<lambda>vd. vd\<lparr>head_dir := if pos > last_sector vd then FORWARD else BACKWARD\<rparr>) q;
          q = set_vd (\<lambda>vd. vd\<lparr>last_sector := pos\<rparr>) q in
      Option.bind (elv_rb_latter_request q rq) (\<lambda>n.
      Option.bind (elv_rb_former_request q rq) (\<lambda>p.
        let q = set_vd (\<lambda>vd. vd\<lparr>next_rq := n, prev_rq := p\<rparr>) q in
        if cursor_same q then None
        else map_option
               (\<lambda>q. set_vd (\<lambda>vd. vd\<lparr>nbatched := nbatched vd + 1\<rparr>) (elv_dispatch_add_tail q rq))
               (vr_remove_request q rq))))"

text \<open>The second half of \<open>vr_add_rq_rb\<close>: the cursor after a request has gone into the tree.\<close>

definition vr_cursor_add :: "vr_queue \<Rightarrow> ptr \<Rightarrow> vr_queue option" where
  "vr_cursor_add q rq =
     (let vd = elevator_data q; pos = blk_rq_pos (rqs q rq);
          q = (if pos \<ge> last_sector vd then
                 if next_rq vd = NULL \<or> blk_rq_pos (rqs q (next_rq vd)) > pos
                 then set_vd (\<lambda>vd. vd\<lparr>next_rq := rq\<rparr>) q else q
               else
                 if prev_rq vd = NULL \<or> blk_rq_pos (rqs q (prev_rq vd)) < pos
                 then set_vd (\<lambda>vd. vd\<lparr>prev_rq := rq\<rparr>) q else q)
      in if cursor_same q \<or> cursor_crossed q then None else Some q)"

definition vr_add_rq_rb :: "vr_queue \<Rightarrow> ptr \<Rightarrow> vr_queue option" where
  "vr_add_rq_rb q rq =
     Option.bind (elv_rb_add (rqs q) (vr_tree q) rq) (\<lambda>(alias, st).
       let q = vr_put_tree st q in
       if alias \<noteq> NULL then
         Option.bind (vr_move_request q alias) (\<lambda>q.
         Option.bind (elv_rb_add (rqs q) (vr_tree q) rq) (\<lambda>(alias, st).
           if alias \<noteq> NULL then None else vr_cursor_add (vr_put_tree st q) rq))
       else vr_cursor_add q rq)"

definition vr_add_request :: "vr_queue \<Rightarrow> ptr \<Rightarrow> vr_queue option" where
  "vr_add_request q rq =
     (let dir = rq_is_sync (rqs q rq) in
      map_option (\<lambda>q.
        let vd = elevator_data q in
        if fifo_expire vd dir \<noteq> 0 then
          let q = rq_set_fifo_time rq (jiffies q + fifo_expire vd dir) q
          in q\<lparr>links := list_add_tail rq (fifo_list vd dir) (links q)\<rparr>
        else q) (vr_add_rq_rb q rq))"

text \<open>\<open>e\<close> is only asked whether it has an \<open>elevator_allow_merge_fn\<close>.\<close>

definition vr_merge :: "vr_data elevator_ops \<Rightarrow> vr_queue \<Rightarrow> bio \<Rightarrow> (nat \<times> ptr) option" where
  "vr_merge e q b =
     (let sector = bi_sector b + bio_sectors b in
      map_option (\<lambda>rq. if rq \<noteq> NULL \<and> elv_rq_merge_ok e q rq b then (ELEVATOR_FRONT_MERGE, rq) else (ELEVATOR_NO_MERGE, NULL))
        (elv_rb_find (rqs q) (vr_tree q) sector))"

definition vr_merged_request :: "vr_queue \<Rightarrow> ptr \<Rightarrow> nat \<Rightarrow> vr_queue option" where
  "vr_merged_request q req type =
     (if type = ELEVATOR_FRONT_MERGE then Option.bind (vr_del_rq_rb q req) (\<lambda>q. vr_add_rq_rb q req) else Some q)"

definition vr_merged_requests :: "vr_queue \<Rightarrow> ptr \<Rightarrow> ptr \<Rightarrow> vr_queue option" where
  "vr_merged_requests q rq next =
     (let q = (if \<not> list_empty rq (links q) \<and> \<not> list_empty next (links q) then
                 if time_before (rq_fifo_time (rqs q next)) (rq_fifo_time (rqs q rq)) then
                   let q = q\<lparr>links := list_move rq next (links q)\<rparr>
                   in rq_set_fifo_time rq (rq_fifo_time (rqs q next)) q
                 else q
               else q)
      in vr_remove_request q next)"

definition vr_expired_request :: "vr_queue \<Rightarrow> bool \<Rightarrow> ptr" where
  "vr_expired_request q ddir =
     (let vd = elevator_data q in
      if list_empty (fifo_list vd ddir) (links q) then NULL
      else let rq = nxt (links q) (fifo_list vd ddir)
           in if time_after (jiffies q) (rq_fifo_time (rqs q rq)) then rq else NULL)"

definition vr_check_fifo :: "vr_queue \<Rightarrow> ptr" where
  "vr_check_fifo q =
     (let rq_sync = vr_expired_request q SYNC;
          rq_async = vr_expired_request q ASYNC in
      if rq_async \<noteq> NULL \<and> rq_sync \<noteq> NULL then
        if time_after (rq_fifo_time (rqs q rq_async)) (rq_fifo_time (rqs q rq_sync)) then rq_sync else rq_async
      else if rq_sync \<noteq> NULL then rq_sync
      else rq_async)"

text \<open>\<open>do_div\<close> returns the remainder, and the assignment keeps it.  \<open>None\<close> when the \<open>BUG_ON\<close> fires.\<close>

definition vr_choose_request :: "vr_queue \<Rightarrow> ptr option" where
  "vr_choose_request q =
     (let vd = elevator_data q;
          penalty = (if rev_penalty vd \<noteq> 0 then rev_penalty vd else of_int INT_MAX);
          next = next_rq vd;
          prev = prev_rq vd in
      if prev \<noteq> NULL \<and> prev = next then None
      else if prev = NULL then Some next
      else if next = NULL then Some prev
      else
        let next_pen = blk_rq_pos (rqs q next) - last_sector vd;
            prev_pen = last_sector vd - blk_rq_pos (rqs q prev) in
        map_option (\<lambda>(next_pen, prev_pen). if next_pen \<le> prev_pen then next else prev)
          (if head_dir vd = FORWARD
           then map_option (\<lambda>(_, rem). (rem, prev_pen)) (do_div (ucast next_pen) penalty)
           else map_option (\<lambda>(_, rem). (next_pen, rem)) (do_div (ucast prev_pen) penalty)))"

definition vr_dispatch_requests :: "vr_queue \<Rightarrow> bool \<Rightarrow> (int \<times> vr_queue) option" where
  "vr_dispatch_requests q force =
     (let vd = elevator_data q;
          (q, rq) = (if nbatched vd > fifo_batch vd
                     then let q = set_vd (\<lambda>vd. vd\<lparr>nbatched := 0\<rparr>) q in (q, vr_check_fifo q)
                     else (q, NULL)) in
      Option.bind (if rq = NULL then vr_choose_request q else Some rq) (\<lambda>rq.
        if rq = NULL then Some (0, q) else map_option (Pair 1) (vr_move_request q rq)))"

definition vr_queue_empty :: "vr_queue \<Rightarrow> bool" where
  "vr_queue_empty q = RB_EMPTY_ROOT (vr_tree q)"

text \<open>\<open>None\<close> when the \<open>BUG_ON\<close> fires.\<close>

definition vr_exit_queue :: "rb_tree \<Rightarrow> unit option" where
  "vr_exit_queue st = (if \<not> RB_EMPTY_ROOT st then None else Some ())"

text \<open>The argument is the result of \<open>kmalloc_node\<close>: the addresses of the two list heads, or nothing.\<close>

definition vr_init_queue :: "(bool \<Rightarrow> ptr) option \<Rightarrow> list_heap \<Rightarrow> (vr_data \<times> list_heap) option" where
  "vr_init_queue vd h =
     (case vd of None \<Rightarrow> None
      | Some f \<Rightarrow>
          Some (\<lparr>sort_list = NULL, fifo_list = f, next_rq = NULL, prev_rq = NULL, nbatched = 0, last_sector = 0,
                 head_dir = FORWARD, fifo_expire = (\<lambda>d. if d then vr_sync_expire else vr_async_expire),
                 fifo_batch = vr_fifo_batch, rev_penalty = vr_rev_penalty\<rparr>,
                INIT_LIST_HEAD (f ASYNC) (INIT_LIST_HEAD (f SYNC) h)))"

text \<open>The attributes; \<open>__data\<close> is an \<open>int\<close>.\<close>

definition vr_var_show :: "u32 \<Rightarrow> cstring" where
  "vr_var_show var = number (of_int (sint var)) dec_spec @ [char_of (10 :: nat)]"

definition vr_var_store :: "cstring \<Rightarrow> nat \<Rightarrow> int \<times> int" where
  "vr_var_store page cnt = (fst (simple_strtol page 10), int cnt)"

definition vr_show :: "u32 \<Rightarrow> bool \<Rightarrow> cstring" where
  "vr_show var conv = (let data = (if conv then jiffies_to_msecs var else var) in vr_var_show data)"

definition vr_store :: "int \<Rightarrow> int \<Rightarrow> bool \<Rightarrow> cstring \<Rightarrow> nat \<Rightarrow> u32 \<times> int" where
  "vr_store mn mx conv page cnt =
     (let (data, ret) = vr_var_store page cnt;
          data = (if data < mn then mn else if data > mx then mx else data)
      in (if conv then msecs_to_jiffies (of_int data) else of_int data, ret))"

definition vr_expire_show :: "vr_data \<Rightarrow> bool \<Rightarrow> cstring" where
  "vr_expire_show vd d = vr_show (fifo_expire vd d) True"

definition vr_fifo_batch_show :: "vr_data \<Rightarrow> cstring" where
  "vr_fifo_batch_show vd = vr_show (fifo_batch vd) False"

definition vr_rev_penalty_show :: "vr_data \<Rightarrow> cstring" where
  "vr_rev_penalty_show vd = vr_show (rev_penalty vd) False"

definition vr_expire_store :: "vr_data \<Rightarrow> bool \<Rightarrow> cstring \<Rightarrow> nat \<Rightarrow> vr_data \<times> int" where
  "vr_expire_store vd d page cnt =
     (let (v, ret) = vr_store 0 INT_MAX True page cnt in (vd\<lparr>fifo_expire := (fifo_expire vd)(d := v)\<rparr>, ret))"

definition vr_fifo_batch_store :: "vr_data \<Rightarrow> cstring \<Rightarrow> nat \<Rightarrow> vr_data \<times> int" where
  "vr_fifo_batch_store vd page cnt =
     (let (v, ret) = vr_store 0 INT_MAX False page cnt in (vd\<lparr>fifo_batch := v\<rparr>, ret))"

definition vr_rev_penalty_store :: "vr_data \<Rightarrow> cstring \<Rightarrow> nat \<Rightarrow> vr_data \<times> int" where
  "vr_rev_penalty_store vd page cnt =
     (let (v, ret) = vr_store 0 INT_MAX False page cnt in (vd\<lparr>rev_penalty := v\<rparr>, ret))"

text \<open>The operations without the merge check, which itself is given them.\<close>

definition vr_ops :: "vr_data elevator_ops" where
  "vr_ops = \<lparr>
     elevator_merge_fn = None,
     elevator_merged_fn = Some vr_merged_request,
     elevator_merge_req_fn = Some vr_merged_requests,
     elevator_allow_merge_fn = None,
     elevator_dispatch_fn = vr_dispatch_requests,
     elevator_add_req_fn = vr_add_request,
     elevator_queue_empty_fn = Some vr_queue_empty,
     elevator_deactivate_req_fn = None,
     elevator_former_req_fn = Some elv_rb_former_request,
     elevator_latter_req_fn = Some elv_rb_latter_request\<rparr>"

definition iosched_vr :: "vr_data elevator_ops" where
  "iosched_vr = vr_ops\<lparr>elevator_merge_fn := Some (vr_merge vr_ops)\<rparr>"


section \<open>The tree and its cursor\<close>

lemma set_vd_fields [simp]:
  "links (set_vd g q) = links q" "queue_head (set_vd g q) = queue_head q" "nr_sorted (set_vd g q) = nr_sorted q"
  "jiffies (set_vd g q) = jiffies q" "rqs (set_vd g q) = rqs q" "rb_nodes (set_vd g q) = rb_nodes q"
  "elevator_data (set_vd g q) = g (elevator_data q)"
  by (simp_all add: set_vd_def)

lemma vr_put_tree_fields [simp]:
  "links (vr_put_tree st q) = links q" "queue_head (vr_put_tree st q) = queue_head q"
  "nr_sorted (vr_put_tree st q) = nr_sorted q" "jiffies (vr_put_tree st q) = jiffies q" "rqs (vr_put_tree st q) = rqs q"
  "elevator_data (vr_put_tree st q) = (elevator_data q)\<lparr>sort_list := rb_root st\<rparr>" "vr_tree (vr_put_tree st q) = st"
  by (simp_all add: vr_put_tree_def vr_tree_def)

lemma vr_put_tree_same: "vr_put_tree (vr_tree q) q = q"
  by (simp add: vr_put_tree_def vr_tree_def set_vd_def)

text \<open>What an operation on the requests \<open>R\<close> keeps.\<close>

definition vr_kept :: "ptr set \<Rightarrow> vr_queue \<Rightarrow> vr_queue \<Rightarrow> bool" where
  "vr_kept R q q' \<longleftrightarrow> queue_head q' = queue_head q \<and> jiffies q' = jiffies q \<and>
     (\<forall>x. blk_rq_pos (rqs q' x) = blk_rq_pos (rqs q x) \<and> rq_is_sync (rqs q' x) = rq_is_sync (rqs q x) \<and>
        (x \<notin> R \<longrightarrow> rqs q' x = rqs q x)) \<and>
     fifo_list (elevator_data q') = fifo_list (elevator_data q) \<and> fifo_expire (elevator_data q') = fifo_expire (elevator_data q) \<and>
     fifo_batch (elevator_data q') = fifo_batch (elevator_data q) \<and> rev_penalty (elevator_data q') = rev_penalty (elevator_data q)"

lemma vr_keptD:
  assumes "vr_kept R q q'"
  shows "by_pos (rqs q') xs = by_pos (rqs q) xs" "blk_rq_pos (rqs q' x) = blk_rq_pos (rqs q x)"
    "fifo_list (elevator_data q') = fifo_list (elevator_data q)" "queue_head q' = queue_head q" "jiffies q' = jiffies q"
proof -
  show "by_pos (rqs q') xs = by_pos (rqs q) xs" by (rule by_pos_cong) (use assms in \<open>simp add: vr_kept_def\<close>)
qed (use assms in \<open>simp_all add: vr_kept_def\<close>)

lemma vr_kept_refl [simp]: "vr_kept R q q"
  by (simp add: vr_kept_def)

lemma vr_kept_trans: "vr_kept R q q' \<Longrightarrow> vr_kept R' q' q'' \<Longrightarrow> vr_kept (R \<union> R') q q''"
  by (simp add: vr_kept_def)

text \<open>The tree holds the requests \<open>B\<close> below the head and \<open>A\<close> from the head on; the cursor is at their border.\<close>

definition vr_cursor :: "vr_queue \<Rightarrow> ptr list \<Rightarrow> ptr list \<Rightarrow> bool" where
  "vr_cursor q B A \<longleftrightarrow>
     rb_list (vr_tree q) (B @ A) \<and> next_rq (elevator_data q) = head_or_null A \<and> prev_rq (elevator_data q) = head_or_null (rev B)"

lemma head_or_null_cases: "xs \<noteq> [] \<and> head_or_null xs \<in> set xs \<or> xs = [] \<and> head_or_null xs = NULL"
  by (cases xs) simp_all

lemma cursor_order:
  assumes "by_pos rs (B @ A)" and "head_or_null A \<noteq> NULL" and "head_or_null (rev B) \<noteq> NULL"
  shows "blk_rq_pos (rs (head_or_null (rev B))) < blk_rq_pos (rs (head_or_null A))"
  using assms head_or_null_cases [of A] head_or_null_cases [of "rev B"] by (auto simp: by_pos_append)

lemma cursor_checks:
  assumes "by_pos (rqs q) (B @ A)" and "next_rq (elevator_data q) = head_or_null A" and "prev_rq (elevator_data q) = head_or_null (rev B)"
  shows "\<not> cursor_same q" "\<not> cursor_crossed q"
  using cursor_order [OF assms(1)] assms(2,3) by (auto simp: cursor_same_def cursor_crossed_def Let_def)

lemma vr_neighbours:
  assumes "rb_list (vr_tree q) (ys @ r # zs)"
  shows "elv_rb_latter_request q r = Some (head_or_null zs)" "elv_rb_former_request q r = Some (head_or_null (rev ys))"
  using rb_list_next [OF assms, of NULL] by (simp_all add: elv_rb_latter_request_def elv_rb_former_request_def vr_tree_def)

text \<open>Taking a request out of the tree, for any cursor.\<close>

lemma vr_del_any:
  assumes t: "rb_list (vr_tree q) (ys @ r # zs)"
    and n: "n = (if next_rq (elevator_data q) = r then head_or_null zs else next_rq (elevator_data q))"
    and p: "p = (if next_rq (elevator_data q) \<noteq> r \<and> prev_rq (elevator_data q) = r then head_or_null (rev ys)
      else prev_rq (elevator_data q))"
    and b: "by_pos (rqs q) (B @ A)" "n = head_or_null A" "p = head_or_null (rev B)"
  shows "\<exists>st. vr_del_rq_rb q r = Some (vr_put_tree st (set_vd (\<lambda>vd. vd\<lparr>next_rq := n, prev_rq := p\<rparr>) q)) \<and>
    rb_list st (ys @ zs)"
proof -
  let ?q1 = "set_vd (\<lambda>vd. vd\<lparr>next_rq := n, prev_rq := p\<rparr>) q"
  have 1: "(if next_rq (elevator_data q) = r
        then map_option (\<lambda>n. set_vd (\<lambda>vd. vd\<lparr>next_rq := n\<rparr>) q) (elv_rb_latter_request q r)
        else if prev_rq (elevator_data q) = r
        then map_option (\<lambda>n. set_vd (\<lambda>vd. vd\<lparr>prev_rq := n\<rparr>) q) (elv_rb_former_request q r)
        else Some q) = Some ?q1"
    unfolding vr_neighbours [OF t] n p by (simp add: set_vd_def)
  have 2: "\<not> cursor_same ?q1" "\<not> cursor_crossed ?q1" using cursor_checks [of ?q1 B A] b by simp_all
  have t1: "rb_list (vr_tree ?q1) (ys @ r # zs)" using t by (simp add: vr_tree_def)
  obtain st where st: "elv_rb_del (vr_tree ?q1) r = Some st" "rb_list st (remove1 r (ys @ r # zs))"
    using elv_rb_del_ok [OF t1, of r] by auto
  have "remove1 r (ys @ r # zs) = ys @ zs" using rb_list_distinct [OF t] by (simp add: remove1_append)
  then show ?thesis using st 2 unfolding vr_del_rq_rb_def 1 by auto
qed


lemma vr_del_cursor:
  assumes c: "vr_cursor q B A" and r: "r \<in> set (B @ A)" and b: "by_pos (rqs q) (remove1 r B @ remove1 r A)"
  shows "\<exists>st n p. vr_del_rq_rb q r = Some (vr_put_tree st (set_vd (\<lambda>vd. vd\<lparr>next_rq := n, prev_rq := p\<rparr>) q)) \<and>
    rb_list st (remove1 r B @ remove1 r A) \<and> n = head_or_null (remove1 r A) \<and> p = head_or_null (rev (remove1 r B))"
proof -
  have t: "rb_list (vr_tree q) (B @ A)" and np: "next_rq (elevator_data q) = head_or_null A" "prev_rq (elevator_data q) = head_or_null (rev B)"
    using c by (simp_all add: vr_cursor_def)
  have d: "distinct (B @ A)" by (rule rb_list_distinct [OF t])
  have r0: "r \<noteq> NULL" using rb_list_ok [OF t r] by auto
  show ?thesis
  proof (cases "r \<in> set A")
    case True
    then obtain a1 a2 where A: "A = a1 @ r # a2" using split_list by metis
    have rB: "r \<notin> set B" using d True by auto
    then have B: "remove1 r B = B" by (rule remove1_idem)
    have A': "remove1 r A = a1 @ a2" using d unfolding A by (simp add: remove1_append)
    have p: "head_or_null (rev B) \<noteq> r" using head_or_null_cases [of "rev B"] rB r0 by auto
    have n: "head_or_null A = r \<longleftrightarrow> a1 = []" using d unfolding A by (cases a1) auto
    have "rb_list (vr_tree q) ((B @ a1) @ r # a2)" using t A by simp
    from vr_del_any [OF this refl refl b] show ?thesis
      unfolding np using p n A A' B by (cases "a1 = []") (auto simp: head_or_null_append)
  next
    case False
    then have "r \<in> set B" using r by simp
    then obtain b1 b2 where B: "B = b1 @ r # b2" using split_list by metis
    have A: "remove1 r A = A" using False by (simp add: remove1_idem)
    have B': "remove1 r B = b1 @ b2" using d unfolding B by (simp add: remove1_append)
    have n: "head_or_null A \<noteq> r" using head_or_null_cases [of A] False r0 by auto
    have p: "head_or_null (rev B) = r \<longleftrightarrow> b2 = []"
      using d unfolding B by (cases b2 rule: rev_cases) auto
    have "rb_list (vr_tree q) (b1 @ r # b2 @ A)" using t B by simp
    from vr_del_any [OF this refl refl b] show ?thesis
      unfolding np using p n A B B' by (cases "b2 = []") (auto simp: head_or_null_append)
  qed
qed

text \<open>The requests are in sector order and the border is at the head position.\<close>

definition vr_head :: "vr_queue \<Rightarrow> ptr list \<Rightarrow> ptr list \<Rightarrow> bool" where
  "vr_head q B A \<longleftrightarrow> vr_cursor q B A \<and> by_pos (rqs q) (B @ A) \<and>
     (\<forall>x\<in>set B. blk_rq_pos (rqs q x) < last_sector (elevator_data q)) \<and>
     (\<forall>x\<in>set A. last_sector (elevator_data q) \<le> blk_rq_pos (rqs q x))"

abbreviation vr_fifos :: "vr_queue \<Rightarrow> (bool \<Rightarrow> ptr list) \<Rightarrow> ptr set \<Rightarrow> ptr list \<Rightarrow> bool" where
  "vr_fifos q \<equiv> loose_fifos (links q) (fifo_list (elevator_data q)) (queue_head q)"

lemma vr_move_ok:
  assumes h: "vr_head q B A" and f: "vr_fifos q F L D" and s: "B @ A = ys @ r # zs" and rL: "r \<in> L"
  shows "\<exists>q'. vr_move_request q r = Some q' \<and> vr_head q' ys zs \<and>
    vr_fifos q' (\<lambda>e. remove1 r (F e)) (L - {r}) (D @ [r]) \<and> vr_kept {r} q q' \<and> nr_sorted q' = nr_sorted q - 1 \<and>
    nbatched (elevator_data q') = nbatched (elevator_data q) + 1 \<and> last_sector (elevator_data q') = blk_rq_pos (rqs q r) \<and>
    head_dir (elevator_data q') = (if blk_rq_pos (rqs q r) > last_sector (elevator_data q) then FORWARD else BACKWARD)"
proof -
  have t: "rb_list (vr_tree q) (ys @ r # zs)" and b: "by_pos (rqs q) (ys @ r # zs)"
    using h s by (simp_all add: vr_head_def vr_cursor_def)
  have r0: "r \<noteq> NULL" using rb_list_ok [OF t, of r] by auto
  have dist: "distinct (ys @ r # zs)" by (rule rb_list_distinct [OF t])
  let ?q1 = "set_vd (\<lambda>vd. vd\<lparr>last_sector := blk_rq_pos (rqs q r)\<rparr>)
    (set_vd (\<lambda>vd. vd\<lparr>head_dir := if blk_rq_pos (rqs q r) > last_sector vd then FORWARD else BACKWARD\<rparr>) q)"
  let ?q2 = "set_vd (\<lambda>vd. vd\<lparr>next_rq := head_or_null zs, prev_rq := head_or_null (rev ys)\<rparr>) ?q1"
  let ?q3 = "rq_fifo_clear r ?q2"
  have t1: "rb_list (vr_tree ?q1) (ys @ r # zs)" and t3: "rb_list (vr_tree ?q3) (ys @ r # zs)" using t by (simp_all add: vr_tree_def)
  have bp: "by_pos (rqs ?q3) xs = by_pos (rqs q) xs" for xs by (rule by_pos_cong) (simp add: blk_rq_pos_def)
  have b2: "by_pos (rqs q) (ys @ zs)" by (rule by_pos_remove [OF b])
  have b3: "by_pos (rqs ?q3) (ys @ zs)" unfolding bp by (rule b2)
  have n: "head_or_null zs \<noteq> r" and p: "head_or_null (rev ys) \<noteq> r"
    using dist head_or_null_cases [of zs] head_or_null_cases [of "rev ys"] r0 by auto
  obtain st where st: "vr_del_rq_rb ?q3 r = Some (vr_put_tree st (set_vd (\<lambda>vd. vd\<lparr>next_rq := head_or_null zs, prev_rq := head_or_null (rev ys)\<rparr>) ?q3))"
    "rb_list st (ys @ zs)"
    using vr_del_any [OF t3 _ _ b3, of "head_or_null zs" "head_or_null (rev ys)"] n p by auto
  let ?q4 = "vr_put_tree st (set_vd (\<lambda>vd. vd\<lparr>next_rq := head_or_null zs, prev_rq := head_or_null (rev ys)\<rparr>) ?q3)"
  let ?q5 = "set_vd (\<lambda>vd. vd\<lparr>nbatched := nbatched vd + 1\<rparr>) (elv_dispatch_add_tail ?q4 r)"
  have "\<not> cursor_same ?q2" using cursor_checks(1) [of ?q2 ys zs] b2 by simp
  then have e: "vr_move_request q r = Some ?q5"
    using vr_neighbours [OF t1] st(1) by (simp add: vr_move_request_def vr_remove_request_def Let_def)
  have tr: "vr_tree ?q5 = st" by (simp add: vr_tree_def vr_put_tree_def)
  have "by_pos (rqs ?q5) (ys @ zs)" using b2 by (subst by_pos_cong [of _ "rqs q"]) (simp_all add: blk_rq_pos_def)
  moreover have "vr_cursor ?q5 ys zs" unfolding vr_cursor_def tr using st(2) by simp
  ultimately have "vr_head ?q5 ys zs"
    unfolding vr_head_def using b by (auto simp: by_pos_append by_pos_Cons blk_rq_pos_def)
  moreover have "vr_fifos ?q5 (\<lambda>e. remove1 r (F e)) (L - {r}) (D @ [r])"
    using loose_dispatch [OF f rL] by simp
  moreover have "vr_kept {r} q ?q5" by (simp add: vr_kept_def blk_rq_pos_def rq_is_sync_def)
  ultimately show ?thesis using e by (intro exI [of _ ?q5]) (simp add: blk_rq_pos_def)
qed


section \<open>Adding a request\<close>

lemma insort_above: "\<forall>x\<in>set B. f x < f r \<Longrightarrow> insort_key f r (B @ A) = B @ insort_key f r A"
  by (induction B) (auto simp: not_le)

lemma insort_below: "\<forall>x\<in>set A. f r < f x \<Longrightarrow> insort_key f r (B @ A) = insort_key f r B @ A"
proof (induction B)
  case Nil
  then show ?case by (cases A) auto
qed auto

lemma head_insort:
  assumes "\<forall>x\<in>set A. f x \<noteq> f r"
  shows "head_or_null (insort_key f r A) = (if A = [] \<or> f r < f (head_or_null A) then r else head_or_null A)"
  using assms by (cases A) (auto simp: order_less_le not_le)

lemma last_insort:
  assumes "by_pos rs B" and "\<forall>x\<in>set B. blk_rq_pos (rs x) \<noteq> blk_rq_pos (rs r)"
  shows "head_or_null (rev (insort_key (\<lambda>x. blk_rq_pos (rs x)) r B)) =
    (if B = [] \<or> blk_rq_pos (rs (head_or_null (rev B))) < blk_rq_pos (rs r) then r else head_or_null (rev B))"
proof (cases B rule: rev_cases)
  case (snoc C b)
  let ?f = "\<lambda>x. blk_rq_pos (rs x)"
  show ?thesis
  proof (cases "?f b < ?f r")
    case True
    then have "\<forall>x\<in>set B. ?f x < ?f r" using assms(1) snoc by (auto simp: by_pos_append by_pos_Cons)
    from insort_above [of B ?f r "[]", OF this] show ?thesis using True snoc by simp
  next
    case False
    then have "?f r < ?f b" using assms(2) snoc by (auto simp: not_less order_less_le)
    then have "insort_key ?f r (C @ [b]) = insort_key ?f r C @ [b]" by (intro insort_below) simp
    then show ?thesis using False snoc by simp
  qed
qed simp

lemma vr_tree_cursor [simp]:
  "vr_tree (set_vd (\<lambda>vd. vd\<lparr>next_rq := n\<rparr>) q) = vr_tree q" "vr_tree (set_vd (\<lambda>vd. vd\<lparr>prev_rq := n\<rparr>) q) = vr_tree q"
  by (simp_all add: vr_tree_def)

lemma set_vd_next_same: "next_rq (elevator_data q) = n \<Longrightarrow> set_vd (\<lambda>vd. vd\<lparr>next_rq := n\<rparr>) q = q"
  by (auto simp: set_vd_def)

lemma set_vd_prev_same: "prev_rq (elevator_data q) = n \<Longrightarrow> set_vd (\<lambda>vd. vd\<lparr>prev_rq := n\<rparr>) q = q"
  by (auto simp: set_vd_def)

lemma vr_insert_ok:
  assumes h: "vr_head q B A" and r: "node_ok r" "r \<notin> set (B @ A)"
    and u: "\<forall>x\<in>set (B @ A). blk_rq_pos (rqs q x) \<noteq> blk_rq_pos (rqs q r)"
  shows "\<exists>st q' B' A'. elv_rb_add (rqs q) (vr_tree q) r = Some (NULL, st) \<and> vr_cursor_add (vr_put_tree st q) r = Some q' \<and>
    vr_head q' B' A' \<and> set (B' @ A') = insert r (set (B @ A)) \<and> links q' = links q \<and> vr_kept {} q q' \<and>
    nr_sorted q' = nr_sorted q \<and> nbatched (elevator_data q') = nbatched (elevator_data q)"
proof -
  let ?f = "\<lambda>x. blk_rq_pos (rqs q x)" and ?vd = "elevator_data q"
  have t: "rb_list (vr_tree q) (B @ A)" and b: "by_pos (rqs q) (B @ A)" and np: "next_rq ?vd = head_or_null A" "prev_rq ?vd = head_or_null (rev B)"
    and B: "\<forall>x\<in>set B. ?f x < last_sector ?vd" and A: "\<forall>x\<in>set A. last_sector ?vd \<le> ?f x"
    using h by (simp_all add: vr_head_def vr_cursor_def)
  obtain st ys zs where st: "elv_rb_add (rqs q) (vr_tree q) r = Some (NULL, st)" "B @ A = ys @ zs" "rb_list st (ys @ r # zs)"
    "by_pos (rqs q) (ys @ r # zs)"
    using elv_rb_add_new [OF t b r u] by blast
  have i: "insort_key ?f r (B @ A) = ys @ r # zs" unfolding st(2) by (rule insort_by_pos [OF st(4)])
  have A0: "A = [] \<longleftrightarrow> head_or_null A = NULL" "B = [] \<longleftrightarrow> head_or_null (rev B) = NULL"
    using rb_list_ok [OF t, of NULL] head_or_null_cases [of A] head_or_null_cases [of "rev B"] by auto
  let ?q1 = "vr_put_tree st q"
  show ?thesis
  proof (cases "?f r \<ge> last_sector ?vd")
    case True
    let ?A = "insort_key ?f r A"
    let ?q' = "set_vd (\<lambda>vd. vd\<lparr>next_rq := head_or_null ?A\<rparr>) ?q1"
    have l: "B @ ?A = ys @ r # zs" using insort_above [of B ?f r A] B True i by fastforce
    have nx: "head_or_null ?A = (if head_or_null A = NULL \<or> ?f r < ?f (head_or_null A) then r else head_or_null A)"
      using head_insort [of A ?f r] u A0(1) by simp
    have bp: "by_pos (rqs ?q') (B @ ?A)" using st(4) l by simp
    have "\<not> cursor_same ?q'" "\<not> cursor_crossed ?q'" using cursor_checks [OF bp] np by simp_all
    then have "vr_cursor_add ?q1 r = Some ?q'"
      using True nx np(1)
      by (cases "head_or_null A = NULL \<or> ?f r < ?f (head_or_null A)") (simp_all add: vr_cursor_add_def Let_def set_vd_next_same)
    moreover have "vr_cursor ?q' B ?A" unfolding vr_cursor_def using st(3) l np by simp
    ultimately show ?thesis
      using st(1) bp B A True
      by (intro exI [of _ st] exI [of _ ?q'] exI [of _ B] exI [of _ ?A]) (auto simp: vr_head_def vr_kept_def set_insort_key)
  next
    case False
    let ?B = "insort_key ?f r B"
    let ?q' = "set_vd (\<lambda>vd. vd\<lparr>prev_rq := head_or_null (rev ?B)\<rparr>) ?q1"
    have l: "?B @ A = ys @ r # zs" using insort_below [of A ?f r B] A False i by fastforce
    have pv: "head_or_null (rev ?B) = (if head_or_null (rev B) = NULL \<or> ?f (head_or_null (rev B)) < ?f r then r else head_or_null (rev B))"
      using last_insort [of "rqs q" B r] b u A0(2) by (simp add: by_pos_append)
    have bp: "by_pos (rqs ?q') (?B @ A)" using st(4) l by simp
    have "\<not> cursor_same ?q'" "\<not> cursor_crossed ?q'" using cursor_checks [OF bp] np by simp_all
    then have "vr_cursor_add ?q1 r = Some ?q'"
      using False pv np(2)
      by (cases "head_or_null (rev B) = NULL \<or> ?f (head_or_null (rev B)) < ?f r") (simp_all add: vr_cursor_add_def Let_def set_vd_prev_same)
    moreover have "vr_cursor ?q' ?B A" unfolding vr_cursor_def using st(3) l np by simp
    ultimately show ?thesis
      using st(1) bp B A False
      by (intro exI [of _ st] exI [of _ ?q'] exI [of _ ?B] exI [of _ A]) (auto simp: vr_head_def vr_kept_def set_insort_key not_le)
  qed
qed


text \<open>A request at the same sector is dispatched first.\<close>

lemma vr_add_rq_rb_ok:
  assumes h: "vr_head q B A" and f: "vr_fifos q F L D" and L: "set (B @ A) \<subseteq> L" and r: "node_ok r" "r \<notin> set (B @ A)"
  shows "\<exists>X q' B' A'. vr_add_rq_rb q r = Some q' \<and> vr_head q' B' A' \<and>
    vr_fifos q' (\<lambda>e. foldr remove1 X (F e)) (L - set X) (D @ X) \<and> set (B' @ A') = insert r (set (B @ A) - set X) \<and>
    (X = [] \<or> (\<exists>a. X = [a] \<and> a \<in> set (B @ A) \<and> blk_rq_pos (rqs q a) = blk_rq_pos (rqs q r))) \<and>
    vr_kept (set X) q q' \<and> nr_sorted q' = nr_sorted q - of_nat (length X)"
proof (cases "\<exists>a\<in>set (B @ A). blk_rq_pos (rqs q a) = blk_rq_pos (rqs q r)")
  case False
  then obtain st q' B' A' where 1: "elv_rb_add (rqs q) (vr_tree q) r = Some (NULL, st)" "vr_cursor_add (vr_put_tree st q) r = Some q'"
    "vr_head q' B' A'" "set (B' @ A') = insert r (set (B @ A))" "links q' = links q" "vr_kept {} q q'" "nr_sorted q' = nr_sorted q"
    using vr_insert_ok [OF h r] by blast
  have "vr_fifos q' F L D" unfolding 1(5) vr_keptD(3,4) [OF 1(6)] by (rule f)
  then show ?thesis using 1
    by (intro exI [of _ "[]"] exI [of _ q'] exI [of _ B'] exI [of _ A']) (simp add: vr_add_rq_rb_def)
next
  case True
  then obtain a where a: "a \<in> set (B @ A)" "blk_rq_pos (rqs q a) = blk_rq_pos (rqs q r)" by blast
  have t: "rb_list (vr_tree q) (B @ A)" and b: "by_pos (rqs q) (B @ A)" using h by (simp_all add: vr_head_def vr_cursor_def)
  obtain ys zs where s: "B @ A = ys @ a # zs" using split_list [OF a(1)] by blast
  have dist: "distinct (ys @ a # zs)" using rb_list_distinct [OF t] s by simp
  obtain q1 where q1: "vr_move_request q a = Some q1" "vr_head q1 ys zs" "vr_fifos q1 (\<lambda>e. remove1 a (F e)) (L - {a}) (D @ [a])"
    "vr_kept {a} q q1" "nr_sorted q1 = nr_sorted q - 1"
    using vr_move_ok [OF h f s] a(1) L by blast
  have ys: "set (ys @ zs) = set (B @ A) - {a}" unfolding s using dist by auto
  have u: "\<forall>x\<in>set (ys @ zs). blk_rq_pos (rqs q1 x) \<noteq> blk_rq_pos (rqs q1 r)"
    unfolding vr_keptD(2) [OF q1(4)] ys using by_pos_unique [OF b _ a(1)] a(2) by (metis Diff_iff singletonI)
  have ry: "r \<notin> set (ys @ zs)" unfolding ys using r(2) by simp
  obtain st q' B' A' where 2: "elv_rb_add (rqs q1) (vr_tree q1) r = Some (NULL, st)" "vr_cursor_add (vr_put_tree st q1) r = Some q'"
    "vr_head q' B' A'" "set (B' @ A') = insert r (set (ys @ zs))" "links q' = links q1" "vr_kept {} q1 q'" "nr_sorted q' = nr_sorted q1"
    using vr_insert_ok [OF q1(2) r(1) ry u] by blast
  have "a \<noteq> NULL" using rb_list_ok [OF t a(1)] by auto
  then have "vr_add_rq_rb q r = Some q'"
    using elv_rb_add_alias [OF t b r a] q1(1) 2(1,2) by (simp add: vr_add_rq_rb_def vr_put_tree_same)
  moreover have "vr_fifos q' (\<lambda>e. remove1 a (F e)) (L - {a}) (D @ [a])" unfolding 2(5) vr_keptD(3,4) [OF 2(6)] by (rule q1(3))
  moreover have "vr_kept {a} q q'" using vr_kept_trans [OF q1(4) 2(6)] by simp
  ultimately show ?thesis using 2(3,4,7) q1(5) a unfolding ys
    by (intro exI [of _ "[a]"] exI [of _ q'] exI [of _ B'] exI [of _ A']) simp
qed

text \<open>The whole state.\<close>

definition vr :: "vr_queue \<Rightarrow> (bool \<Rightarrow> ptr list) \<Rightarrow> ptr list \<Rightarrow> ptr list \<Rightarrow> ptr list \<Rightarrow> bool" where
  "vr q F B A D \<longleftrightarrow> vr_head q B A \<and> vr_fifos q F (set (B @ A)) D"

lemma vrD:
  assumes "vr q F B A D"
  shows "vr_head q B A" "vr_fifos q F (set (B @ A)) D" "rb_list (vr_tree q) (B @ A)" "by_pos (rqs q) (B @ A)"
    "next_rq (elevator_data q) = head_or_null A" "prev_rq (elevator_data q) = head_or_null (rev B)"
  using assms by (simp_all add: vr_def vr_head_def vr_cursor_def)

lemma foldr_remove1_set: "set (foldr remove1 X xs) \<subseteq> set xs"
proof (induction X)
  case (Cons x X)
  then show ?case using set_remove1_subset [of x "foldr remove1 X xs"] by auto
qed simp

lemma queued_eq:
  shows "g d = (0 :: u32) \<Longrightarrow> G e = G e @ (if e = d \<and> g e \<noteq> 0 then [r] else [])"
    and "g d \<noteq> (0 :: u32) \<Longrightarrow> (G(d := G d @ [r])) e = G e @ (if e = d \<and> g e \<noteq> 0 then [r] else [])"
  by (cases "e = d"; simp)+

text \<open>Adding one of several requests \<open>N\<close> that are on no list.\<close>

lemma vr_add_one:
  assumes h: "vr_head q B A" and f: "vr_fifos q F (set (B @ A) \<union> N) D" and N: "N \<inter> set (B @ A) = {}" and r: "r \<in> N" "node_ok r"
    and u: "\<And>e. r \<notin> set (F e)"
  shows "\<exists>X q' F' B' A'. vr_add_request q r = Some q' \<and> vr_head q' B' A' \<and> vr_fifos q' F' (set (B' @ A') \<union> (N - {r})) (D @ X) \<and>
    set (B' @ A') = insert r (set (B @ A) - set X) \<and>
    F' = (\<lambda>e. foldr remove1 X (F e) @ (if e = rq_is_sync (rqs q r) \<and> fifo_expire (elevator_data q) e \<noteq> 0 then [r] else [])) \<and>
    (X = [] \<or> (\<exists>a. X = [a] \<and> a \<in> set (B @ A) \<and> blk_rq_pos (rqs q a) = blk_rq_pos (rqs q r))) \<and>
    vr_kept (insert r (set X)) q q' \<and> nr_sorted q' = nr_sorted q - of_nat (length X)"
proof -
  let ?d = "rq_is_sync (rqs q r)" and ?e = "fifo_expire (elevator_data q)"
  have rS: "r \<notin> set (B @ A)" using N r(1) by blast
  obtain X q1 B' A' where 1: "vr_add_rq_rb q r = Some q1" "vr_head q1 B' A'"
    "vr_fifos q1 (\<lambda>e. foldr remove1 X (F e)) (set (B @ A) \<union> N - set X) (D @ X)"
    "set (B' @ A') = insert r (set (B @ A) - set X)"
    "X = [] \<or> (\<exists>a. X = [a] \<and> a \<in> set (B @ A) \<and> blk_rq_pos (rqs q a) = blk_rq_pos (rqs q r))"
    "vr_kept (set X) q q1" "nr_sorted q1 = nr_sorted q - of_nat (length X)"
    using vr_add_rq_rb_ok [OF h f Un_upper1 r(2) rS] by blast
  let ?F = "\<lambda>e. foldr remove1 X (F e)" and ?L = "set (B' @ A') \<union> (N - {r})"
  have X: "set X \<subseteq> set (B @ A)" using 1(5) by auto
  then have L: "set (B @ A) \<union> N - set X = ?L" unfolding 1(4) using N rS r(1) by blast
  have rF: "r \<notin> set (?F e)" for e using foldr_remove1_set [of X "F e"] u [of e] by blast
  show ?thesis
  proof (cases "?e ?d = 0")
    case True
    then have e: "vr_add_request q r = Some q1" using 1(1,6) by (simp add: vr_add_request_def vr_kept_def Let_def)
    have k: "vr_kept (insert r (set X)) q q1" using 1(6) by (simp add: vr_kept_def)
    have F: "?F = (\<lambda>e. ?F e @ (if e = ?d \<and> ?e e \<noteq> 0 then [r] else []))" by (rule ext, rule queued_eq(1) [of ?e ?d ?F, OF True])
    show ?thesis
      by (intro exI [of _ X] exI [of _ q1] exI [of _ ?F] exI [of _ B'] exI [of _ A'] conjI)
        (rule e 1(2) 1(3)[unfolded L] 1(4) F 1(5) k 1(7))+
  next
    case False
    let ?q2 = "rq_set_fifo_time r (jiffies q1 + ?e ?d) q1"
    let ?q' = "?q2\<lparr>links := list_add_tail r (fifo_list (elevator_data q1) ?d) (links ?q2)\<rparr>"
    have e: "vr_add_request q r = Some ?q'" using 1(1,6) False by (simp add: vr_add_request_def vr_kept_def Let_def)
    have rL: "r \<in> ?L" using 1(4) by blast
    note f1 = 1(3)[unfolded L]
    have "vr_fifos q1 ?F (?L - {r}) (D @ X)" by (rule loose_subset [OF f1]) (use rF loose_fifosD(2) [OF f1] in auto)
    moreover have "r \<notin> ?L - {r}" by blast
    moreover have "fifo_list (elevator_data q1) e \<noteq> r" for e using loose_fifosD(5) [OF f1, of e] rL by metis
    ultimately have "loose_fifos (list_add_tail r (fifo_list (elevator_data q1) ?d) (links q1)) (fifo_list (elevator_data q1)) (queue_head q1)
        (?F(?d := ?F ?d @ [r])) (insert r (?L - {r})) (D @ X)"
      using loose_fifosD(4) [OF f1 rL] by (intro loose_queue)
    then have "vr_fifos ?q' (?F(?d := ?F ?d @ [r])) (insert r (?L - {r})) (D @ X)" by (simp only: rq_set_fifo_time_def) simp
    then have 2: "vr_fifos ?q' (?F(?d := ?F ?d @ [r])) ?L (D @ X)" by (simp only: insert_Diff [OF rL])
    have 3: "vr_head ?q' B' A'"
      using 1(2) by_pos_cong [of "rqs ?q'" "rqs q1" "B' @ A'"]
      by (simp add: vr_head_def vr_cursor_def vr_tree_def rq_set_fifo_time_def upd_rq_def blk_rq_pos_def)
    have k: "vr_kept (insert r (set X)) q ?q'"
      using 1(6) by (simp add: vr_kept_def rq_set_fifo_time_def upd_rq_def blk_rq_pos_def rq_is_sync_def)
    have F: "?F(?d := ?F ?d @ [r]) = (\<lambda>e. ?F e @ (if e = ?d \<and> ?e e \<noteq> 0 then [r] else []))"
      by (rule ext, rule queued_eq(2) [of ?e ?d ?F, OF False])
    have n: "nr_sorted ?q' = nr_sorted q - of_nat (length X)" using 1(7) by (simp add: rq_set_fifo_time_def)
    show ?thesis
      by (intro exI [of _ X] exI [of _ ?q'] exI [of _ "?F(?d := ?F ?d @ [r])"] exI [of _ B'] exI [of _ A'] conjI)
        (rule e 3 2 1(4) F 1(5) k n)+
  qed
qed

lemma vr_add_ok:
  assumes v: "vr q F B A D" and r: "node_ok r" "r \<notin> set (B @ A)" "r \<notin> set (queue_head q # D)"
      "\<And>e. fifo_list (elevator_data q) e \<noteq> r" "dlist (links q) r []"
  shows "\<exists>X q' F' B' A'. vr_add_request q r = Some q' \<and> vr q' F' B' A' (D @ X) \<and> set (B' @ A') = insert r (set (B @ A) - set X) \<and>
    F' = (\<lambda>e. foldr remove1 X (F e) @ (if e = rq_is_sync (rqs q r) \<and> fifo_expire (elevator_data q) e \<noteq> 0 then [r] else [])) \<and>
    (X = [] \<or> (\<exists>a. X = [a] \<and> a \<in> set (B @ A) \<and> blk_rq_pos (rqs q a) = blk_rq_pos (rqs q r))) \<and>
    vr_kept (insert r (set X)) q q' \<and> nr_sorted q' = nr_sorted q - of_nat (length X)"
proof -
  note V = vrD [OF v]
  have f: "vr_fifos q F (set (B @ A) \<union> {r}) D" using loose_queue_not [OF V(2) r(3-5)] by simp
  have u: "r \<notin> set (F e)" for e using loose_fifosD(2) [OF V(2), of e] r(2) by blast
  have N: "{r} \<inter> set (B @ A) = {}" using r(2) by blast
  from vr_add_one [OF V(1) f N singletonI r(1) u] show ?thesis unfolding vr_def by (simp only: Diff_cancel Un_empty_right) blast
qed

section \<open>Removals and merges\<close>

lemma vr_remove_ok:
  assumes v: "vr q F B A D" and r: "r \<in> set (B @ A)"
  shows "\<exists>q'. vr_remove_request q r = Some q' \<and> vr q' (\<lambda>e. remove1 r (F e)) (remove1 r B) (remove1 r A) D \<and>
    vr_kept {r} q q' \<and> nr_sorted q' = nr_sorted q"
proof -
  note V = vrD [OF v]
  let ?q1 = "rq_fifo_clear r q" and ?B = "remove1 r B" and ?A = "remove1 r A"
  have c: "vr_cursor ?q1 B A" using V(3,5,6) by (simp add: vr_cursor_def vr_tree_def)
  have sub: "set ?B \<subseteq> set B" "set ?A \<subseteq> set A" by (rule set_remove1_subset)+
  have "by_pos (rqs q) (?B @ ?A)"
    using V(4) by_pos_remove1 [of "rqs q" B r] by_pos_remove1 [of "rqs q" A r] sub by (auto simp: by_pos_append)
  then have b: "by_pos (rqs ?q1) (?B @ ?A)" by (subst by_pos_cong [of _ "rqs q"]) (simp_all add: blk_rq_pos_def)
  obtain st n p where d: "vr_del_rq_rb ?q1 r = Some (vr_put_tree st (set_vd (\<lambda>vd. vd\<lparr>next_rq := n, prev_rq := p\<rparr>) ?q1))"
    "rb_list st (?B @ ?A)" "n = head_or_null ?A" "p = head_or_null (rev ?B)"
    using vr_del_cursor [OF c r b] by blast
  let ?q' = "vr_put_tree st (set_vd (\<lambda>vd. vd\<lparr>next_rq := n, prev_rq := p\<rparr>) ?q1)"
  have "distinct (B @ A)" by (rule rb_list_distinct [OF V(3)])
  then have L: "set (B @ A) - {r} = set (?B @ ?A)" by (auto simp: set_remove1_eq)
  have "vr_fifos ?q' (\<lambda>e. remove1 r (F e)) (set (?B @ ?A)) D" using loose_del [OF V(2) r] unfolding L by simp
  moreover have "vr_head ?q' ?B ?A"
    using d b V(1) sub by (auto simp: vr_head_def vr_cursor_def blk_rq_pos_def)
  moreover have "vr_kept {r} q ?q'" by (simp add: vr_kept_def blk_rq_pos_def rq_is_sync_def)
  ultimately show ?thesis using d(1) by (simp add: vr_remove_request_def vr_def)
qed

text \<open>A front merge moves the start of \<open>req\<close>; nothing is known of its new place.\<close>

definition vr_but :: "vr_queue \<Rightarrow> ptr \<Rightarrow> (bool \<Rightarrow> ptr list) \<Rightarrow> ptr list \<Rightarrow> ptr list \<Rightarrow> ptr list \<Rightarrow> bool" where
  "vr_but q req F B A D \<longleftrightarrow> vr_cursor q B A \<and> vr_fifos q F (set (B @ A)) D \<and> by_pos (rqs q) (remove1 req B @ remove1 req A) \<and>
     (\<forall>x\<in>set B - {req}. blk_rq_pos (rqs q x) < last_sector (elevator_data q)) \<and>
     (\<forall>x\<in>set A - {req}. last_sector (elevator_data q) \<le> blk_rq_pos (rqs q x))"

lemma vr_merged_request_ok:
  assumes v: "vr_but q req F B A D" and r: "req \<in> set (B @ A)"
  shows "\<exists>X q' B' A'. vr_merged_request q req ELEVATOR_FRONT_MERGE = Some q' \<and>
    vr q' (\<lambda>e. foldr remove1 X (F e)) B' A' (D @ X) \<and> set (B' @ A') = set (B @ A) - set X \<and>
    (X = [] \<or> (\<exists>a. X = [a] \<and> a \<noteq> req \<and> a \<in> set (B @ A) \<and> blk_rq_pos (rqs q a) = blk_rq_pos (rqs q req))) \<and>
    vr_kept (set X) q q' \<and> nr_sorted q' = nr_sorted q - of_nat (length X)"
proof -
  let ?B = "remove1 req B" and ?A = "remove1 req A"
  have c: "vr_cursor q B A" and f: "vr_fifos q F (set (B @ A)) D" and b: "by_pos (rqs q) (?B @ ?A)"
    using v by (simp_all add: vr_but_def)
  have t: "rb_list (vr_tree q) (B @ A)" using c by (simp add: vr_cursor_def)
  have "distinct (B @ A)" by (rule rb_list_distinct [OF t])
  then have S: "set ?B = set B - {req}" "set ?A = set A - {req}" "set (?B @ ?A) = set (B @ A) - {req}" by (auto simp: set_remove1_eq)
  obtain st n p where d: "vr_del_rq_rb q req = Some (vr_put_tree st (set_vd (\<lambda>vd. vd\<lparr>next_rq := n, prev_rq := p\<rparr>) q))"
    "rb_list st (?B @ ?A)" "n = head_or_null ?A" "p = head_or_null (rev ?B)"
    using vr_del_cursor [OF c r b] by blast
  let ?q1 = "vr_put_tree st (set_vd (\<lambda>vd. vd\<lparr>next_rq := n, prev_rq := p\<rparr>) q)"
  have h: "vr_head ?q1 ?B ?A" using d b v S(1,2) by (simp add: vr_head_def vr_cursor_def vr_but_def)
  have f1: "vr_fifos ?q1 F (set (B @ A)) D" using f by simp
  have L: "set (?B @ ?A) \<subseteq> set (B @ A)" and n: "req \<notin> set (?B @ ?A)" unfolding S(3) by auto
  obtain X q' B' A' where 1: "vr_add_rq_rb ?q1 req = Some q'" "vr_head q' B' A'"
    "vr_fifos q' (\<lambda>e. foldr remove1 X (F e)) (set (B @ A) - set X) (D @ X)" "set (B' @ A') = insert req (set (?B @ ?A) - set X)"
    "X = [] \<or> (\<exists>a. X = [a] \<and> a \<in> set (?B @ ?A) \<and> blk_rq_pos (rqs ?q1 a) = blk_rq_pos (rqs ?q1 req))"
    "vr_kept (set X) ?q1 q'" "nr_sorted q' = nr_sorted ?q1 - of_nat (length X)"
    using vr_add_rq_rb_ok [OF h f1 L rb_list_ok [OF t r] n] by blast
  have X: "X = [] \<or> (\<exists>a. X = [a] \<and> a \<noteq> req \<and> a \<in> set (B @ A) \<and> blk_rq_pos (rqs q a) = blk_rq_pos (rqs q req))"
    using 1(5) unfolding S(3) by auto
  have s: "set (B' @ A') = set (B @ A) - set X" unfolding 1(4) S(3) using X r by auto
  have e: "vr_merged_request q req ELEVATOR_FRONT_MERGE = Some q'" using d(1) 1(1) by (simp add: vr_merged_request_def)
  have "vr q' (\<lambda>e. foldr remove1 X (F e)) B' A' (D @ X)" using 1(2,3) unfolding vr_def s by simp
  moreover have "vr_kept (set X) q q'" using 1(6) by (simp add: vr_kept_def)
  ultimately show ?thesis using e s X 1(7) by auto
qed


lemma vr_moved:
  assumes v: "vr q F B A D"
  shows "vr_but (upd_rq req (\<lambda>rq. rq\<lparr>rq_sector := s\<rparr>) q) req F B A D"
proof -
  note V = vrD [OF v]
  let ?q = "upd_rq req (\<lambda>rq. rq\<lparr>rq_sector := s\<rparr>) q"
  have "distinct (B @ A)" by (rule rb_list_distinct [OF V(3)])
  then have n: "req \<notin> set (remove1 req B @ remove1 req A)" by auto
  have "by_pos (rqs q) (remove1 req B @ remove1 req A)"
    using V(4) by_pos_remove1 [of "rqs q" B req] by_pos_remove1 [of "rqs q" A req]
      set_remove1_subset [of req B] set_remove1_subset [of req A] by (auto simp: by_pos_append)
  then have "by_pos (rqs ?q) (remove1 req B @ remove1 req A)" using by_pos_upd [OF n] by blast
  then show ?thesis
    unfolding vr_but_def using V by (auto simp: vr_head_def vr_cursor_def vr_tree_def upd_rq_def)
qed

text \<open>
  Merging \<open>next\<close> into \<open>rq\<close>: if both are on FIFO lists and \<open>next\<close> expires first, \<open>rq\<close> takes its deadline and its place,
  which may be in the other list.
\<close>

definition vr_queued :: "(bool \<Rightarrow> ptr list) \<Rightarrow> ptr \<Rightarrow> bool" where
  "vr_queued F r \<longleftrightarrow> r \<in> set (F SYNC) \<union> set (F ASYNC)"

lemma vr_queued_in: "vr_queued F r \<longleftrightarrow> (\<exists>e. r \<in> set (F e))"
  unfolding vr_queued_def by (metis Un_iff)

definition vr_merged_fifo :: "bool \<Rightarrow> ptr \<Rightarrow> ptr \<Rightarrow> (bool \<Rightarrow> ptr list) \<Rightarrow> bool \<Rightarrow> ptr list" where
  "vr_merged_fifo earlier rq next F e =
     (if earlier then map (\<lambda>x. if x = next then rq else x) (remove1 rq (F e)) else remove1 next (F e))"

lemma loose_list_empty:
  assumes "loose_fifos h f p F L D" "r \<in> L"
  shows "list_empty r h \<longleftrightarrow> \<not> vr_queued F r"
proof (cases "vr_queued F r")
  case True
  then obtain e where "r \<in> set (F e)" unfolding vr_queued_in by blast
  then show ?thesis using dlist_member_not_empty [OF fifosD(1) [OF loose_fifosD(1) [OF assms(1)]]] True by blast
next
  case False
  then have "dlist h r []" using loose_fifosD(3) [OF assms] unfolding vr_queued_in by blast
  then show ?thesis using False dlist_empty_iff by blast
qed

lemma merged_fifo_move:
  assumes f: "fifos h f p F D" and x: "x \<in> set (F s)" "y \<noteq> x" "y \<in> set (F t)" and m: "remove1 x (F t) = as @ y # bs"
  shows "(\<lambda>e. remove1 y (((\<lambda>s. remove1 x (F s))(t := as @ y # x # bs)) e)) = vr_merged_fifo True x y F"
proof
  fix e
  note d = fifos_distinct [OF f]
  show "remove1 y (((\<lambda>s. remove1 x (F s))(t := as @ y # x # bs)) e) = vr_merged_fifo True x y F e"
  proof (cases "e = t")
    case True
    have dd: "distinct (as @ y # bs)" using m d(1) [of t] by (metis distinct_remove1)
    then have "map (\<lambda>z. if z = y then x else z) as = as" "map (\<lambda>z. if z = y then x else z) bs = bs" by (auto intro!: map_idI)
    then show ?thesis using dd x(2) m True by (simp add: vr_merged_fifo_def remove1_append)
  next
    case False
    then have "e = (\<not> t)" by auto
    then have y: "y \<notin> set (F e)" using d(2) [OF x(3)] by simp
    then have "y \<notin> set (remove1 x (F e))" using set_remove1_subset [of x "F e"] by auto
    moreover from this have "map (\<lambda>z. if z = y then x else z) (remove1 x (F e)) = remove1 x (F e)" by (auto intro!: map_idI)
    ultimately show ?thesis using False by (simp add: vr_merged_fifo_def remove1_idem)
  qed
qed

lemma vr_merged_requests_ok:
  assumes v: "vr q F B A D" and r: "rq \<in> set (B @ A)" "next \<in> set (B @ A)" "next \<noteq> rq"
    and e: "(vr_queued F rq \<and> vr_queued F next \<and> time_before (rq_fifo_time (rqs q next)) (rq_fifo_time (rqs q rq))) = earlier"
  shows "\<exists>q'. vr_merged_requests q rq next = Some q' \<and>
    vr q' (vr_merged_fifo earlier rq next F) (remove1 next B) (remove1 next A) D \<and> vr_kept {rq, next} q q' \<and>
    nr_sorted q' = nr_sorted q \<and>
    rq_fifo_time (rqs q' rq) = (if earlier then rq_fifo_time (rqs q next) else rq_fifo_time (rqs q rq))"
proof -
  note V = vrD [OF v]
  define q1 where "q1 = (if earlier then rq_set_fifo_time rq (rq_fifo_time (rqs q next)) (q\<lparr>links := list_move rq next (links q)\<rparr>) else q)"
  have q1: "vr_merged_requests q rq next = vr_remove_request q1 next"
    using loose_list_empty [OF V(2) r(1)] loose_list_empty [OF V(2) r(2)] e by (auto simp: vr_merged_requests_def q1_def)
  have k1: "vr_kept {rq} q q1" "nr_sorted q1 = nr_sorted q"
    by (simp_all add: q1_def vr_kept_def rq_set_fifo_time_def upd_rq_def blk_rq_pos_def rq_is_sync_def)
  have h1: "vr_head q1 B A"
    using V(1) unfolding vr_head_def vr_keptD(1,2) [OF k1(1)] by (simp add: vr_cursor_def vr_tree_def q1_def rq_set_fifo_time_def)
  have f1: "\<exists>F1. vr_fifos q1 F1 (set (B @ A)) D \<and> (\<lambda>e. remove1 next (F1 e)) = vr_merged_fifo earlier rq next F"
  proof (cases earlier)
    case True
    then obtain s t where st: "rq \<in> set (F s)" "next \<in> set (F t)" using e unfolding vr_queued_in by blast
    have "next \<in> set (remove1 rq (F t))" using st(2) r(3) by simp
    then obtain as bs where m: "remove1 rq (F t) = as @ next # bs" using split_list by metis
    have "vr_fifos q1 ((\<lambda>s. remove1 rq (F s))(t := as @ next # rq # bs)) (set (B @ A)) D"
      using loose_move [OF V(2) st(1) r(3) m] True by (simp add: q1_def rq_set_fifo_time_def)
    then show ?thesis using merged_fifo_move [OF loose_fifosD(1) [OF V(2)] st(1) r(3) st(2) m] True by auto
  next
    case False
    then show ?thesis using V(2) by (intro exI [of _ F]) (simp add: q1_def vr_merged_fifo_def fun_eq_iff)
  qed
  then obtain F1 where F1: "vr_fifos q1 F1 (set (B @ A)) D" "(\<lambda>e. remove1 next (F1 e)) = vr_merged_fifo earlier rq next F" by blast
  have "vr q1 F1 B A D" using h1 F1(1) by (simp add: vr_def)
  from vr_remove_ok [OF this r(2)] obtain q' where q': "vr_remove_request q1 next = Some q'"
    "vr q' (vr_merged_fifo earlier rq next F) (remove1 next B) (remove1 next A) D" "vr_kept {next} q1 q'" "nr_sorted q' = nr_sorted q1"
    unfolding F1(2) by blast
  have "vr_kept {rq, next} q q'" using vr_kept_trans [OF k1(1) q'(3)] by (simp add: insert_commute)
  moreover have "rqs q' rq = rqs q1 rq" using q'(3) r(3) by (auto simp: vr_kept_def)
  then have "rq_fifo_time (rqs q' rq) = (if earlier then rq_fifo_time (rqs q next) else rq_fifo_time (rqs q rq))"
    by (simp add: q1_def rq_set_fifo_time_def)
  ultimately show ?thesis using q1 q' k1(2) by auto
qed


section \<open>Which request a dispatch takes\<close>

definition vr_penalty :: "vr_queue \<Rightarrow> u32" where
  "vr_penalty q = (if rev_penalty (elevator_data q) \<noteq> 0 then rev_penalty (elevator_data q) else of_int INT_MAX)"

text \<open>
  The request at one side of the head, by the distances in sectors; the distance in the direction of the head is taken
  modulo the penalty.
\<close>

definition vr_pick :: "vr_queue \<Rightarrow> ptr list \<Rightarrow> ptr list \<Rightarrow> ptr" where
  "vr_pick q B A =
     (let next = head_or_null A; prev = head_or_null (rev B); last = last_sector (elevator_data q);
          ahead = blk_rq_pos (rqs q next) - last; behind = last - blk_rq_pos (rqs q prev) in
      if B = [] then next
      else if A = [] then prev
      else if head_dir (elevator_data q) = FORWARD
           then if ahead mod vr_penalty q \<le> behind then next else prev
           else if ahead \<le> behind mod vr_penalty q then next else prev)"

lemma vr_penalty_pos: "vr_penalty q \<noteq> 0"
  by (simp add: vr_penalty_def INT_MAX_def)

lemma do_div_small: "d \<noteq> 0 \<Longrightarrow> do_div (ucast (x :: u32)) d = Some (ucast (x div d), x mod d)"
proof -
  have "drop_bit 32 (ucast x :: u64) = 0" by (auto simp: bit_eq_iff bit_simps dest: bit_imp_le_length)
  moreover have "ucast (ucast x :: u64) = x" by (simp add: bit_eq_iff bit_simps)
  ultimately show "d \<noteq> 0 \<Longrightarrow> do_div (ucast x) d = Some (ucast (x div d), x mod d)" by (simp add: do_div_def)
qed

lemma vr_choose_eq:
  assumes v: "vr q F B A D"
  shows "vr_choose_request q = Some (vr_pick q B A)"
proof -
  note V = vrD [OF v]
  let ?vd = "elevator_data q"
  have A0: "head_or_null A = NULL \<longleftrightarrow> A = []" "head_or_null (rev B) = NULL \<longleftrightarrow> B = []"
    using rb_list_ok [OF V(3), of NULL] head_or_null_cases [of A] head_or_null_cases [of "rev B"] by auto
  have ne: "\<not> (B \<noteq> [] \<and> head_or_null (rev B) = head_or_null A)"
    using cursor_checks(1) [OF V(4-6)] V(5,6) A0 by (auto simp: cursor_same_def Let_def)
  have "vr_choose_request q =
     (if B = [] then Some (head_or_null A) else if A = [] then Some (head_or_null (rev B))
      else
        let next_pen = blk_rq_pos (rqs q (head_or_null A)) - last_sector ?vd;
            prev_pen = last_sector ?vd - blk_rq_pos (rqs q (head_or_null (rev B))) in
        map_option (\<lambda>(next_pen, prev_pen). if next_pen \<le> prev_pen then head_or_null A else head_or_null (rev B))
          (if head_dir ?vd = FORWARD
           then map_option (\<lambda>(_, rem). (rem, prev_pen)) (do_div (ucast next_pen) (vr_penalty q))
           else map_option (\<lambda>(_, rem). (next_pen, rem)) (do_div (ucast prev_pen) (vr_penalty q))))"
    unfolding vr_choose_request_def V(5,6) Let_def vr_penalty_def [symmetric] A0 if_not_P [OF ne] by (rule refl)
  then show ?thesis by (simp add: vr_pick_def Let_def do_div_small [OF vr_penalty_pos])
qed

lemma vr_pick_in:
  assumes "B @ A \<noteq> []"
  shows "vr_pick q B A \<in> set (B @ A)"
  using assms head_or_null_cases [of A] head_or_null_cases [of "rev B"] by (auto simp: vr_pick_def Let_def)

text \<open>The head of a FIFO list if it has expired, and the older one of the two.\<close>

definition vr_expired :: "vr_queue \<Rightarrow> (bool \<Rightarrow> ptr list) \<Rightarrow> bool \<Rightarrow> ptr" where
  "vr_expired q F e =
     (case F e of [] \<Rightarrow> NULL | r # _ \<Rightarrow> if time_after (jiffies q) (rq_fifo_time (rqs q r)) then r else NULL)"

definition vr_oldest :: "vr_queue \<Rightarrow> (bool \<Rightarrow> ptr list) \<Rightarrow> ptr" where
  "vr_oldest q F =
     (let s = vr_expired q F SYNC; a = vr_expired q F ASYNC in
      if a = NULL \<or> s \<noteq> NULL \<and> time_after (rq_fifo_time (rqs q a)) (rq_fifo_time (rqs q s)) then s else a)"

lemma vr_check_fifo_eq:
  assumes f: "fifos (links q) (fifo_list (elevator_data q)) (queue_head q) F D"
  shows "vr_check_fifo q = vr_oldest q F"
proof -
  have "vr_expired_request q e = vr_expired q F e" for e
    using fifos_empty [OF f, of e] fifos_first [OF f, of e]
    by (cases "F e") (simp_all add: vr_expired_request_def vr_expired_def Let_def)
  then show ?thesis by (auto simp: vr_check_fifo_def vr_oldest_def Let_def)
qed

definition vr_checks :: "vr_queue \<Rightarrow> bool" where
  "vr_checks q \<longleftrightarrow> nbatched (elevator_data q) > fifo_batch (elevator_data q)"

definition vr_choice :: "vr_queue \<Rightarrow> (bool \<Rightarrow> ptr list) \<Rightarrow> ptr list \<Rightarrow> ptr list \<Rightarrow> ptr" where
  "vr_choice q F B A = (if vr_checks q \<and> vr_oldest q F \<noteq> NULL then vr_oldest q F else vr_pick q B A)"

definition vr_select :: "vr_queue \<Rightarrow> vr_queue" where
  "vr_select q = (if vr_checks q then set_vd (\<lambda>vd. vd\<lparr>nbatched := 0\<rparr>) q else q)"

lemma vr_select_vr: "vr (vr_select q) F B A D = vr q F B A D"
  by (simp add: vr_select_def vr_def vr_head_def vr_cursor_def vr_tree_def)

lemma vr_oldest_in: "vr_oldest q F \<noteq> NULL \<Longrightarrow> \<exists>e. vr_oldest q F \<in> set (F e)"
proof -
  have "vr_expired q F e \<noteq> NULL \<Longrightarrow> vr_expired q F e \<in> set (F e)" for e by (auto simp: vr_expired_def split: list.splits if_splits)
  then show "vr_oldest q F \<noteq> NULL \<Longrightarrow> \<exists>e. vr_oldest q F \<in> set (F e)" unfolding vr_oldest_def Let_def by (metis (full_types))
qed

lemma vr_choice_in:
  assumes "vr q F B A D" and "B @ A \<noteq> []"
  shows "vr_choice q F B A \<in> set (B @ A)"
proof (cases "vr_checks q \<and> vr_oldest q F \<noteq> NULL")
  case True
  then obtain e where "vr_oldest q F \<in> set (F e)" using vr_oldest_in by blast
  then show ?thesis using True loose_fifosD(2) [OF vrD(2) [OF assms(1)], of e] by (auto simp: vr_choice_def)
next
  case False
  then have "vr_choice q F B A = vr_pick q B A" by (simp only: vr_choice_def if_False)
  then show ?thesis using vr_pick_in [OF assms(2)] by simp
qed

lemma vr_dispatch_eq:
  assumes v: "vr q F B A D"
  shows "vr_dispatch_requests q force =
    (if B @ A = [] then Some (0, vr_select q) else map_option (Pair 1) (vr_move_request (vr_select q) (vr_choice q F B A)))"
proof -
  have v1: "vr (vr_select q) F B A D" using v vr_select_vr by simp
  have c: "vr_choose_request (vr_select q) = Some (vr_pick q B A)"
    unfolding vr_choose_eq [OF v1] by (simp add: vr_pick_def vr_penalty_def vr_select_def Let_def)
  have o: "vr_check_fifo (vr_select q) = vr_oldest q F"
    unfolding vr_check_fifo_eq [OF loose_fifosD(1) [OF vrD(2) [OF v1]]]
    by (simp add: vr_oldest_def vr_expired_def vr_select_def cong: list.case_cong)
  have 1: "vr_dispatch_requests q force =
      Option.bind (if vr_checks q \<and> vr_oldest q F \<noteq> NULL then Some (vr_oldest q F) else vr_choose_request (vr_select q)) (\<lambda>rq.
        if rq = NULL then Some (0, vr_select q) else map_option (Pair 1) (vr_move_request (vr_select q) rq))"
  proof (cases "vr_checks q")
    case True
    then have s: "vr_select q = set_vd (\<lambda>vd. vd\<lparr>nbatched := 0\<rparr>) q" by (simp add: vr_select_def)
    show ?thesis using o True unfolding s
      by (cases "vr_oldest q F = NULL") (simp_all add: vr_dispatch_requests_def vr_checks_def)
  next
    case False
    then have s: "vr_select q = q" by (simp add: vr_select_def)
    show ?thesis using False unfolding s by (simp add: vr_dispatch_requests_def vr_checks_def)
  qed
  have 2: "(if vr_checks q \<and> vr_oldest q F \<noteq> NULL then Some (vr_oldest q F) else vr_choose_request (vr_select q)) = Some (vr_choice q F B A)"
    unfolding c vr_choice_def by simp
  have "vr_choice q F B A = NULL" if "B @ A = []"
  proof -
    have "set (F e) = {}" for e using loose_fifosD(2) [OF vrD(2) [OF v], of e] that by auto
    then have "\<not> vr_oldest q F \<noteq> NULL" using vr_oldest_in [of q F] by (metis empty_iff)
    then show ?thesis using that by (simp add: vr_choice_def vr_pick_def)
  qed
  moreover have "vr_choice q F B A \<noteq> NULL" if "B @ A \<noteq> []"
    using rb_list_ok [OF vrD(3) [OF v] vr_choice_in [OF v that]] by auto
  ultimately show ?thesis unfolding 1 2 by auto
qed

lemma vr_dispatch_ok:
  assumes v: "vr q F B A D" and s: "B @ A = ys @ c # zs" and c: "vr_choice q F B A = c"
  shows "\<exists>q'. vr_dispatch_requests q force = Some (1, q') \<and> vr q' (\<lambda>e. remove1 c (F e)) ys zs (D @ [c]) \<and>
    vr_kept {c} q q' \<and> nr_sorted q' = nr_sorted q - 1 \<and>
    nbatched (elevator_data q') = (if vr_checks q then 1 else nbatched (elevator_data q) + 1) \<and>
    last_sector (elevator_data q') = blk_rq_pos (rqs q c) \<and>
    head_dir (elevator_data q') = (if blk_rq_pos (rqs q c) > last_sector (elevator_data q) then FORWARD else BACKWARD)"
proof -
  have v1: "vr (vr_select q) F B A D" using v vr_select_vr by simp
  note V = vrD [OF v1]
  have cL: "c \<in> set (B @ A)" unfolding s by simp
  obtain q' where q': "vr_move_request (vr_select q) c = Some q'" "vr_head q' ys zs"
    "vr_fifos q' (\<lambda>e. remove1 c (F e)) (set (B @ A) - {c}) (D @ [c])" "vr_kept {c} (vr_select q) q'"
    "nr_sorted q' = nr_sorted (vr_select q) - 1" "nbatched (elevator_data q') = nbatched (elevator_data (vr_select q)) + 1"
    "last_sector (elevator_data q') = blk_rq_pos (rqs (vr_select q) c)"
    "head_dir (elevator_data q') =
      (if blk_rq_pos (rqs (vr_select q) c) > last_sector (elevator_data (vr_select q)) then FORWARD else BACKWARD)"
    using vr_move_ok [OF V(1,2) s cL] by blast
  have "distinct (ys @ c # zs)" using rb_list_distinct [OF V(3)] s by simp
  then have "set (B @ A) - {c} = set (ys @ zs)" unfolding s by auto
  then have "vr q' (\<lambda>e. remove1 c (F e)) ys zs (D @ [c])" using q'(2,3) unfolding vr_def by simp
  moreover have "vr_dispatch_requests q force = Some (1, q')" using vr_dispatch_eq [OF v, of force] c s q'(1) by simp
  moreover have "vr_kept {c} q q'" using q'(4) by (simp add: vr_kept_def vr_select_def split: if_splits)
  ultimately show ?thesis using q'(5-8) by (intro exI [of _ q']) (simp add: vr_select_def)
qed

end
