(* ===== verification/Vr_Contract.thy ===== *)
theory Vr_Contract
  imports Vr_Iosched
begin

text \<open>
  What the V(R) scheduler promises: it fulfils \<open>io_scheduler\<close>, none of its assertions fires, a dispatch takes the request
  its policy names, and an expired request is dispatched within a bounded number of dispatches.
\<close>

section \<open>The contract of an I/O scheduler\<close>

definition vr_state :: "vr_queue \<Rightarrow> ptr multiset \<Rightarrow> ptr list \<Rightarrow> bool" where
  "vr_state q P D \<longleftrightarrow> (\<exists>F B A. P = mset (B @ A) \<and> vr q F B A D)"

text \<open>A request that is on none of the queue's lists; its list entry is linked to itself.\<close>

definition vr_fresh :: "vr_queue \<Rightarrow> ptr \<Rightarrow> bool" where
  "vr_fresh q r \<longleftrightarrow> node_ok r \<and> r \<noteq> queue_head q \<and> (\<forall>e. fifo_list (elevator_data q) e \<noteq> r) \<and> dlist (links q) r [] \<and>
     (\<forall>F B A D. vr q F B A D \<longrightarrow> r \<notin> set D \<and> r \<notin> set (B @ A))"

lemma vr_unique:
  assumes "vr q F B A D" "vr q F' B' A' D'"
  shows "B' @ A' = B @ A" "D' = D" "F' = F"
proof -
  note V = vrD [OF assms(1)] and W = vrD [OF assms(2)]
  show "B' @ A' = B @ A" by (rule rb_list_unique [OF V(3) W(3)])
  note f = fifosD [OF loose_fifosD(1) [OF V(2)]] and g = fifosD [OF loose_fifosD(1) [OF W(2)]]
  show "D' = D" using dlist_unique [OF f(2) g(2)] by simp
  show "F' = F" using dlist_unique [OF f(1) g(1)] by (auto simp: fun_eq_iff)
qed

lemma vr_freshI:
  assumes "vr q F B A D" "node_ok r" "r \<notin> set (queue_head q # D)" "\<And>e. fifo_list (elevator_data q) e \<noteq> r" "dlist (links q) r []"
    "r \<notin> set (B @ A)"
  shows "vr_fresh q r"
proof -
  have "r \<notin> set D' \<and> r \<notin> set (B' @ A')" if "vr q F' B' A' D'" for F' B' A' D'
    unfolding vr_unique(1,2) [OF assms(1) that] using assms(3,6) by simp
  then show ?thesis unfolding vr_fresh_def using assms(2-5) by simp
qed

lemma vr_freshD:
  assumes "vr_fresh q r" "vr q F B A D"
  shows "node_ok r" "r \<notin> set (B @ A)" "r \<notin> set (queue_head q # D)" "fifo_list (elevator_data q) e \<noteq> r" "dlist (links q) r []"
  using assms unfolding vr_fresh_def by auto

lemma vr_state_add:
  assumes s: "vr_state q P D" and r: "vr_fresh q r"
  shows "\<exists>q' P' D'. vr_add_request q r = Some q' \<and> vr_state q' P' D' \<and> r \<in># P' \<and>
    P' + mset D' = add_mset r (P + mset D) \<and> nr_sorted q' + of_nat (size P) + 1 = nr_sorted q + of_nat (size P')"
proof -
  obtain F B A where P: "P = mset (B @ A)" and v: "vr q F B A D" using s unfolding vr_state_def by blast
  note fr = vr_freshD [OF r v]
  obtain X q' F' B' A' where q': "vr_add_request q r = Some q'" "vr q' F' B' A' (D @ X)"
    "set (B' @ A') = insert r (set (B @ A) - set X)"
    "X = [] \<or> (\<exists>a. X = [a] \<and> a \<in> set (B @ A) \<and> blk_rq_pos (rqs q a) = blk_rq_pos (rqs q r))"
    "nr_sorted q' = nr_sorted q - of_nat (length X)"
    using vr_add_ok [OF v fr] by blast
  have d: "distinct (B @ A)" "distinct (B' @ A')"
    using rb_list_distinct [OF vrD(3) [OF v]] rb_list_distinct [OF vrD(3) [OF q'(2)]] by simp_all
  have X: "set X \<subseteq> set (B @ A)" "distinct X" "r \<notin> set X" using q'(4) fr(2) by auto
  have eq: "mset (B' @ A') + mset X = add_mset r (mset (B @ A))"
  proof -
    have "mset (B' @ A') = mset_set (insert r (set (B @ A) - set X))" using mset_set_set [OF d(2)] q'(3) by simp
    moreover have "mset_set (insert r (set (B @ A) - set X)) = add_mset r (mset_set (set (B @ A) - set X))" using fr(2) by simp
    moreover have "mset_set (set (B @ A) - set X) + mset_set (set X) = mset_set (set (B @ A))"
      using X(1) by (subst mset_set_Union [symmetric]) (auto simp: Un_absorb2)
    ultimately show ?thesis using mset_set_set [OF d(1)] mset_set_set [OF X(2)] by simp
  qed
  have "size (mset (B' @ A') + mset X) = size P + 1" unfolding eq P by simp
  then have sz: "size (mset (B' @ A')) + length X = size P + 1" by simp
  have "nr_sorted q' + of_nat (size P) + 1 = nr_sorted q + of_nat (size (mset (B' @ A')))"
    unfolding q'(5) using arg_cong [OF sz, of "of_nat :: nat \<Rightarrow> u32"] by (simp add: algebra_simps)
  moreover have "mset (B' @ A') + mset (D @ X) = add_mset r (P + mset D)" using eq P by (simp add: ac_simps)
  moreover have "vr_state q' (mset (B' @ A')) (D @ X)" unfolding vr_state_def using q'(2) by blast
  moreover have "r \<in># mset (B' @ A')" unfolding set_mset_mset q'(3) by simp
  ultimately show ?thesis using q'(1) by blast
qed


lemma vr_state_dispatch:
  assumes s: "vr_state q P D" and P: "P \<noteq> {#}"
  shows "\<exists>r q' D'. vr_dispatch_requests q force = Some (1, q') \<and> r \<in># P \<and> vr_state q' (P - {#r#}) D' \<and>
    mset D' = add_mset r (mset D) \<and> nr_sorted q' = nr_sorted q - 1"
proof -
  obtain F B A where F: "P = mset (B @ A)" and v: "vr q F B A D" using s unfolding vr_state_def by blast
  have ne: "B @ A \<noteq> []" using P F by auto
  let ?c = "vr_choice q F B A"
  have c: "?c \<in> set (B @ A)" by (rule vr_choice_in [OF v ne])
  then obtain ys zs where s: "B @ A = ys @ ?c # zs" using split_list by metis
  obtain q' where q': "vr_dispatch_requests q force = Some (1, q')" "vr q' (\<lambda>e. remove1 ?c (F e)) ys zs (D @ [?c])"
    "nr_sorted q' = nr_sorted q - 1"
    using vr_dispatch_ok [OF v s refl] by blast
  have "P - {#?c#} = mset (ys @ zs)" unfolding F by (subst s) simp
  then have "vr_state q' (P - {#?c#}) (D @ [?c])" unfolding vr_state_def using q'(2) by blast
  moreover have "?c \<in># P" using c F by simp
  ultimately show ?thesis using q'(1,3) by (intro exI [of _ ?c] exI [of _ q'] exI [of _ "D @ [?c]"]) simp
qed

interpretation vri: io_scheduler iosched_vr vr_state vr_fresh
proof unfold_locales
  fix q D force
  assume s: "vr_state q {#} D"
  then obtain F B A where l: "B @ A = []" "vr q F B A D" unfolding vr_state_def by auto
  have "vr_state (vr_select q) {#} D" unfolding vr_state_def vr_select_vr using l by fastforce
  moreover have "nr_sorted (vr_select q) = nr_sorted q" by (simp add: vr_select_def)
  ultimately show "\<exists>q'. elevator_dispatch_fn iosched_vr q force = Some (0, q') \<and> vr_state q' {#} D \<and> nr_sorted q' = nr_sorted q"
    using vr_dispatch_eq [OF l(2), of force] l(1) by (simp add: iosched_vr_def vr_ops_def)
next
  fix q P D force
  assume "vr_state q P D" and "P \<noteq> {#}"
  then show "\<exists>r q' D'. elevator_dispatch_fn iosched_vr q force = Some (1, q') \<and> r \<in># P \<and> vr_state q' (P - {#r#}) D' \<and>
      mset D' = add_mset r (mset D) \<and> nr_sorted q' = nr_sorted q - 1"
    using vr_state_dispatch [of q P D force] by (simp add: iosched_vr_def vr_ops_def)
next
  fix q P D r
  assume "vr_state q P D" and "vr_fresh q r"
  then show "\<exists>q' P' D'. elevator_add_req_fn iosched_vr q r = Some q' \<and> vr_state q' P' D' \<and> r \<in># P' \<and>
      P' + mset D' = add_mset r (P + mset D) \<and> nr_sorted q' + of_nat (size P) + 1 = nr_sorted q + of_nat (size P')"
    using vr_state_add [of q P D r] by (simp add: iosched_vr_def vr_ops_def)
next
  fix q P D
  assume "vr_state q P D"
  then obtain F B A where l: "P = mset (B @ A)" "vr q F B A D" unfolding vr_state_def by blast
  have "vr_queue_empty q \<longleftrightarrow> B @ A = []" unfolding vr_queue_empty_def by (rule rb_list_empty [OF vrD(3) [OF l(2)]])
  then show "\<exists>f. elevator_queue_empty_fn iosched_vr = Some f \<and> (f q \<longleftrightarrow> P = {#})"
    using l(1) by (auto simp: iosched_vr_def vr_ops_def)
next
  fix q P D
  assume "vr_state q P D"
  then show "dlist (links q) (queue_head q) D"
    unfolding vr_state_def using fifosD(2) [OF loose_fifosD(1) [OF vrD(2)]] by blast
next
  fix q P D r
  assume "vr_state q P D" and r: "r \<in># P"
  then obtain F B A where l: "P = mset (B @ A)" "vr q F B A D" unfolding vr_state_def by blast
  have "distinct (B @ A)" by (rule rb_list_distinct [OF vrD(3) [OF l(2)]])
  moreover have rs: "r \<in> set (B @ A)" using r l(1) by simp
  ultimately have "count P r = 1" unfolding l(1) by (rule count_mset_distinct)
  then show "count P r = 1 \<and> r \<notin> set D" using loose_fifosD(4) [OF vrD(2) [OF l(2)] rs] by simp
qed

section \<open>A new queue\<close>

lemma vr_init_vr:
  assumes i: "vr_init_queue (Some f) h = Some (vd, h')" and l: "dlist h p D"
    and f: "f ASYNC \<noteq> f SYNC" "\<And>e. f e \<notin> set (p # D)"
    and q: "elevator_data q = vd" "links q = h'" "queue_head q = p"
  shows "vr q (\<lambda>_. []) [] [] D"
proof -
  have h': "h' = INIT_LIST_HEAD (f ASYNC) (INIT_LIST_HEAD (f SYNC) h)" and vd: "fifo_list vd = f" "sort_list vd = NULL"
    "next_rq vd = NULL" "prev_rq vd = NULL"
    using i by (auto simp: vr_init_queue_def)
  have "dlist h' p D"
    by (rule dlist_cong [OF l]) (use f(2) [of ASYNC] f(2) [of SYNC] in \<open>auto simp: h' INIT_LIST_HEAD_def set_next_def set_prev_def\<close>)
  moreover have "dlist h' (f e) []" for e using f(1) by (cases e) (auto simp: h' INIT_LIST_HEAD_def set_next_def set_prev_def)
  ultimately have "fifos h' f p (\<lambda>_. []) D" unfolding fifos_def using f by auto
  then have "vr_fifos q (\<lambda>_. []) (set ([] @ [])) D" by (simp add: loose_fifos_def q vd)
  moreover have "rb_list (vr_tree q) []" by (rule rb_list_Nil) (simp add: vr_tree_def q vd)
  ultimately show ?thesis by (simp add: vr_def vr_head_def vr_cursor_def by_pos_def q vd)
qed

text \<open>A queue with list head 4 and FIFO heads 8 and 12; request 24 is at sector 64, every other one at sector 0.\<close>

definition vr_queue0 :: vr_queue where
  "vr_queue0 =
     (case vr_init_queue (Some (\<lambda>e. if e then 12 else 8)) \<lparr>nxt = (\<lambda>x. x), prv = (\<lambda>x. x)\<rparr> of
        Some (vd, h) \<Rightarrow> (blank_queue 4 vd h)\<lparr>links := h, rqs := (\<lambda>_. blank_request)(24 := blank_request\<lparr>rq_sector := 64\<rparr>)\<rparr>)"

lemma vr_queue0_fields:
  "queue_head vr_queue0 = 4" "fifo_list (elevator_data vr_queue0) e = (if e then 12 else 8)" "nr_sorted vr_queue0 = 0"
  "links vr_queue0 = \<lparr>nxt = (\<lambda>x. x), prv = (\<lambda>x. x)\<rparr>" "fifo_expire (elevator_data vr_queue0) e = (if e then vr_sync_expire else vr_async_expire)"
  "jiffies vr_queue0 = 0" "fifo_batch (elevator_data vr_queue0) = 1" "nbatched (elevator_data vr_queue0) = 0"
  "blk_rq_pos (rqs vr_queue0 16) = 0" "blk_rq_pos (rqs vr_queue0 24) = 64"
  by (auto simp: vr_queue0_def vr_init_queue_def blank_queue_def INIT_LIST_HEAD_def set_next_def set_prev_def fun_eq_iff
      vr_fifo_batch_def blk_rq_pos_def blank_request_def)

lemma vr_queue0_vr: "vr vr_queue0 (\<lambda>_. []) [] [] []"
proof (rule vr_init_vr)
  show "vr_init_queue (Some (\<lambda>e. if e then 12 else 8)) \<lparr>nxt = (\<lambda>x. x), prv = (\<lambda>x. x)\<rparr> = Some (elevator_data vr_queue0, links vr_queue0)"
    by (simp add: vr_queue0_def vr_init_queue_def blank_queue_def)
qed (simp_all add: vr_queue0_fields)

lemma vr_queue0_fresh: "vr_fresh vr_queue0 16" "vr_fresh vr_queue0 24"
  by (rule vr_freshI [OF vr_queue0_vr]; simp add: vr_queue0_fields node_ok_def ptr_al_def)+


lemma vr_queue0_one:
  "\<exists>q F B A. vr_add_request vr_queue0 16 = Some q \<and> vr q F B A [] \<and> set (B @ A) = {16} \<and> F = (\<lambda>e. if e then [16] else []) \<and>
    vr_kept {16} vr_queue0 q"
proof -
  obtain X q F B A where q: "vr_add_request vr_queue0 16 = Some q" "vr q F B A ([] @ X)" "set (B @ A) = insert 16 (set ([] @ []) - set X)"
    "F = (\<lambda>e. foldr remove1 X [] @ (if e = rq_is_sync (rqs vr_queue0 16) \<and> fifo_expire (elevator_data vr_queue0) e \<noteq> 0 then [16] else []))"
    "X = [] \<or> (\<exists>a. X = [a] \<and> a \<in> set ([] @ []) \<and> blk_rq_pos (rqs vr_queue0 a) = blk_rq_pos (rqs vr_queue0 16))"
    "vr_kept (insert 16 (set X)) vr_queue0 q"
    using vr_add_ok [OF vr_queue0_vr vr_freshD [OF vr_queue0_fresh(1) vr_queue0_vr]] by blast
  have X: "X = []" using q(5) by simp
  have "rq_is_sync (rqs vr_queue0 16)"
    by (simp add: vr_queue0_def vr_init_queue_def blank_queue_def blank_request_def rq_is_sync_def rw_is_sync_def)
  moreover have "fifo_expire (elevator_data vr_queue0) True \<noteq> 0" by (simp add: vr_queue0_fields vr_sync_expire_def HZ_def)
  ultimately have "F = (\<lambda>e. if e then [16] else [])" using q(4) X by (auto simp: fun_eq_iff)
  then show ?thesis using q(1,2,3,6) X by auto
qed

section \<open>Properties of the scheduler\<close>

text \<open>
  Draining a queue under the V(R) scheduler ends, hands every queued request to the dispatch list exactly once,
  leaves the tree and the FIFO lists empty, brings \<open>nr_sorted\<close> to zero and prints no complaint.
\<close>

theorem vr_drain:
  assumes "vr_state q P D" and "nr_sorted q = of_nat (size P)"
  shows "\<exists>q' D'. elv_drain_elevator iosched_vr n q = Some (n, q') \<and> vr_state q' {#} D' \<and>
    mset D' = mset D + P \<and> nr_sorted q' = 0"
  using assms by (rule vri.drain)

theorem vr_drain_witness:
  "\<exists>q q' D'. vr_add_request vr_queue0 16 = Some q \<and>
    elv_drain_elevator iosched_vr 0 (q\<lparr>nr_sorted := 1\<rparr>) = Some (0, q') \<and> vr_state q' {#} D' \<and> mset D' = {#16#}"
proof -
  obtain q F B A where q: "vr_add_request vr_queue0 16 = Some q" "vr q F B A []" "set (B @ A) = {16}"
    using vr_queue0_one by blast
  have "mset (B @ A) = {#16#}" using mset_set_set [OF rb_list_distinct [OF vrD(3) [OF q(2)]]] q(3) by simp
  moreover have "vr (q\<lparr>nr_sorted := 1\<rparr>) F B A []" using q(2) by (simp add: vr_def vr_head_def vr_cursor_def vr_tree_def)
  ultimately have "vr_state (q\<lparr>nr_sorted := 1\<rparr>) {#16#} []" unfolding vr_state_def by metis
  from vr_drain [OF this, of 0] q(1) show ?thesis by auto
qed



text \<open>With a penalty of one the moving head never turns, however near the request behind it is.\<close>

lemma vr_penalty_one_scans:
  assumes "vr q F B A D" and "rev_penalty (elevator_data q) = 1" and "head_dir (elevator_data q) = FORWARD" and "A \<noteq> []"
  shows "vr_choose_request q = Some (head_or_null A)"
proof -
  have "x mod vr_penalty q = 0" for x using assms(2) by (simp add: vr_penalty_def)
  then show ?thesis using assms(3,4) unfolding vr_choose_eq [OF assms(1)] by (simp add: vr_pick_def Let_def)
qed

definition vr_wf :: "vr_queue \<Rightarrow> bool" where
  "vr_wf q \<longleftrightarrow> (\<exists>F B A D. vr q F B A D)"



text \<open>Three fresh requests, two of which are queued.\<close>

lemma vr_queue0_two:
  "\<exists>q1 q2 F B A. vr_add_request vr_queue0 16 = Some q1 \<and> vr_add_request q1 24 = Some q2 \<and> vr q2 F B A [] \<and>
    set (B @ A) = {16, 24} \<and> vr_fresh q2 20"
proof -
  have ok: "node_ok 16" "node_ok 20" "node_ok 24" by (simp_all add: node_ok_def ptr_al_def)
  note V = vrD [OF vr_queue0_vr]
  have f: "vr_fifos vr_queue0 (\<lambda>_. []) (set ([] @ []) \<union> {16, 20, 24}) []"
    using loose_queue_not [OF loose_queue_not [OF loose_queue_not [OF V(2), of 24], of 20], of 16]
    by (simp add: vr_queue0_fields)
  obtain X q1 F B A where 1: "vr_add_request vr_queue0 16 = Some q1" "vr_head q1 B A"
    "vr_fifos q1 F (set (B @ A) \<union> ({16, 20, 24} - {16})) ([] @ X)" "set (B @ A) = insert 16 (set ([] @ []) - set X)"
    "F = (\<lambda>e. foldr remove1 X [] @ (if e = rq_is_sync (rqs vr_queue0 16) \<and> fifo_expire (elevator_data vr_queue0) e \<noteq> 0 then [16] else []))"
    "X = [] \<or> (\<exists>a. X = [a] \<and> a \<in> set ([] @ []) \<and> blk_rq_pos (rqs vr_queue0 a) = blk_rq_pos (rqs vr_queue0 16))"
    "vr_kept (insert 16 (set X)) vr_queue0 q1"
    using vr_add_one [OF V(1) f _ _ ok(1)] by fastforce
  have X: "X = []" using 1(6) by simp
  have S: "set (B @ A) = {16}" using 1(4) X by simp
  have f1: "vr_fifos q1 F (set (B @ A) \<union> {20, 24}) []" using 1(3) X by simp
  have n: "{20, 24} \<inter> set (B @ A) = {}" unfolding S by simp
  have u: "24 \<notin> set (F e)" for e using 1(5) X by simp
  have p: "blk_rq_pos (rqs q1 x) = blk_rq_pos (rqs vr_queue0 x)" for x by (rule vr_keptD(2) [OF 1(7)])
  obtain Y q2 F' B' A' where 2: "vr_add_request q1 24 = Some q2" "vr_head q2 B' A'"
    "vr_fifos q2 F' (set (B' @ A') \<union> ({20, 24} - {24})) ([] @ Y)" "set (B' @ A') = insert 24 (set (B @ A) - set Y)"
    "F' = (\<lambda>e. foldr remove1 Y (F e) @ (if e = rq_is_sync (rqs q1 24) \<and> fifo_expire (elevator_data q1) e \<noteq> 0 then [24] else []))"
    "Y = [] \<or> (\<exists>a. Y = [a] \<and> a \<in> set (B @ A) \<and> blk_rq_pos (rqs q1 a) = blk_rq_pos (rqs q1 24))"
    using vr_add_one [OF 1(2) f1 n _ ok(3) u] by fastforce
  have Y: "Y = []" using 2(6) unfolding S p by (auto simp: vr_queue0_fields)
  have S': "set (B' @ A') = {16, 24}" using 2(4) S Y by auto
  have "{20, 24} - {24} = {20 :: ptr}" by auto
  then have f2: "vr_fifos q2 F' (set (B' @ A') \<union> {20}) []" using 2(3) Y by simp
  have F20: "20 \<notin> set (F' e)" for e using 2(5) 1(5) X Y by simp
  have "vr_fifos q2 F' (set (B' @ A')) []"
  proof (rule loose_subset [OF f2 Un_upper1])
    show "set (F' e) \<subseteq> set (B' @ A')" for e using loose_fifosD(2) [OF f2, of e] F20 [of e] by blast
  qed
  then have v: "vr q2 F' B' A' []" unfolding vr_def using 2(2) by blast
  have "vr_fresh q2 20"
  proof (rule vr_freshI [OF v ok(2)])
    show "fifo_list (elevator_data q2) e \<noteq> 20" for e using loose_fifosD(5) [OF f2, of e] by auto
    show "dlist (links q2) 20 []" by (rule loose_fifosD(3) [OF f2]) (use F20 in auto)
    show "20 \<notin> set (queue_head q2 # [])" using loose_fifosD(4) [OF f2, of 20] by simp
    show "20 \<notin> set (B' @ A')" unfolding S' by simp
  qed
  then show ?thesis using 1(1) 2(1) v S' by blast
qed


section \<open>Expired requests are served\<close>

fun vr_dispatches :: "nat \<Rightarrow> vr_queue \<Rightarrow> vr_queue option" where
  "vr_dispatches 0 q = Some q"
| "vr_dispatches (Suc n) q = Option.bind (vr_dispatch_requests q False) (\<lambda>(_, q). vr_dispatches n q)"

text \<open>A queued request with the requests before it in its list, all of them expired.\<close>

definition vr_overdue :: "vr_queue \<Rightarrow> (bool \<Rightarrow> ptr list) \<Rightarrow> bool \<Rightarrow> ptr list \<Rightarrow> ptr \<Rightarrow> bool" where
  "vr_overdue q F e pre r \<longleftrightarrow> (\<exists>post. F e = pre @ r # post) \<and> (\<forall>x\<in>set (pre @ [r]). time_after (jiffies q) (rq_fifo_time (rqs q x)))"

definition vr_wait :: "vr_queue \<Rightarrow> (bool \<Rightarrow> ptr list) \<Rightarrow> bool \<Rightarrow> ptr list \<Rightarrow> nat" where
  "vr_wait q F e pre =
     (let b = unat (fifo_batch (elevator_data q))
      in (length pre + length (F (\<not> e))) * (b + 2) + (b + 1 - unat (nbatched (elevator_data q))))"

lemma vr_overdue_step:
  assumes v: "vr q F B A D" and o: "vr_overdue q F e pre r" and k: "vr_kept {c} q q'" and c: "c \<noteq> r"
  shows "vr_overdue q' (\<lambda>e. remove1 c (F e)) e (remove1 c pre) r"
proof -
  obtain post where F: "F e = pre @ r # post" and x: "\<forall>x\<in>set (pre @ [r]). time_after (jiffies q) (rq_fifo_time (rqs q x))"
    using o unfolding vr_overdue_def by blast
  have dist: "distinct (pre @ r # post)" using fifos_distinct(1) [OF loose_fifosD(1) [OF vrD(2) [OF v]], of e] F by simp
  have "\<exists>p. remove1 c (F e) = remove1 c pre @ r # p"
    unfolding F using c by (cases "c \<in> set pre") (auto simp: remove1_append remove1_idem)
  moreover have "time_after (jiffies q') (rq_fifo_time (rqs q' y))" if "y \<in> set (remove1 c pre @ [r])" for y
  proof -
    have "y \<noteq> c" using that dist c by auto
    then have "rqs q' y = rqs q y" using k by (simp add: vr_kept_def)
    moreover have "y \<in> set (pre @ [r])" using that set_remove1_subset [of c pre] by auto
    ultimately show ?thesis using bspec [OF x, of y] vr_keptD(5) [OF k] by simp
  qed
  ultimately show ?thesis unfolding vr_overdue_def by blast
qed

text \<open>At a look at the FIFO lists, an overdue request is either taken or one request before it or of the other list is.\<close>

lemma vr_check_serves:
  assumes v: "vr q F B A D" and o: "vr_overdue q F e pre r" and k: "vr_checks q" and c: "vr_choice q F B A = c" "c \<noteq> r"
  shows "c \<in> set pre \<or> c \<in> set (F (\<not> e))"
proof -
  obtain post where F: "F e = pre @ r # post" and x: "\<forall>x\<in>set (pre @ [r]). time_after (jiffies q) (rq_fifo_time (rqs q x))"
    using o unfolding vr_overdue_def by blast
  obtain a xs where a: "F e = a # xs" "a \<in> set (pre @ [r])" using F by (cases pre) auto
  have "a \<in> set (B @ A)" using loose_fifosD(2) [OF vrD(2) [OF v], of e] a(1) by auto
  then have a0: "a \<noteq> NULL" using rb_list_ok [OF vrD(3) [OF v]] by auto
  have ex: "vr_expired q F e = a" using a(1) bspec [OF x a(2)] by (simp add: vr_expired_def)
  have "vr_oldest q F \<noteq> NULL \<and> (vr_oldest q F = a \<or> vr_oldest q F = vr_expired q F (\<not> e))"
    using ex a0 by (cases e) (auto simp: vr_oldest_def Let_def)
  then have "c = a \<or> c \<noteq> NULL \<and> c = vr_expired q F (\<not> e)" using k c(1) by (auto simp: vr_choice_def)
  then show ?thesis
  proof
    assume "c = a"
    then show ?thesis using a(2) c(2) by simp
  next
    assume "c \<noteq> NULL \<and> c = vr_expired q F (\<not> e)"
    then show ?thesis by (auto simp: vr_expired_def split: list.splits if_splits)
  qed
qed

lemma vr_wait_step:
  assumes v: "vr q F B A D" and o: "vr_overdue q F e pre r" and k: "vr_kept {c} q q'"
      "nbatched (elevator_data q') = (if vr_checks q then 1 else nbatched (elevator_data q) + 1)"
    and c: "vr_choice q F B A = c" "c \<noteq> r" and b: "unat (fifo_batch (elevator_data q)) < 2 ^ 31"
  shows "vr_wait q' (\<lambda>e. remove1 c (F e)) e (remove1 c pre) < vr_wait q F e pre"
proof -
  let ?b = "unat (fifo_batch (elevator_data q))" and ?n = "unat (nbatched (elevator_data q))"
  have b': "fifo_batch (elevator_data q') = fifo_batch (elevator_data q)" using k(1) by (simp add: vr_kept_def)
  let ?m = "length pre + length (F (\<not> e))" and ?m' = "length (remove1 c pre) + length (remove1 c (F (\<not> e)))"
  have le: "?m' \<le> ?m" by (simp add: length_remove1 add_mono)
  show ?thesis
  proof (cases "vr_checks q")
    case False
    then have n: "?n \<le> ?b" by (simp add: vr_checks_def not_less word_le_nat_alt)
    have "nbatched (elevator_data q) < 2 ^ 31" using n b by (simp add: word_less_nat_alt)
    from unat_plus1 [OF this] have "unat (nbatched (elevator_data q')) = ?n + 1" using k(2) False by simp
    then have "vr_wait q' (\<lambda>e. remove1 c (F e)) e (remove1 c pre) = ?m' * (?b + 2) + (?b + 1 - (?n + 1))"
      by (simp add: vr_wait_def b' Let_def)
    also have "\<dots> < ?m * (?b + 2) + (?b + 1 - ?n)" using n mult_le_mono1 [OF le, of "?b + 2"] by linarith
    finally show ?thesis by (simp add: vr_wait_def Let_def)
  next
    case True
    have lt: "?m' < ?m"
      using vr_check_serves [OF v o True c] le length_remove1 [of c pre] length_remove1 [of c "F (\<not> e)"]
      by (metis add_less_mono1 add_less_le_mono add_le_less_mono diff_le_self diff_less length_pos_if_in_set zero_less_one order_refl)
    have "vr_wait q' (\<lambda>e. remove1 c (F e)) e (remove1 c pre) = ?m' * (?b + 2) + ?b"
      using k(2) True by (simp add: vr_wait_def b' Let_def)
    also have "\<dots> < Suc ?m' * (?b + 2)" by simp
    also have "\<dots> \<le> ?m * (?b + 2)" using lt by (intro mult_le_mono1) simp
    also have "\<dots> \<le> vr_wait q F e pre" by (simp add: vr_wait_def Let_def)
    finally show ?thesis .
  qed
qed

lemma vr_overdue_served:
  assumes "vr q F B A D" and "vr_overdue q F e pre r" and "unat (fifo_batch (elevator_data q)) < 2 ^ 31" and "vr_wait q F e pre \<le> n"
  shows "\<exists>k q' F' B' A' X. k \<le> Suc n \<and> vr_dispatches k q = Some q' \<and> vr q' F' B' A' (D @ X) \<and> r \<in> set X"
  using assms
proof (induction n arbitrary: q F B A D pre rule: less_induct)
  case (less n)
  note v = less.prems(1) and o = less.prems(2)
  obtain post where "F e = pre @ r # post" using o unfolding vr_overdue_def by blast
  then have "r \<in> set (B @ A)" using loose_fifosD(2) [OF vrD(2) [OF v], of e] by auto
  then have ne: "B @ A \<noteq> []" by auto
  let ?c = "vr_choice q F B A"
  obtain ys zs where s: "B @ A = ys @ ?c # zs" using split_list [OF vr_choice_in [OF v ne]] by metis
  obtain q1 where q1: "vr_dispatch_requests q False = Some (1, q1)" "vr q1 (\<lambda>e. remove1 ?c (F e)) ys zs (D @ [?c])" "vr_kept {?c} q q1"
    "nbatched (elevator_data q1) = (if vr_checks q then 1 else nbatched (elevator_data q) + 1)"
    using vr_dispatch_ok [OF v s refl] by blast
  show ?case
  proof (cases "?c = r")
    case True
    have "vr_dispatches (Suc 0) q = Some q1" using q1(1) by simp
    moreover have "r \<in> set [?c]" using True by simp
    ultimately show ?thesis using q1(2) by (meson Suc_le_mono le0)
  next
    case False
    have w: "vr_wait q1 (\<lambda>e. remove1 ?c (F e)) e (remove1 ?c pre) < vr_wait q F e pre"
      by (rule vr_wait_step [OF v o q1(3,4) refl False less.prems(3)])
    have o1: "vr_overdue q1 (\<lambda>e. remove1 ?c (F e)) e (remove1 ?c pre) r" by (rule vr_overdue_step [OF v o q1(3) False])
    have b1: "unat (fifo_batch (elevator_data q1)) < 2 ^ 31" using q1(3) less.prems(3) by (simp add: vr_kept_def)
    have lt: "vr_wait q1 (\<lambda>e. remove1 ?c (F e)) e (remove1 ?c pre) < n" using w less.prems(4) by simp
    obtain k q' F' B' A' X where k: "k \<le> Suc (vr_wait q1 (\<lambda>e. remove1 ?c (F e)) e (remove1 ?c pre))" "vr_dispatches k q1 = Some q'"
      "vr q' F' B' A' ((D @ [?c]) @ X)" "r \<in> set X"
      using less.IH [OF lt q1(2) o1 b1 order_refl] by blast
    have "vr_dispatches (Suc k) q = Some q'" using q1(1) k(2) by simp
    moreover have "Suc k \<le> Suc n" using k(1) lt by simp
    moreover have "vr q' F' B' A' (D @ (?c # X))" using k(3) by simp
    ultimately show ?thesis using k(4) by (meson list.set_intros(2))
  qed
qed

text \<open>
  (C8) Deadlines bound the waiting time although V(R) follows the head: let a queued request and all requests before it
  in its FIFO list have expired, and let \<open>fifo_batch\<close> be below the largest \<open>int\<close>, as its attribute guarantees.  Then, if
  no request arrives meanwhile, the request is dispatched within \<open>fifo_batch + 2\<close> dispatches for itself, for each request
  before it and for each request of the other list.
\<close>

theorem vr_expired_dispatched:
  assumes "vr q F B A D" and "vr_overdue q F e pre r" and "unat (fifo_batch (elevator_data q)) < 2 ^ 31"
  shows "\<exists>k q' F' B' A' X. k \<le> (length pre + length (F (\<not> e)) + 1) * (unat (fifo_batch (elevator_data q)) + 2) \<and>
    vr_dispatches k q = Some q' \<and> vr q' F' B' A' (D @ X) \<and> r \<in> set X"
proof -
  have "Suc (vr_wait q F e pre) \<le> (length pre + length (F (\<not> e)) + 1) * (unat (fifo_batch (elevator_data q)) + 2)"
    by (simp add: vr_wait_def Let_def)
  then show ?thesis using vr_overdue_served [OF assms order_refl] by (meson le_trans)
qed

theorem vr_expired_dispatched_witness:
  "\<exists>q k q' F' B' A' X. vr_add_request vr_queue0 16 = Some q \<and> k \<le> 3 \<and>
    vr_dispatches k (q\<lparr>jiffies := rq_fifo_time (rqs q 16) + 1\<rparr>) = Some q' \<and> vr q' F' B' A' X \<and> 16 \<in> set X"
proof -
  obtain q F B A where q: "vr_add_request vr_queue0 16 = Some q" "vr q F B A []" "F = (\<lambda>e. if e then [16] else [])"
    "vr_kept {16} vr_queue0 q"
    using vr_queue0_one by blast
  let ?q = "q\<lparr>jiffies := rq_fifo_time (rqs q 16) + 1\<rparr>"
  have v: "vr ?q F B A []" using q(2) by (simp add: vr_def vr_head_def vr_cursor_def vr_tree_def)
  have o: "vr_overdue ?q F SYNC [] 16" by (simp add: vr_overdue_def q(3) time_after_def)
  have b: "fifo_batch (elevator_data ?q) = 1" using q(4) by (simp add: vr_kept_def vr_queue0_fields)
  from vr_expired_dispatched [OF v o] q(1) show ?thesis unfolding b by (simp add: q(3) numeral_3_eq_3)
qed

end
