(* ===== verification/Logger.thy ===== *)
theory Logger
  imports Kernel_Prelude
begin

text \<open>
  The Android log driver, \<open>drivers/staging/android/logger.c\<close>: a ring buffer of entries, one write
  offset, and an offset for each reader and for readers to come.

  Offsets are natural numbers below the size of the log, which is a power of two far below the
  width of \<open>size_t\<close>.  \<open>buffer\<close> gives the memory from the start of the ring; the bytes at and
  above \<open>log_size\<close> are whatever the linker placed behind it.  The readers' list is the sequence of
  reader addresses.  A copy from or to user space either succeeds or faults, as an argument says;
  each operation runs with the log's mutex held and is one step.  A read that finds nothing and may
  block returns \<open>None\<close>: the caller sleeps and the code runs the same test again.

  \<open>chain log p es\<close> says that the bytes from offset \<open>p\<close> to the write offset are exactly the entries
  \<open>es\<close>.  The lemmas show that every operation keeps such a chain for every reader, which entries a
  reader that is overtaken loses, and that a read returns the first entry of its reader's chain.
\<close>

section \<open>State\<close>

definition LOGGER_ENTRY_SIZE :: nat where "LOGGER_ENTRY_SIZE = 20"
definition LOGGER_ENTRY_MAX_LEN :: nat where "LOGGER_ENTRY_MAX_LEN = 4 * 1024"
definition LOGGER_ENTRY_MAX_PAYLOAD :: nat where
  "LOGGER_ENTRY_MAX_PAYLOAD = LOGGER_ENTRY_MAX_LEN - LOGGER_ENTRY_SIZE"

lemmas logger_consts = LOGGER_ENTRY_SIZE_def LOGGER_ENTRY_MAX_LEN_def LOGGER_ENTRY_MAX_PAYLOAD_def

record logger_entry =
  e_len :: u16
  e_pad :: u16
  e_pid :: u32
  e_tid :: u32
  e_sec :: u32
  e_nsec :: u32

record logger_log =
  buffer :: "nat \<Rightarrow> u8"
  w_off :: nat
  head :: nat
  log_size :: nat
  readers :: "ptr list"
  r_off :: "ptr \<Rightarrow> nat"
  klog_buf :: "u8 list"
  printed_log :: "u8 list list"

record logger_file =
  f_read :: bool
  f_write :: bool
  f_nonblock :: bool
  f_reader :: ptr

definition logger_offset :: "logger_log \<Rightarrow> nat \<Rightarrow> nat" where
  "logger_offset log n = n AND (log_size log - 1)"

text \<open>\<open>memcpy\<close> to and from the memory at the ring.\<close>

definition mem_put :: "nat \<Rightarrow> u8 list \<Rightarrow> (nat \<Rightarrow> u8) \<Rightarrow> nat \<Rightarrow> u8" where
  "mem_put off bs m = (\<lambda>i. if off \<le> i \<and> i < off + length bs then bs ! (i - off) else m i)"

definition mem_get :: "nat \<Rightarrow> nat \<Rightarrow> (nat \<Rightarrow> u8) \<Rightarrow> u8 list" where
  "mem_get off n m = map (\<lambda>i. m (off + i)) [0..<n]"

definition le16 :: "u8 \<Rightarrow> u8 \<Rightarrow> nat" where
  "le16 lo hi = unat lo + 256 * unat hi"

definition bytes16 :: "u16 \<Rightarrow> u8 list" where
  "bytes16 w = [ucast w, ucast (drop_bit 8 w)]"

definition bytes32 :: "u32 \<Rightarrow> u8 list" where
  "bytes32 w = [ucast w, ucast (drop_bit 8 w), ucast (drop_bit 16 w), ucast (drop_bit 24 w)]"

definition entry_bytes :: "logger_entry \<Rightarrow> u8 list" where
  "entry_bytes e = bytes16 (e_len e) @ bytes16 (e_pad e) @ bytes32 (e_pid e) @ bytes32 (e_tid e)
     @ bytes32 (e_sec e) @ bytes32 (e_nsec e)"

section \<open>Operations\<close>

definition get_entry_len :: "logger_log \<Rightarrow> nat \<Rightarrow> nat" where
  "get_entry_len log off =
     (let val = (if log_size log - off = 1 then le16 (buffer log off) (buffer log 0)
                 else le16 (buffer log off) (buffer log (off + 1)))
      in LOGGER_ENTRY_SIZE + val)"

text \<open>
  \<open>fault1\<close> and \<open>fault2\<close> say whether the first and the second copy to user space fault.  The result
  holds the return value and the bytes that reached the user's buffer.
\<close>

definition do_read_log_to_user ::
    "bool \<Rightarrow> bool \<Rightarrow> logger_log \<Rightarrow> ptr \<Rightarrow> nat \<Rightarrow> int \<times> u8 list \<times> logger_log" where
  "do_read_log_to_user fault1 fault2 log reader cnt =
     (let len = min cnt (log_size log - r_off log reader);
          out1 = mem_get (r_off log reader) len (buffer log)
      in if fault1 then (- EFAULT, [], log)
         else if cnt \<noteq> len \<and> fault2 then (- EFAULT, out1, log)
         else
           (int cnt,
            if cnt \<noteq> len then out1 @ mem_get 0 (cnt - len) (buffer log) else out1,
            log\<lparr>r_off := (r_off log)(reader := logger_offset log (r_off log reader + cnt))\<rparr>))"

definition logger_read ::
    "bool \<Rightarrow> bool \<Rightarrow> bool \<Rightarrow> logger_file \<Rightarrow> nat \<Rightarrow> logger_log \<Rightarrow> (int \<times> u8 list \<times> logger_log) option"
  where
  "logger_read signal fault1 fault2 file cnt log =
     (let reader = f_reader file in
      if w_off log = r_off log reader then
        if f_nonblock file then Some (- EAGAIN, [], log)
        else if signal then Some (- EINTR, [], log)
        else None
      else
        let ret = get_entry_len log (r_off log reader)
        in if cnt < ret then Some (- EINVAL, [], log)
           else Some (do_read_log_to_user fault1 fault2 log reader ret))"

function get_next_entry_loop :: "logger_log \<Rightarrow> nat \<Rightarrow> nat \<Rightarrow> nat \<Rightarrow> nat" where
  "get_next_entry_loop log len off cnt =
     (let nr = get_entry_len log off;
          off = logger_offset log (off + nr);
          cnt = cnt + nr
      in if cnt < len then get_next_entry_loop log len off cnt else off)"
  by auto
termination
  by (relation "measure (\<lambda>(log, len, off, cnt). len - cnt)")
     (auto simp: get_entry_len_def LOGGER_ENTRY_SIZE_def Let_def)

declare get_next_entry_loop.simps [simp del]

definition get_next_entry :: "logger_log \<Rightarrow> nat \<Rightarrow> nat \<Rightarrow> nat" where
  "get_next_entry log off len = get_next_entry_loop log len off 0"

definition clock_interval :: "nat \<Rightarrow> nat \<Rightarrow> nat \<Rightarrow> bool" where
  "clock_interval a b c = (if b < a then a < c \<or> b \<ge> c else a < c \<and> b \<ge> c)"

definition fix_up_readers :: "logger_log \<Rightarrow> nat \<Rightarrow> logger_log" where
  "fix_up_readers log len =
     (let old = w_off log;
          new = logger_offset log (old + len);
          log = (if clock_interval old new (head log)
                 then log\<lparr>head := get_next_entry log (head log) len\<rparr> else log)
      in fold (\<lambda>reader log.
           if clock_interval old new (r_off log reader)
           then log\<lparr>r_off := (r_off log)(reader := get_next_entry log (r_off log reader) len)\<rparr>
           else log) (readers log) log)"

definition do_write_log :: "logger_log \<Rightarrow> u8 list \<Rightarrow> logger_log" where
  "do_write_log log bs =
     (let cnt = length bs;
          len = min cnt (log_size log - w_off log);
          log = log\<lparr>buffer := mem_put (w_off log) (take len bs) (buffer log)\<rparr>;
          log = (if cnt \<noteq> len then log\<lparr>buffer := mem_put 0 (drop len bs) (buffer log)\<rparr> else log)
      in log\<lparr>w_off := logger_offset log (w_off log + cnt)\<rparr>)"

text \<open>
  A user segment is its bytes and whether the copies from it fault.  \<open>seg_left\<close> is what a faulting
  copy leaves in the destination.  \<open>klog_buf\<close> is one buffer for all logs.
\<close>

record user_seg =
  seg_bytes :: "u8 list"
  seg_fault1 :: bool
  seg_fault2 :: bool
  seg_left :: "u8 list"

definition klog_capture :: "logger_log \<Rightarrow> nat \<Rightarrow> u8 list" where
  "klog_capture log cnt =
     (if buffer log (w_off log) = 33 \<and> buffer log (w_off log + 1) = 64 then
        let n = (if cnt < 255 then cnt else 255)
        in mem_get (w_off log) n (buffer log) @ replicate (255 - n) 0 @ [0]
      else replicate 255 0 @ drop 255 (klog_buf log))"

definition do_write_log_from_user :: "logger_log \<Rightarrow> user_seg \<Rightarrow> nat \<Rightarrow> int \<times> logger_log" where
  "do_write_log_from_user log seg cnt =
     (let bs = take cnt (seg_bytes seg);
          len = min cnt (log_size log - w_off log) in
      if len \<noteq> 0 \<and> seg_fault1 seg then
        (- EFAULT, log\<lparr>buffer := mem_put (w_off log) (take len (seg_left seg)) (buffer log)\<rparr>)
      else
        let log = log\<lparr>buffer := mem_put (w_off log) (take len bs) (buffer log)\<rparr> in
        if cnt \<noteq> len \<and> seg_fault2 seg then
          (- EFAULT, log\<lparr>buffer := mem_put 0 (take (cnt - len) (seg_left seg)) (buffer log)\<rparr>)
        else
          let log = (if cnt \<noteq> len then log\<lparr>buffer := mem_put 0 (drop len bs) (buffer log)\<rparr> else log);
              log = log\<lparr>klog_buf := klog_capture log cnt\<rparr>
          in (int cnt, log\<lparr>w_off := logger_offset log (w_off log + cnt)\<rparr>))"

text \<open>
  The segments of one write.  \<open>ret\<close> counts the payload bytes written so far, \<open>hlen\<close> is the
  payload length in the header.
\<close>

fun write_segs :: "nat \<Rightarrow> user_seg list \<Rightarrow> nat \<Rightarrow> logger_log \<Rightarrow> int \<times> logger_log" where
  "write_segs hlen [] ret log = (int ret, log)"
| "write_segs hlen (seg # segs) ret log =
     (let len = min (length (seg_bytes seg)) (hlen - ret);
          (nr, log) = do_write_log_from_user log seg len
      in if nr < 0 then (nr, log) else write_segs hlen segs (ret + nat nr) log)"

definition logger_aio_write ::
    "logger_entry \<Rightarrow> nat \<Rightarrow> user_seg list \<Rightarrow> logger_log \<Rightarrow> int \<times> logger_log" where
  "logger_aio_write stamp ki_left segs log =
     (let orig = w_off log;
          hlen = min ki_left LOGGER_ENTRY_MAX_PAYLOAD;
          header = stamp\<lparr>e_len := of_nat hlen\<rparr>
      in if hlen = 0 then (0, log)
         else
           let log = fix_up_readers log (LOGGER_ENTRY_SIZE + hlen);
               log = do_write_log log (entry_bytes header);
               (ret, log) = write_segs hlen segs 0 log
           in if ret < 0 then (ret, log\<lparr>w_off := orig\<rparr>)
              else
                (ret,
                 if take 2 (klog_buf log) = [33, 64]
                 then log\<lparr>printed_log := printed_log log @ [takeWhile (\<lambda>b. b \<noteq> 0) (klog_buf log)]\<rparr>
                 else log))"

text \<open>
  \<open>reader\<close> is the result of \<open>kmalloc\<close>, or nothing; \<open>seekable\<close> is what \<open>nonseekable_open\<close> returned;
  the log is \<open>None\<close> when no log has the minor number.
\<close>

definition logger_open ::
    "int \<Rightarrow> ptr option \<Rightarrow> logger_file \<Rightarrow> logger_log option \<Rightarrow> int \<times> logger_file \<times> logger_log option"
  where
  "logger_open seekable reader file log =
     (if seekable \<noteq> 0 then (seekable, file, log)
      else case log of
          None \<Rightarrow> (- ENODEV, file, log)
        | Some l \<Rightarrow>
            if f_read file then
              case reader of
                None \<Rightarrow> (- ENOMEM, file, log)
              | Some r \<Rightarrow>
                  (0, file\<lparr>f_reader := r\<rparr>,
                   Some (l\<lparr>r_off := (r_off l)(r := head l), readers := readers l @ [r]\<rparr>))
            else (0, file, log))"

definition logger_release :: "logger_file \<Rightarrow> logger_log \<Rightarrow> int \<times> logger_log" where
  "logger_release file log =
     (if f_read file then (0, log\<lparr>readers := remove1 (f_reader file) (readers log)\<rparr>) else (0, log))"

definition POLLIN :: u32 where "POLLIN = 0x0001"
definition POLLOUT :: u32 where "POLLOUT = 0x0004"
definition POLLRDNORM :: u32 where "POLLRDNORM = 0x0040"
definition POLLWRNORM :: u32 where "POLLWRNORM = 0x0100"

definition logger_poll :: "logger_file \<Rightarrow> logger_log \<Rightarrow> u32" where
  "logger_poll file log =
     (let ret = POLLOUT OR POLLWRNORM in
      if \<not> f_read file then ret
      else if w_off log \<noteq> r_off log (f_reader file) then ret OR (POLLIN OR POLLRDNORM)
      else ret)"

datatype logger_cmd =
    LOGGER_GET_LOG_BUF_SIZE | LOGGER_GET_LOG_LEN | LOGGER_GET_NEXT_ENTRY_LEN | LOGGER_FLUSH_LOG
  | LOGGER_OTHER

definition logger_ioctl :: "logger_file \<Rightarrow> logger_cmd \<Rightarrow> logger_log \<Rightarrow> int \<times> logger_log" where
  "logger_ioctl file cmd log =
     (case cmd of
        LOGGER_GET_LOG_BUF_SIZE \<Rightarrow> (int (log_size log), log)
      | LOGGER_GET_LOG_LEN \<Rightarrow>
          if \<not> f_read file then (- EBADF, log)
          else
            let r = r_off log (f_reader file)
            in (if w_off log \<ge> r then int (w_off log - r)
                else int (log_size log - r + w_off log), log)
      | LOGGER_GET_NEXT_ENTRY_LEN \<Rightarrow>
          if \<not> f_read file then (- EBADF, log)
          else if w_off log \<noteq> r_off log (f_reader file)
            then (int (get_entry_len log (r_off log (f_reader file))), log)
          else (0, log)
      | LOGGER_FLUSH_LOG \<Rightarrow>
          if \<not> f_write file then (- EBADF, log)
          else
            (0, (fold (\<lambda>r log. log\<lparr>r_off := (r_off log)(r := w_off log)\<rparr>) (readers log) log)
                  \<lparr>head := w_off log\<rparr>)
      | LOGGER_OTHER \<Rightarrow> (- ENOTTY, log))"

definition get_log_from_minor :: "(nat \<times> 'l) list \<Rightarrow> nat \<Rightarrow> 'l option" where
  "get_log_from_minor logs minor = map_of logs minor"

section \<open>Ring arithmetic\<close>

definition log_wf :: "logger_log \<Rightarrow> bool" where
  "log_wf log \<longleftrightarrow> (\<exists>k. log_size log = 2 ^ k) \<and> 2 * LOGGER_ENTRY_MAX_LEN \<le> log_size log \<and>
     w_off log < log_size log"

lemma logger_offset_mod: "log_wf log \<Longrightarrow> logger_offset log n = n mod log_size log"
  by (auto simp: log_wf_def logger_offset_def take_bit_eq_mod [symmetric] take_bit_eq_mask
      mask_eq_exp_minus_1)

definition ring_bytes :: "logger_log \<Rightarrow> nat \<Rightarrow> nat \<Rightarrow> u8 list" where
  "ring_bytes log off n = map (\<lambda>i. buffer log ((off + i) mod log_size log)) [0..<n]"

lemma mod_add_if: "a < (n :: nat) \<Longrightarrow> i \<le> n \<Longrightarrow> (a + i) mod n = (if a + i < n then a + i else a + i - n)"
  by (simp add: le_mod_geq mod_if)

lemma mem_get_ring:
  assumes "off < log_size log" "n \<le> log_size log" "len = min n (log_size log - off)"
  shows "mem_get off len (buffer log) @ mem_get 0 (n - len) (buffer log) = ring_bytes log off n"
proof (rule nth_equalityI)
  show "length (mem_get off len (buffer log) @ mem_get 0 (n - len) (buffer log)) =
      length (ring_bytes log off n)"
    using assms by (simp add: mem_get_def ring_bytes_def)
  fix i
  assume "i < length (mem_get off len (buffer log) @ mem_get 0 (n - len) (buffer log))"
  then have "i < n" using assms(3) by (simp add: mem_get_def)
  then show "(mem_get off len (buffer log) @ mem_get 0 (n - len) (buffer log)) ! i =
      ring_bytes log off n ! i"
    using assms by (auto simp: mem_get_def ring_bytes_def nth_append mod_add_if add.commute)
qed

text \<open>The distance from the write offset \<open>a\<close> forward to the offset \<open>j\<close>.\<close>

definition ring_dist :: "nat \<Rightarrow> nat \<Rightarrow> nat \<Rightarrow> nat" where
  "ring_dist n a j = (if a \<le> j then j - a else j + n - a)"

lemma ring_dist_add: "a < n \<Longrightarrow> i < n \<Longrightarrow> ring_dist n a ((a + i) mod n) = i"
  by (auto simp: ring_dist_def mod_add_if)

lemma ring_dist_less: "a < n \<Longrightarrow> j < n \<Longrightarrow> ring_dist n a j < n"
  by (auto simp: ring_dist_def)

lemma ring_dist_inv: "a < n \<Longrightarrow> j < n \<Longrightarrow> (a + ring_dist n a j) mod n = j"
  by (auto simp: ring_dist_def)

text \<open>Writing at the write offset, as one function of the distance.\<close>

definition ring_put :: "nat \<Rightarrow> nat \<Rightarrow> u8 list \<Rightarrow> (nat \<Rightarrow> u8) \<Rightarrow> nat \<Rightarrow> u8" where
  "ring_put n w bs m =
     (\<lambda>j. if j < n \<and> ring_dist n w j < length bs then bs ! ring_dist n w j else m j)"

lemma mem_put_ring:
  assumes "w < n" "length bs \<le> n" "len = min (length bs) (n - w)"
  shows "mem_put 0 (drop len bs) (mem_put w (take len bs) m) = ring_put n w bs m"
proof
  fix j
  show "mem_put 0 (drop len bs) (mem_put w (take len bs) m) j = ring_put n w bs m j"
    using assms by (auto simp: mem_put_def ring_put_def ring_dist_def min_def add.commute)
qed

lemma mem_put_Nil [simp]: "mem_put off [] m = m"
  by (rule ext) (auto simp: mem_put_def)

lemma do_write_log_eq:
  assumes "log_wf log" "length bs \<le> log_size log"
  shows "do_write_log log bs =
    log\<lparr>buffer := ring_put (log_size log) (w_off log) bs (buffer log),
        w_off := (w_off log + length bs) mod log_size log\<rparr>"
proof -
  define len where "len = min (length bs) (log_size log - w_off log)"
  have "ring_put (log_size log) (w_off log) bs (buffer log) =
      (if length bs \<noteq> len then mem_put 0 (drop len bs) (mem_put (w_off log) (take len bs) (buffer log))
       else mem_put (w_off log) (take len bs) (buffer log))"
    using mem_put_ring [of "w_off log" "log_size log" bs len "buffer log"] assms
    by (auto simp: log_wf_def len_def)
  moreover have "logger_offset (log\<lparr>buffer := b\<rparr>) i = i mod log_size log" for b i
    using logger_offset_mod [of "log\<lparr>buffer := b\<rparr>"] assms(1) by (simp add: log_wf_def)
  ultimately show ?thesis
    by (simp only: do_write_log_def Let_def len_def [symmetric]) simp
qed

lemma ring_put_append:
  assumes "w < n" "length (as @ bs) \<le> n"
  shows "ring_put n ((w + length as) mod n) bs (ring_put n w as m) = ring_put n w (as @ bs) m"
proof
  fix j
  show "ring_put n ((w + length as) mod n) bs (ring_put n w as m) j = ring_put n w (as @ bs) m j"
  proof (cases "j < n")
    case True
    have "ring_dist n ((w + length as) mod n) j =
        (if length as \<le> ring_dist n w j then ring_dist n w j - length as
         else ring_dist n w j + n - length as)"
      using assms True by (auto simp: ring_dist_def mod_add_if)
    then show ?thesis
      using assms True ring_dist_less [OF assms(1) True]
      by (auto simp: ring_put_def nth_append)
  qed (simp add: ring_put_def)
qed

section \<open>Chains of entries\<close>

definition entry_wf :: "u8 list \<Rightarrow> bool" where
  "entry_wf e \<longleftrightarrow> LOGGER_ENTRY_SIZE \<le> length e \<and> length e \<le> LOGGER_ENTRY_MAX_LEN \<and>
     length e = LOGGER_ENTRY_SIZE + le16 (e ! 0) (e ! 1)"

definition chain :: "logger_log \<Rightarrow> nat \<Rightarrow> u8 list list \<Rightarrow> bool" where
  "chain log p es \<longleftrightarrow>
     p < log_size log \<and> (\<forall>e\<in>set es. entry_wf e) \<and> length (concat es) < log_size log \<and>
     ring_bytes log p (length (concat es)) = concat es \<and>
     (p + length (concat es)) mod log_size log = w_off log"

lemma ring_bytes_append:
  "ring_bytes log p (m + n) = ring_bytes log p m @ ring_bytes log ((p + m) mod log_size log) n"
proof -
  have "map f [0..<m + n] = map f [0..<m] @ map (\<lambda>i. f (m + i)) [0..<n]" for f :: "nat \<Rightarrow> u8"
    by (induction n) auto
  then show ?thesis
    by (simp add: ring_bytes_def mod_add_left_eq add.assoc)
qed

lemma length_ring_bytes [simp]: "length (ring_bytes log p n) = n"
  by (simp add: ring_bytes_def)

lemma chain_empty_iff: "chain log p es \<Longrightarrow> w_off log = p \<longleftrightarrow> es = []"
proof -
  assume c: "chain log p es"
  have "concat es = [] \<longleftrightarrow> es = []"
    using c by (cases es) (auto simp: chain_def entry_wf_def LOGGER_ENTRY_SIZE_def)
  moreover have "(p + n) mod s = p \<longleftrightarrow> n = 0" if "p < s" "n < s" for s n :: nat
    using that by (auto simp: mod_add_if)
  ultimately show ?thesis
    using c by (auto simp: chain_def)
qed

lemma chain_Cons:
  assumes c: "chain log p (e # es)"
  shows "ring_bytes log p (length e) = e" "get_entry_len log p = length e"
    "chain log ((p + length e) mod log_size log) es"
proof -
  have r: "ring_bytes log p (length e) @ ring_bytes log ((p + length e) mod log_size log) (length (concat es))
      = e @ concat es"
    using c by (simp add: chain_def ring_bytes_append)
  then show e: "ring_bytes log p (length e) = e" by simp
  have wf: "entry_wf e" using c by (simp add: chain_def)
  then have l: "2 \<le> length e" by (simp add: entry_wf_def LOGGER_ENTRY_SIZE_def)
  have p: "p < log_size log" using c by (simp add: chain_def)
  have nth: "e ! i = buffer log ((p + i) mod log_size log)" if "i < length e" for i
    using that arg_cong [OF e, of "\<lambda>x. x ! i"] by (simp add: ring_bytes_def)
  have b: "e ! 0 = buffer log p" "e ! 1 = buffer log ((p + 1) mod log_size log)"
    using nth [of 0] nth [of 1] l p by (simp_all add: length_0_conv [symmetric] del: length_0_conv)
  from p have "(p + 1) mod log_size log = (if log_size log - p = 1 then 0 else p + 1)"
    by (auto simp: mod_if)
  then show "get_entry_len log p = length e"
    using wf b by (simp add: get_entry_len_def entry_wf_def Let_def)
  show "chain log ((p + length e) mod log_size log) es"
    using c r e by (simp add: chain_def mod_add_left_eq add.assoc)
qed

fun drop_until :: "nat \<Rightarrow> u8 list list \<Rightarrow> u8 list list" where
  "drop_until len [] = []"
| "drop_until len (e # es) = (if len \<le> length e then es else drop_until (len - length e) es)"

lemma get_next_entry_loop_chain:
  assumes "log_wf log"
  shows "chain log p es \<Longrightarrow> cnt < len \<Longrightarrow> len - cnt \<le> length (concat es) \<Longrightarrow>
    chain log (get_next_entry_loop log len p cnt) (drop_until (len - cnt) es)"
proof (induction es arbitrary: p cnt)
  case Nil
  then show ?case by simp
next
  case (Cons e es)
  note c = chain_Cons [OF Cons.prems(1)]
  let ?p = "(p + length e) mod log_size log"
  have step: "get_next_entry_loop log len p cnt =
      (if cnt + length e < len then get_next_entry_loop log len ?p (cnt + length e) else ?p)"
    by (subst get_next_entry_loop.simps) (simp add: c(2) logger_offset_mod [OF assms] Let_def)
  show ?case
  proof (cases "cnt + length e < len")
    case True
    then have "chain log (get_next_entry_loop log len ?p (cnt + length e))
        (drop_until (len - (cnt + length e)) es)"
      using Cons.prems by (intro Cons.IH [OF c(3)]) auto
    moreover have "\<not> len - cnt \<le> length e" "len - cnt - length e = len - (cnt + length e)"
      using True by auto
    ultimately show ?thesis using True step by simp
  next
    case False
    moreover from this have "len - cnt \<le> length e" by simp
    ultimately show ?thesis using c(3) step by simp
  qed
qed

lemma get_next_entry_chain:
  assumes "log_wf log" "chain log p es" "0 < len" "len \<le> length (concat es)"
  shows "chain log (get_next_entry log p len) (drop_until len es)"
  using get_next_entry_loop_chain [OF assms(1,2), of 0 len] assms(3,4) by (simp add: get_next_entry_def)

lemma drop_until_suffix: "\<exists>ds. es = ds @ drop_until len es \<and>
    (len \<le> length (concat es) \<longrightarrow> len \<le> length (concat ds))"
proof (induction len es rule: drop_until.induct)
  case (2 len e es)
  show ?case
  proof (cases "len \<le> length e")
    case True
    then show ?thesis by (intro exI [of _ "[e]"]) simp
  next
    case False
    with 2 obtain ds where "es = ds @ drop_until (len - length e) es"
      "len - length e \<le> length (concat es) \<longrightarrow> len - length e \<le> length (concat ds)" by blast
    then show ?thesis using False by (intro exI [of _ "e # ds"]) auto
  qed
qed simp

text \<open>\<open>clock_interval\<close> finds exactly the offsets whose entries the next write would reach.\<close>

lemma clock_interval_iff:
  assumes "log_wf log" "chain log p es" "0 < len" "len < log_size log"
  shows "clock_interval (w_off log) ((w_off log + len) mod log_size log) p \<longleftrightarrow>
    log_size log \<le> length (concat es) + len"
proof -
  define n where "n = length (concat es)"
  define s where "s = log_size log"
  have c: "p < s" "n < s" "w_off log = (if p + n < s then p + n else p + n - s)"
    using assms(2) by (auto simp: chain_def n_def s_def mod_add_if)
  have w: "w_off log < s" using assms(1) by (simp add: log_wf_def s_def)
  have "(w_off log + len) mod s = (if w_off log + len < s then w_off log + len else w_off log + len - s)"
    using w assms(4) by (simp add: mod_add_if s_def)
  then show ?thesis
    unfolding s_def [symmetric] n_def [symmetric] clock_interval_def
    using c w assms(3,4) by (auto simp: s_def split: if_splits)
qed

text \<open>A change of the buffer within \<open>len\<close> bytes of the write offset leaves short chains alone.\<close>

lemma ring_bytes_frame:
  assumes "chain log p es" "length (concat es) + len \<le> log_size log"
    and "\<And>j. j < log_size log \<Longrightarrow> len \<le> ring_dist (log_size log) (w_off log) j \<Longrightarrow> m j = buffer log j"
  shows "map (\<lambda>i. m ((p + i) mod log_size log)) [0..<length (concat es)] = concat es"
proof -
  define n where "n = length (concat es)"
  have c: "p < log_size log" "n < log_size log" "w_off log = (p + n) mod log_size log"
    using assms(1) by (auto simp: chain_def n_def)
  have "m ((p + i) mod log_size log) = buffer log ((p + i) mod log_size log)" if "i < n" for i
  proof (rule assms(3))
    show "(p + i) mod log_size log < log_size log" using c(1) by (intro mod_less_divisor) simp
    show "len \<le> ring_dist (log_size log) (w_off log) ((p + i) mod log_size log)"
      using c that assms(2) unfolding n_def [symmetric] by (auto simp: ring_dist_def mod_add_if)
  qed
  then have "map (\<lambda>i. m ((p + i) mod log_size log)) [0..<n] = ring_bytes log p n"
    by (simp add: ring_bytes_def)
  then show ?thesis
    using assms(1) by (simp add: chain_def n_def)
qed

section \<open>Readers are pulled forward\<close>

definition moved :: "logger_log \<Rightarrow> nat \<Rightarrow> nat \<Rightarrow> nat" where
  "moved log len p =
     (if clock_interval (w_off log) ((w_off log + len) mod log_size log) p
      then get_next_entry log p len else p)"

definition kept :: "nat \<Rightarrow> nat \<Rightarrow> u8 list list \<Rightarrow> u8 list list" where
  "kept sz len es = (if sz \<le> length (concat es) + len then drop_until len es else es)"

lemma chain_moved:
  assumes "log_wf log" "chain log p es" "0 < len" "len \<le> LOGGER_ENTRY_MAX_LEN"
  shows "chain log (moved log len p) (kept (log_size log) len es)"
    and "length (concat (kept (log_size log) len es)) + len < log_size log"
proof -
  have s: "2 * len \<le> log_size log" "len < log_size log"
    using assms(1,3,4) by (auto simp: log_wf_def)
  have n: "length (concat es) < log_size log" using assms(2) by (simp add: chain_def)
  note ci = clock_interval_iff [OF assms(1-3) s(2)]
  show "chain log (moved log len p) (kept (log_size log) len es)"
    using get_next_entry_chain [OF assms(1-3)] s ci assms(2) by (auto simp: moved_def kept_def)
  show "length (concat (kept (log_size log) len es)) + len < log_size log"
  proof (cases "log_size log \<le> length (concat es) + len")
    case True
    then have "len \<le> length (concat es)" using s by simp
    then obtain ds where ds: "es = ds @ drop_until len es" "len \<le> length (concat ds)"
      using drop_until_suffix [of es len] by blast
    have "length (concat es) = length (concat ds) + length (concat (drop_until len es))"
      by (subst ds(1)) simp
    then show ?thesis using ds(2) n True by (simp add: kept_def)
  qed (simp add: kept_def)
qed

lemma get_entry_len_cong:
  "buffer log' = buffer log \<Longrightarrow> log_size log' = log_size log \<Longrightarrow> get_entry_len log' = get_entry_len log"
  by (rule ext) (simp add: get_entry_len_def)

lemma get_next_entry_cong:
  assumes "buffer log' = buffer log" "log_size log' = log_size log"
  shows "get_next_entry log' = get_next_entry log"
proof -
  have "get_next_entry_loop log' len off cnt = get_next_entry_loop log len off cnt" for len off cnt
  proof (induction "len - cnt" arbitrary: off cnt rule: less_induct)
    case less
    have g: "get_entry_len log' off = get_entry_len log off" "0 < get_entry_len log off"
      "logger_offset log' = logger_offset log"
      using get_entry_len_cong [OF assms] assms
      by (auto simp: get_entry_len_def LOGGER_ENTRY_SIZE_def logger_offset_def Let_def)
    have "get_next_entry_loop log' len (logger_offset log (off + get_entry_len log off)) (cnt + get_entry_len log off)
        = get_next_entry_loop log len (logger_offset log (off + get_entry_len log off)) (cnt + get_entry_len log off)"
      if "cnt + get_entry_len log off < len"
      using that g(2) by (intro less.hyps) simp
    then show ?case
      using g(1,3) get_next_entry_loop.simps [of log' len off cnt] get_next_entry_loop.simps [of log len off cnt]
      by (simp add: Let_def)
  qed
  then show ?thesis by (intro ext) (simp add: get_next_entry_def)
qed

lemma chain_cong:
  assumes "buffer log' = buffer log" "log_size log' = log_size log" "w_off log' = w_off log"
  shows "chain log' p es \<longleftrightarrow> chain log p es"
  using assms by (simp add: chain_def ring_bytes_def)

lemma fold_move_readers:
  assumes "distinct rs"
  shows "fold (\<lambda>r l. if P (r_off l r) then l\<lparr>r_off := (r_off l)(r := Q (r_off l r))\<rparr> else l) rs log
    = log\<lparr>r_off := (\<lambda>r. if r \<in> set rs \<and> P (r_off log r) then Q (r_off log r) else r_off log r)\<rparr>"
  using assms
proof (induction rs arbitrary: log)
  case Nil
  then show ?case by simp
next
  case (Cons r rs)
  let ?l = "if P (r_off log r) then log\<lparr>r_off := (r_off log)(r := Q (r_off log r))\<rparr> else log"
  have "?l\<lparr>r_off := (\<lambda>x. if x \<in> set rs \<and> P (r_off ?l x) then Q (r_off ?l x) else r_off ?l x)\<rparr> =
      log\<lparr>r_off := (\<lambda>x. if x \<in> set (r # rs) \<and> P (r_off log x) then Q (r_off log x) else r_off log x)\<rparr>"
    using Cons.prems by (auto simp: fun_eq_iff intro!: logger_log.equality)
  then show ?case
    using Cons.IH [of ?l] Cons.prems by simp
qed

lemma fix_up_readers_eq:
  assumes "log_wf log" "distinct (readers log)"
  shows "fix_up_readers log len =
    log\<lparr>head := moved log len (head log),
        r_off := (\<lambda>r. if r \<in> set (readers log) then moved log len (r_off log r) else r_off log r)\<rparr>"
proof -
  define new where "new = (w_off log + len) mod log_size log"
  define l1 where "l1 = log\<lparr>head := moved log len (head log)\<rparr>"
  have l1: "r_off l1 = r_off log" "readers l1 = readers log" "buffer l1 = buffer log" "log_size l1 = log_size log"
    by (simp_all add: l1_def)
  have inv: "fold (\<lambda>r l. if clock_interval (w_off log) new (r_off l r)
        then l\<lparr>r_off := (r_off l)(r := get_next_entry l (r_off l r) len)\<rparr> else l) rs l =
      fold (\<lambda>r l. if clock_interval (w_off log) new (r_off l r)
        then l\<lparr>r_off := (r_off l)(r := get_next_entry log (r_off l r) len)\<rparr> else l) rs l"
    if "buffer l = buffer log" "log_size l = log_size log" for rs l
    using that
  proof (induction rs arbitrary: l)
    case (Cons r rs)
    then have "get_next_entry l = get_next_entry log" by (intro get_next_entry_cong)
    then show ?case using Cons.IH [of l] Cons.IH Cons.prems by simp
  qed simp
  have "fix_up_readers log len = fold (\<lambda>r l. if clock_interval (w_off log) new (r_off l r)
        then l\<lparr>r_off := (r_off l)(r := get_next_entry l (r_off l r) len)\<rparr> else l) (readers l1) l1"
    unfolding fix_up_readers_def Let_def logger_offset_mod [OF assms(1)] new_def [symmetric]
    by (simp add: l1_def moved_def new_def)
  also have "\<dots> = l1\<lparr>r_off := (\<lambda>r. if r \<in> set (readers l1) \<and> clock_interval (w_off log) new (r_off l1 r)
        then get_next_entry log (r_off l1 r) len else r_off l1 r)\<rparr>"
    unfolding inv [OF l1(3,4)] using assms(2) by (intro fold_move_readers) (simp add: l1)
  also have "\<dots> = log\<lparr>head := moved log len (head log),
        r_off := (\<lambda>r. if r \<in> set (readers log) then moved log len (r_off log r) else r_off log r)\<rparr>"
    by (auto simp: l1_def moved_def new_def fun_eq_iff)
  finally show ?thesis .
qed

section \<open>Writing\<close>

definition log_inv :: "logger_log \<Rightarrow> bool" where
  "log_inv log \<longleftrightarrow> log_wf log \<and> distinct (readers log) \<and> (\<exists>es. chain log (head log) es) \<and>
     (\<forall>r\<in>set (readers log). \<exists>es. chain log (r_off log r) es)"

text \<open>What a write leaves alone.\<close>

definition same_frame :: "logger_log \<Rightarrow> logger_log \<Rightarrow> bool" where
  "same_frame log' log \<longleftrightarrow> log_size log' = log_size log \<and> head log' = head log \<and>
     readers log' = readers log \<and> r_off log' = r_off log"

lemma do_write_log_from_user_ok:
  assumes "log_wf log" "cnt \<le> log_size log" "cnt = length bs" "bs = take cnt (seg_bytes seg)"
    and do: "do_write_log_from_user log seg cnt = (r, log')" "0 \<le> r"
  shows "r = int cnt" "same_frame log' log"
    "buffer log' = ring_put (log_size log) (w_off log) bs (buffer log)"
    "w_off log' = (w_off log + cnt) mod log_size log"
proof -
  define len where "len = min cnt (log_size log - w_off log)"
  have b: "ring_put (log_size log) (w_off log) bs (buffer log) =
      (if cnt \<noteq> len then mem_put 0 (drop len bs) (mem_put (w_off log) (take len bs) (buffer log))
       else mem_put (w_off log) (take len bs) (buffer log))"
    using mem_put_ring [of "w_off log" "log_size log" bs len "buffer log"] assms(1-3)
    by (simp add: log_wf_def len_def min_def split: if_splits)
  have t: "take cnt (seg_bytes seg) = bs" using assms(4) by (rule sym)
  have o: "logger_offset l i = i mod log_size log" if "log_size l = log_size log" for l i
    using logger_offset_mod [OF assms(1)] that by (simp add: logger_offset_def)
  note d = do(1) [unfolded do_write_log_from_user_def Let_def len_def [symmetric] t]
  have "\<not> (len \<noteq> 0 \<and> seg_fault1 seg)" "\<not> (cnt \<noteq> len \<and> seg_fault2 seg)"
    using d do(2) by (auto simp: EFAULT_def split: if_splits)
  with d show "r = int cnt" "same_frame log' log"
    "buffer log' = ring_put (log_size log) (w_off log) bs (buffer log)"
    "w_off log' = (w_off log + cnt) mod log_size log"
    by (auto simp: b o same_frame_def)
qed

lemma write_segs_ok:
  assumes "log_wf log" "ret \<le> hlen" "hlen - ret \<le> log_size log"
    and "write_segs hlen segs ret log = (r, log')" "0 \<le> r"
  defines "bs \<equiv> take (hlen - ret) (concat (map seg_bytes segs))"
  shows "r = int (ret + length bs) \<and> same_frame log' log \<and>
    buffer log' = ring_put (log_size log) (w_off log) bs (buffer log) \<and>
    w_off log' = (w_off log + length bs) mod log_size log"
  using assms(1-5) unfolding bs_def
proof (induction segs arbitrary: ret log)
  case Nil
  then show ?case by (auto simp: same_frame_def ring_put_def log_wf_def)
next
  case (Cons seg segs)
  define cnt where "cnt = min (length (seg_bytes seg)) (hlen - ret)"
  define as where "as = take cnt (seg_bytes seg)"
  have as: "cnt = length as" "as = take cnt (seg_bytes seg)" by (auto simp: as_def cnt_def)
  obtain nr l1 where do: "do_write_log_from_user log seg cnt = (nr, l1)" by fastforce
  then have ws: "(if nr < 0 then (nr, l1) else write_segs hlen segs (ret + nat nr) l1) = (r, log')"
    using Cons.prems(4) by (simp add: cnt_def Let_def)
  with Cons.prems(5) have nr: "0 \<le> nr" by (auto split: if_splits)
  have "cnt \<le> log_size log" using Cons.prems(3) by (simp add: cnt_def)
  note l1 = do_write_log_from_user_ok [OF Cons.prems(1) this as do nr]
  have wf: "log_wf l1" "log_size l1 = log_size log"
    using Cons.prems(1) l1(2,4) by (auto simp: log_wf_def same_frame_def)
  define cs where "cs = take (hlen - (ret + cnt)) (concat (map seg_bytes segs))"
  have "ret + cnt \<le> hlen" "hlen - (ret + cnt) \<le> log_size l1"
    using Cons.prems(2,3) wf(2) by (auto simp: cnt_def)
  from Cons.IH [OF wf(1) this] ws nr l1(1) Cons.prems(5) have
    l2: "r = int (ret + cnt + length cs)" "same_frame log' l1"
      "buffer log' = ring_put (log_size log) (w_off l1) cs (buffer l1)"
      "w_off log' = (w_off l1 + length cs) mod log_size log"
    by (auto simp: cs_def wf(2))
  have acs: "take (hlen - ret) (concat (map seg_bytes (seg # segs))) = as @ cs"
    by (auto simp: as_def cs_def cnt_def min_def)
  have "length (as @ cs) \<le> hlen - ret" unfolding acs [symmetric] by simp
  then have "length as + length cs \<le> log_size log" using Cons.prems(3) by simp
  then have "buffer log' = ring_put (log_size log) (w_off log) (as @ cs) (buffer log)"
    unfolding l2(3) l1(3,4) as(1)
    by (intro ring_put_append) (use Cons.prems(1) in \<open>simp_all add: log_wf_def\<close>)
  moreover have "w_off log' = (w_off log + length (as @ cs)) mod log_size log"
    using l2(4) l1(4) as(1) by (simp add: mod_add_left_eq add.assoc)
  moreover have "same_frame log' log" using l1(2) l2(2) by (simp add: same_frame_def)
  ultimately show ?case using l2(1) as(1) unfolding acs by simp
qed

lemma write_segs_no_fault:
  assumes "\<forall>seg\<in>set segs. \<not> seg_fault1 seg \<and> \<not> seg_fault2 seg"
  shows "0 \<le> fst (write_segs hlen segs ret log)"
  using assms
proof (induction segs arbitrary: ret log)
  case (Cons seg segs)
  have "0 \<le> fst (do_write_log_from_user log seg cnt)" for cnt
    using Cons.prems by (simp add: do_write_log_from_user_def Let_def)
  with Cons show ?case by (auto simp: Let_def split: prod.splits) (metis fst_conv not_less)
qed simp

lemma length_entry_bytes [simp]: "length (entry_bytes e) = LOGGER_ENTRY_SIZE"
  by (simp add: entry_bytes_def bytes16_def bytes32_def LOGGER_ENTRY_SIZE_def)

lemma entry_wf_new:
  assumes "n \<le> LOGGER_ENTRY_MAX_PAYLOAD" "length bs = n"
  shows "entry_wf (entry_bytes (stamp\<lparr>e_len := of_nat n\<rparr>) @ bs)"
proof -
  have n: "n < 65536" using assms(1) by (simp add: logger_consts)
  have "unat (of_nat n :: u16) = n" using n by (simp add: unat_of_nat take_bit_nat_eq_self)
  then have "unat (ucast (of_nat n :: u16) :: u8) = n mod 256"
    "unat (ucast (drop_bit 8 (of_nat n :: u16)) :: u8) = n div 256"
    using n by (simp_all add: unsigned_ucast_eq take_bit_eq_mod drop_bit_eq_div unat_div)
  then show ?thesis
    using assms by (simp add: entry_wf_def entry_bytes_def bytes16_def bytes32_def le16_def logger_consts)
qed

lemma mem_put_frame:
  assumes "w < n" "length bs \<le> n - w" "length bs \<le> ring_dist n w j" "j < n"
  shows "mem_put w bs m j = m j"
  using assms by (auto simp: mem_put_def ring_dist_def split: if_splits)

lemma mem_put_wrap_frame:
  assumes "w < n" "n - w + length bs \<le> ring_dist n w j" "j < n"
  shows "mem_put 0 bs m j = m j"
  using assms by (auto simp: mem_put_def ring_dist_def split: if_splits)

lemma do_write_log_from_user_frame:
  assumes "log_wf log" "do_write_log_from_user log seg cnt = (r, log')"
  shows "same_frame log' log" "r = int cnt \<and> w_off log' = (w_off log + cnt) mod log_size log \<or> r = - EFAULT"
    "cnt \<le> ring_dist (log_size log) (w_off log) j \<Longrightarrow> j < log_size log \<Longrightarrow> buffer log' j = buffer log j"
proof -
  define len where "len = min cnt (log_size log - w_off log)"
  have o: "logger_offset l i = i mod log_size log" if "log_size l = log_size log" for l i
    using logger_offset_mod [OF assms(1)] that by (simp add: logger_offset_def)
  note d = assms(2) [unfolded do_write_log_from_user_def Let_def len_def [symmetric]]
  show "same_frame log' log" "r = int cnt \<and> w_off log' = (w_off log + cnt) mod log_size log \<or> r = - EFAULT"
    using d by (auto simp: same_frame_def o split: if_splits)
  assume c: "cnt \<le> ring_dist (log_size log) (w_off log) j" and j: "j < log_size log"
  have w: "w_off log < log_size log" using assms(1) by (simp add: log_wf_def)
  have p1: "mem_put (w_off log) (take len bs) m j = m j" for bs m
    using c by (intro mem_put_frame [OF w _ _ j]) (auto simp: len_def)
  have p2: "mem_put 0 (take (cnt - len) bs) m j = m j" if "cnt \<noteq> len" for bs m
    using c that by (intro mem_put_wrap_frame [OF w _ j]) (auto simp: len_def min_def split: if_splits)
  have p3: "mem_put 0 (drop len (take cnt bs)) m j = m j" if "cnt \<noteq> len" for bs m
    using p2 [OF that, of "drop len bs"] by (simp add: drop_take)
  have "min len cnt = len" "len = 0 \<longrightarrow> cnt = 0" using w by (auto simp: len_def)
  then show "buffer log' j = buffer log j"
    using d by (auto simp: p1 p2 p3 split: if_splits)
qed

lemma write_segs_frame:
  assumes "log_wf log" "ret \<le> hlen" "hlen - ret \<le> log_size log" "write_segs hlen segs ret log = (r, log')"
  shows "same_frame log' log \<and> (r < 0 \<longrightarrow> r = - EFAULT) \<and>
    (\<forall>j<log_size log. hlen - ret \<le> ring_dist (log_size log) (w_off log) j \<longrightarrow> buffer log' j = buffer log j)"
  using assms
proof (induction segs arbitrary: ret log)
  case Nil
  then show ?case by (simp add: same_frame_def)
next
  case (Cons seg segs)
  define cnt where "cnt = min (length (seg_bytes seg)) (hlen - ret)"
  obtain nr l1 where l1: "do_write_log_from_user log seg cnt = (nr, l1)" by fastforce
  note f = do_write_log_from_user_frame [OF Cons.prems(1) l1]
  have sz: "log_size l1 = log_size log" using f(1) by (simp add: same_frame_def)
  show ?case
  proof (cases "nr < 0")
    case True
    then have "r = nr" "log' = l1" using Cons.prems(4) l1 by (simp_all add: cnt_def [symmetric] Let_def)
    then show ?thesis using f True by (auto simp: cnt_def)
  next
    case False
    then have nr: "nr = int cnt" and w1: "w_off l1 = (w_off log + cnt) mod log_size log"
      using f(2) by (auto simp: EFAULT_def)
    have wf: "log_wf l1" using Cons.prems(1) sz w1 by (auto simp: log_wf_def)
    have ih: "same_frame log' l1 \<and> (r < 0 \<longrightarrow> r = - EFAULT) \<and> (\<forall>j<log_size log.
        hlen - (ret + cnt) \<le> ring_dist (log_size log) (w_off l1) j \<longrightarrow> buffer log' j = buffer l1 j)"
      using Cons.IH [OF wf, of "ret + cnt"] Cons.prems(2-4) l1 nr
      by (simp add: cnt_def [symmetric] Let_def sz) (simp add: cnt_def)
    have "hlen - (ret + cnt) \<le> ring_dist (log_size log) (w_off l1) j"
      if "hlen - ret \<le> ring_dist (log_size log) (w_off log) j" "j < log_size log" for j
    proof -
      have "w_off log < log_size log" "cnt \<le> hlen - ret" using Cons.prems(1) by (auto simp: log_wf_def cnt_def)
      then show ?thesis using that Cons.prems(3) by (auto simp: w1 ring_dist_def mod_add_if split: if_splits)
    qed
    moreover have "cnt \<le> hlen - ret" by (simp add: cnt_def)
    ultimately show ?thesis using ih f(1,3) by (auto simp: same_frame_def)
  qed
qed

text \<open>The entry just written ends every chain that fits beside it.\<close>

lemma chain_append:
  assumes "chain log p es" "length (concat es) + length e < log_size log" "entry_wf e"
    and "buffer log' = ring_put (log_size log) (w_off log) e (buffer log)"
    and "log_size log' = log_size log" "w_off log' = (w_off log + length e) mod log_size log"
  shows "chain log' p (es @ [e])"
proof -
  define n where "n = length (concat es)"
  have c: "p < log_size log" "(p + n) mod log_size log = w_off log"
    using assms(1) by (auto simp: chain_def n_def)
  then have w: "w_off log < log_size log" by (metis mod_less_divisor not_less_zero zero_less_iff_neq_zero)
  have "ring_bytes log' p n = concat es"
    using ring_bytes_frame [OF assms(1), of "length e" "buffer log'"] assms(2)
    by (simp add: ring_bytes_def assms(4,5) ring_put_def n_def)
  moreover have "ring_bytes log' ((p + n) mod log_size log') (length e) = e"
    using w assms(2)
    by (auto simp: ring_bytes_def assms(4,5) c ring_put_def ring_dist_add intro!: nth_equalityI)
  ultimately have "ring_bytes log' p (n + length e) = concat (es @ [e])"
    by (simp add: ring_bytes_append)
  moreover have "(p + (n + length e)) mod log_size log = w_off log'"
    using c(2) assms(6) by (metis add.assoc mod_add_left_eq)
  ultimately show ?thesis
    using assms(1-3,5) by (simp add: chain_def n_def)
qed

lemma chain_keep:
  assumes "chain log p es" "length (concat es) + len \<le> log_size log"
    and "\<forall>j<log_size log. len \<le> ring_dist (log_size log) (w_off log) j \<longrightarrow> buffer log' j = buffer log j"
    and "log_size log' = log_size log" "w_off log' = w_off log"
  shows "chain log' p es"
  using ring_bytes_frame [OF assms(1,2), of "buffer log'"] assms by (simp add: chain_def ring_bytes_def)

definition new_entry :: "logger_entry \<Rightarrow> u8 list \<Rightarrow> u8 list" where
  "new_entry stamp payload = entry_bytes (stamp\<lparr>e_len := of_nat (length payload)\<rparr>) @ payload"

text \<open>The chains of \<open>log'\<close> are those of \<open>log\<close>, each mapped by \<open>f\<close>.\<close>

definition chains_map :: "(u8 list list \<Rightarrow> u8 list list) \<Rightarrow> logger_log \<Rightarrow> logger_log \<Rightarrow> bool" where
  "chains_map f log log' \<longleftrightarrow>
     (\<forall>es. chain log (head log) es \<longrightarrow> chain log' (head log') (f es)) \<and>
     (\<forall>r\<in>set (readers log). \<forall>es. chain log (r_off log r) es \<longrightarrow> chain log' (r_off log' r) (f es))"

lemma log_inv_map:
  assumes "log_inv log" "chains_map f log log'" "log_wf log'" "readers log' = readers log"
  shows "log_inv log'"
  using assms by (auto simp: log_inv_def chains_map_def) blast+

lemma fix_up_readers_chains:
  assumes "log_inv log" "0 < len" "len \<le> LOGGER_ENTRY_MAX_LEN"
  shows "chains_map (kept (log_size log) len) log (fix_up_readers log len)"
    and "log_wf (fix_up_readers log len)" "log_size (fix_up_readers log len) = log_size log"
    "readers (fix_up_readers log len) = readers log" "w_off (fix_up_readers log len) = w_off log"
proof -
  have wf: "log_wf log" "distinct (readers log)" using assms(1) by (auto simp: log_inv_def)
  note eq = fix_up_readers_eq [OF wf]
  show "log_wf (fix_up_readers log len)" "log_size (fix_up_readers log len) = log_size log"
    "readers (fix_up_readers log len) = readers log" "w_off (fix_up_readers log len) = w_off log"
    using wf(1) by (simp_all add: eq log_wf_def)
  have "chain (fix_up_readers log len) p es = chain log p es" for p es
    by (rule chain_cong) (simp_all add: eq)
  then show "chains_map (kept (log_size log) len) log (fix_up_readers log len)"
    using chain_moved(1) [OF wf(1) _ assms(2,3)] by (simp add: chains_map_def eq)
qed

lemma chains_map_kept:
  assumes "log_inv log" "0 < len" "len \<le> LOGGER_ENTRY_MAX_LEN"
    and "\<And>p es. chain (fix_up_readers log len) p es \<Longrightarrow> length (concat es) + len < log_size log \<Longrightarrow>
      chain log' p (g es)"
    and "head log' = head (fix_up_readers log len)" "r_off log' = r_off (fix_up_readers log len)"
  shows "chains_map (\<lambda>es. g (kept (log_size log) len es)) log log'"
proof -
  have wf: "log_wf log" using assms(1) by (simp add: log_inv_def)
  show ?thesis
    using fix_up_readers_chains(1) [OF assms(1-3)] chain_moved(2) [OF wf _ assms(2,3)] assms(4-6)
    by (fastforce simp: chains_map_def)
qed

lemma write_body_ok:
  fixes segs stamp log
  defines "payload \<equiv> take LOGGER_ENTRY_MAX_PAYLOAD (concat (map seg_bytes segs))"
  defines "e \<equiv> new_entry stamp payload"
  defines "l1 \<equiv> fix_up_readers log (length e)"
  assumes inv: "log_inv log"
    and ws: "write_segs (length payload) segs 0
      (do_write_log l1 (entry_bytes (stamp\<lparr>e_len := of_nat (length payload)\<rparr>))) = (r, l3)" "0 \<le> r"
  shows "r = int (length payload)" "same_frame l3 l1"
    "buffer l3 = ring_put (log_size log) (w_off log) e (buffer l1)"
    "w_off l3 = (w_off log + length e) mod log_size log"
proof -
  define hdr where "hdr = entry_bytes (stamp\<lparr>e_len := of_nat (length payload)\<rparr>)"
  have e: "e = hdr @ payload" and h: "length hdr = LOGGER_ENTRY_SIZE"
    by (simp_all add: e_def new_entry_def hdr_def)
  have pl: "length payload \<le> LOGGER_ENTRY_MAX_PAYLOAD" by (simp add: payload_def)
  have le: "0 < length e" "length e \<le> LOGGER_ENTRY_MAX_LEN" using pl by (simp_all add: e h logger_consts)
  note f = fix_up_readers_chains [OF inv le, folded l1_def]
  have sz: "length e \<le> log_size log" using inv le by (auto simp: log_inv_def log_wf_def)
  have d: "do_write_log l1 hdr = l1\<lparr>buffer := ring_put (log_size log) (w_off log) hdr (buffer l1),
      w_off := (w_off log + length hdr) mod log_size log\<rparr>"
    using do_write_log_eq [OF f(2), of hdr] sz e f by simp
  then have wf2: "log_wf (do_write_log l1 hdr)" using f(2,3) by (auto simp: log_wf_def)
  have tk: "take (length payload) (concat (map seg_bytes segs)) = payload"
    by (simp add: payload_def min_def)
  have "length payload - 0 \<le> log_size (do_write_log l1 hdr)" using sz e by (simp add: d f(3))
  from write_segs_ok [OF wf2 _ this ws [folded hdr_def]] have
    l3: "r = int (length payload)" "same_frame l3 (do_write_log l1 hdr)"
      "buffer l3 = ring_put (log_size log) ((w_off log + length hdr) mod log_size log) payload
         (ring_put (log_size log) (w_off log) hdr (buffer l1))"
      "w_off l3 = ((w_off log + length hdr) mod log_size log + length payload) mod log_size log"
    by (auto simp: d f(3) tk)
  show "r = int (length payload)" by (fact l3(1))
  show "buffer l3 = ring_put (log_size log) (w_off log) e (buffer l1)"
    unfolding l3(3) e using inv sz e by (intro ring_put_append) (auto simp: log_inv_def log_wf_def)
  show "w_off l3 = (w_off log + length e) mod log_size log"
    using l3(4) by (simp add: e mod_add_left_eq add.assoc)
  show "same_frame l3 l1" using l3(2) by (simp add: d same_frame_def)
qed

lemma logger_aio_write_ok:
  fixes segs stamp log
  defines "payload \<equiv> take LOGGER_ENTRY_MAX_PAYLOAD (concat (map seg_bytes segs))"
  defines "e \<equiv> new_entry stamp payload"
  assumes inv: "log_inv log" and ki: "ki_left = length (concat (map seg_bytes segs))" "0 < ki_left"
    and wr: "logger_aio_write stamp ki_left segs log = (r, log')" "0 \<le> r"
  shows "r = int (length payload)" "log_inv log'"
    "chains_map (\<lambda>es. kept (log_size log) (length e) es @ [e]) log log'"
    "log_size log' = log_size log" "readers log' = readers log"
proof -
  have pl: "length payload \<le> LOGGER_ENTRY_MAX_PAYLOAD" "payload \<noteq> []"
    "min ki_left LOGGER_ENTRY_MAX_PAYLOAD = length payload"
    using ki by (auto simp: payload_def logger_consts min.commute)
  have le: "length e = LOGGER_ENTRY_SIZE + length payload" by (simp add: e_def new_entry_def)
  then have le2: "0 < length e" "length e \<le> LOGGER_ENTRY_MAX_LEN" using pl by (simp_all add: logger_consts)
  define l1 where "l1 = fix_up_readers log (length e)"
  note f = fix_up_readers_chains [OF inv le2, folded l1_def]
  obtain r3 l3 where ws: "write_segs (length payload) segs 0
      (do_write_log l1 (entry_bytes (stamp\<lparr>e_len := of_nat (length payload)\<rparr>))) = (r3, l3)" by fastforce
  have r3: "r3 = r" "0 \<le> r3" and lg: "log' = (if take 2 (klog_buf l3) = [33, 64]
      then l3\<lparr>printed_log := printed_log l3 @ [takeWhile (\<lambda>b. b \<noteq> 0) (klog_buf l3)]\<rparr> else l3)"
    using wr ws pl by (auto simp: logger_aio_write_def Let_def le [symmetric] l1_def [symmetric] split: if_splits)
  note l3 = write_body_ok [OF inv ws [unfolded l1_def e_def payload_def] r3(2),
      folded payload_def, folded e_def, folded l1_def]
  have s': "log_size log' = log_size log" "head log' = head l1" "readers log' = readers log"
    "r_off log' = r_off l1" "buffer log' = buffer l3" "w_off log' = w_off l3"
    using l3(2) f by (auto simp: lg same_frame_def)
  have ewf: "entry_wf e" using entry_wf_new [OF pl(1), of payload] by (simp add: e_def new_entry_def)
  show "r = int (length payload)" using l3(1) r3 by simp
  show cm: "chains_map (\<lambda>es. kept (log_size log) (length e) es @ [e]) log log'"
  proof (rule chains_map_kept [OF inv le2])
    show "head log' = head (fix_up_readers log (length e))" "r_off log' = r_off (fix_up_readers log (length e))"
      by (simp_all add: s' l1_def)
    fix p es assume "chain (fix_up_readers log (length e)) p es" "length (concat es) + length e < log_size log"
    then show "chain log' p (es @ [e])"
      unfolding l1_def [symmetric]
      by (intro chain_append [where log = l1]) (simp_all add: ewf s' f l3)
  qed
  have "log_wf log'" using inv by (auto simp: log_inv_def log_wf_def s' l3(4))
  then show "log_inv log'" by (rule log_inv_map [OF inv cm _ s'(3)])
  show "log_size log' = log_size log" "readers log' = readers log" by (fact s')+
qed

lemma logger_aio_write_no_fault:
  assumes "\<forall>seg\<in>set segs. \<not> seg_fault1 seg \<and> \<not> seg_fault2 seg"
  shows "0 \<le> fst (logger_aio_write stamp ki_left segs log)"
  using write_segs_no_fault [OF assms]
  by (auto simp: logger_aio_write_def Let_def split: prod.splits) (metis fst_conv not_less)

lemma logger_aio_write_fault:
  assumes inv: "log_inv log" and "logger_aio_write stamp ki_left segs log = (ret, log')" "ret < 0"
  shows "ret = - EFAULT \<and> log_inv log' \<and> log_size log' = log_size log \<and> readers log' = readers log \<and>
    chains_map (kept (log_size log) (LOGGER_ENTRY_SIZE + min ki_left LOGGER_ENTRY_MAX_PAYLOAD)) log log'"
proof -
  define hlen where "hlen = min ki_left LOGGER_ENTRY_MAX_PAYLOAD"
  define len where "len = LOGGER_ENTRY_SIZE + hlen"
  define hdr where "hdr = entry_bytes (stamp\<lparr>e_len := of_nat hlen\<rparr>)"
  define l1 where "l1 = fix_up_readers log len"
  have le: "0 < len" "len \<le> LOGGER_ENTRY_MAX_LEN" by (auto simp: len_def hlen_def logger_consts)
  note f = fix_up_readers_chains [OF inv le, folded l1_def]
  have sz: "len \<le> log_size log" using inv le by (auto simp: log_inv_def log_wf_def)
  have h: "length hdr = LOGGER_ENTRY_SIZE" by (simp add: hdr_def)
  have d: "do_write_log l1 hdr = l1\<lparr>buffer := ring_put (log_size log) (w_off log) hdr (buffer l1),
      w_off := (w_off log + length hdr) mod log_size log\<rparr>"
    using do_write_log_eq [OF f(2), of hdr] sz h f by (simp add: len_def)
  have wf2: "log_wf (do_write_log l1 hdr)" using f(2,3) by (auto simp: d log_wf_def)
  obtain r3 l3 where w3: "write_segs hlen segs 0 (do_write_log l1 hdr) = (r3, l3)" by fastforce
  have l3: "write_segs hlen segs 0 (do_write_log l1 hdr) = (ret, l3)" "log' = l3\<lparr>w_off := w_off log\<rparr>"
    using assms(2,3) w3 unfolding logger_aio_write_def Let_def hlen_def [symmetric] len_def [symmetric]
      l1_def [symmetric] hdr_def [symmetric] by (auto split: if_splits)
  have "hlen - 0 \<le> log_size (do_write_log l1 hdr)" using sz by (simp add: d f(3) len_def)
  note w = write_segs_frame [OF wf2 _ this l3(1)]
  have s': "log_size log' = log_size log" "head log' = head l1" "r_off log' = r_off l1"
    "readers log' = readers log" "w_off log' = w_off log"
    using w f by (auto simp: l3(2) d same_frame_def)
  have w0: "w_off log < log_size log" using inv by (simp add: log_inv_def log_wf_def)
  have fr: "buffer log' j = buffer l1 j" if j: "j < log_size log" "len \<le> ring_dist (log_size log) (w_off log) j" for j
  proof -
    have "hlen \<le> ring_dist (log_size log) ((w_off log + length hdr) mod log_size log) j"
      using w0 j sz h by (auto simp: ring_dist_def mod_add_if len_def split: if_splits)
    then have "buffer log' j = ring_put (log_size log) (w_off log) hdr (buffer l1) j"
      using w j by (simp add: l3(2) d f(3))
    then show ?thesis using j h by (simp add: ring_put_def len_def)
  qed
  have cm: "chains_map (\<lambda>es. kept (log_size log) len es) log log'"
  proof (rule chains_map_kept [OF inv le, where g = "\<lambda>es. es"])
    show "head log' = head (fix_up_readers log len)" "r_off log' = r_off (fix_up_readers log len)"
      by (simp_all add: s' l1_def)
    fix p es assume c: "chain (fix_up_readers log len) p es" "length (concat es) + len < log_size log"
    show "chain log' p es"
    proof (rule chain_keep)
      show "chain l1 p es" using c(1) by (simp add: l1_def)
      show "length (concat es) + len \<le> log_size l1" using c(2) f(3) by simp
      show "\<forall>j<log_size l1. len \<le> ring_dist (log_size l1) (w_off l1) j \<longrightarrow> buffer log' j = buffer l1 j"
        unfolding f(3,5) using fr by blast
      show "log_size log' = log_size l1" "w_off log' = w_off l1" using s' f(3,5) by simp_all
    qed
  qed
  have "log_wf log'" using inv by (simp add: log_inv_def log_wf_def s')
  then have "log_inv log'" by (rule log_inv_map [OF inv cm _ s'(4)])
  then show ?thesis
    using cm w assms(3) s' by (simp add: len_def hlen_def)
qed

section \<open>Reading\<close>

lemma chain_head_read:
  assumes "log_wf log" "chain log (r_off log r) (e # es)"
  shows "do_read_log_to_user False False log r (length e) =
    (int (length e), e, log\<lparr>r_off := (r_off log)(r := (r_off log r + length e) mod log_size log)\<rparr>)"
proof -
  note c = chain_Cons [OF assms(2)]
  have p: "r_off log r < log_size log" "length e \<le> log_size log"
    using assms(2) by (auto simp: chain_def)
  define len where "len = min (length e) (log_size log - r_off log r)"
  have "(if length e \<noteq> len then mem_get (r_off log r) len (buffer log) @ mem_get 0 (length e - len) (buffer log)
      else mem_get (r_off log r) len (buffer log)) = e"
    using mem_get_ring [of "r_off log r" log "length e" len] p c(1) by (auto simp: len_def mem_get_def)
  then show ?thesis
    by (simp only: do_read_log_to_user_def Let_def len_def [symmetric] logger_offset_mod [OF assms(1)]) simp
qed

lemma chain_in_bounds: "chain log p es \<Longrightarrow> p < log_size log"
  by (simp add: chain_def)

lemma chain_here: "log_wf log \<Longrightarrow> chain log (w_off log) []"
  by (simp add: chain_def log_wf_def ring_bytes_def)

lemma flush_readers:
  "fold (\<lambda>r log. log\<lparr>r_off := (r_off log)(r := w_off log)\<rparr>) rs log =
     log\<lparr>r_off := (\<lambda>r. if r \<in> set rs then w_off log else r_off log r)\<rparr>"
  by (induction rs arbitrary: log) (auto simp: fun_eq_iff intro!: logger_log.equality)

section \<open>The device as a transition system\<close>

text \<open>
  One step is one call of a file operation.  A write passes in \<open>ki_left\<close> the summed length of its
  segments, as the vectored write path does; an opened reader is newly allocated memory; the reader
  of an open file is on the list of its log.
\<close>

inductive log_step :: "logger_log \<Rightarrow> logger_log \<Rightarrow> bool" where
  open_step: "reader = Some r \<Longrightarrow> r \<notin> set (readers log) \<Longrightarrow>
    logger_open seekable reader file (Some log) = (ret, file', Some log') \<Longrightarrow> log_step log log'"
| release_step: "f_reader file \<in> set (readers log) \<Longrightarrow>
    logger_release file log = (ret, log') \<Longrightarrow> log_step log log'"
| read_step: "f_reader file \<in> set (readers log) \<Longrightarrow>
    logger_read sig fault1 fault2 file cnt log = Some (ret, out, log') \<Longrightarrow> log_step log log'"
| write_step: "ki_left = length (concat (map seg_bytes segs)) \<Longrightarrow>
    logger_aio_write stamp ki_left segs log = (ret, log') \<Longrightarrow> log_step log log'"
| ioctl_step: "logger_ioctl file cmd log = (ret, log') \<Longrightarrow> log_step log log'"

inductive_cases log_stepE: "log_step log log'"

inductive log_reachable :: "nat \<Rightarrow> logger_log \<Rightarrow> bool" for k where
  log_start: "w_off log = 0 \<Longrightarrow> head log = 0 \<Longrightarrow> readers log = [] \<Longrightarrow> log_size log = 2 ^ k \<Longrightarrow>
    log_reachable k log"
| log_next: "log_reachable k log \<Longrightarrow> log_step log log' \<Longrightarrow> log_reachable k log'"

lemma log_inv_open:
  assumes "log_inv log" "r \<notin> set (readers log)"
    and "logger_open seekable (Some r) file (Some log) = (ret, file', Some log')"
  shows "log_inv log'"
proof -
  have "log' = log \<or> log' = log\<lparr>r_off := (r_off log)(r := head log), readers := readers log @ [r]\<rparr>"
    using assms(3) by (auto simp: logger_open_def split: if_splits)
  moreover have "chain (log\<lparr>r_off := x, readers := y\<rparr>) = chain log" for x y
    by (intro ext chain_cong) simp_all
  ultimately show ?thesis
    using assms(1,2) by (auto simp: log_inv_def log_wf_def)
qed

lemma log_inv_release:
  assumes "log_inv log" "logger_release file log = (ret, log')"
  shows "log_inv log'"
proof -
  have "chain (log\<lparr>readers := y\<rparr>) = chain log" for y
    by (intro ext chain_cong) simp_all
  then show ?thesis
    using assms set_remove1_subset [of "f_reader file" "readers log"]
    by (auto simp: logger_release_def log_inv_def log_wf_def split: if_splits)
qed

lemma log_inv_ioctl:
  assumes "log_inv log" "logger_ioctl file cmd log = (ret, log')"
  shows "log_inv log'"
proof -
  have c: "chain (log\<lparr>r_off := x, head := y\<rparr>) = chain log" for x y
    by (intro ext chain_cong) simp_all
  have "chain log (w_off log) []" using assms(1) chain_here by (simp add: log_inv_def)
  then show ?thesis
    using assms by (auto simp: logger_ioctl_def flush_readers log_inv_def log_wf_def c Let_def
        split: logger_cmd.splits if_splits)
qed

lemma log_inv_read:
  assumes "log_inv log" "f_reader file \<in> set (readers log)"
    and "logger_read sig fault1 fault2 file cnt log = Some (ret, out, log')"
  shows "log_inv log'"
proof -
  define r where "r = f_reader file"
  obtain es where es: "chain log (r_off log r) es" using assms(1,2) by (auto simp: log_inv_def r_def)
  have wf: "log_wf log" using assms(1) by (simp add: log_inv_def)
  show ?thesis
  proof (cases "log' = log")
    case False
    define p where "p = (r_off log r + get_entry_len log (r_off log r)) mod log_size log"
    have ne: "w_off log \<noteq> r_off log r" and lg: "log' = log\<lparr>r_off := (r_off log)(r := p)\<rparr>"
      using assms(3) False
      by (auto simp: logger_read_def Let_def r_def p_def do_read_log_to_user_def logger_offset_mod [OF wf]
          split: if_splits)
    from ne es obtain e es' where "es = e # es'" using chain_empty_iff [OF es] by (cases es) auto
    with chain_Cons [of log "r_off log r" e es'] es have p: "chain log p es'" by (simp add: p_def)
    have "chain (log\<lparr>r_off := x\<rparr>) = chain log" for x
      by (intro ext chain_cong) simp_all
    with p show ?thesis using assms(1) by (auto simp: lg log_inv_def log_wf_def)
  qed (use assms(1) in simp)
qed

lemma log_inv_write:
  assumes "log_inv log" "ki_left = length (concat (map seg_bytes segs))"
    and "logger_aio_write stamp ki_left segs log = (ret, log')"
  shows "log_inv log'"
proof (cases "ki_left = 0")
  case True
  then show ?thesis using assms(1,3) by (simp add: logger_aio_write_def)
next
  case False
  then show ?thesis
    using logger_aio_write_fault [OF assms(1,3)] logger_aio_write_ok(2) [OF assms(1,2) _ assms(3)]
    by (cases "ret < 0") auto
qed

lemma log_inv_step: "log_step log log' \<Longrightarrow> log_inv log \<Longrightarrow> log_inv log'"
  by (elim log_stepE) (auto intro: log_inv_open log_inv_release log_inv_read log_inv_write log_inv_ioctl)

lemma log_size_write:
  assumes "log_inv log" "ki_left = length (concat (map seg_bytes segs))"
    and "logger_aio_write stamp ki_left segs log = (ret, log')"
  shows "log_size log' = log_size log"
proof (cases "ki_left = 0")
  case True
  then show ?thesis using assms(1,3) by (simp add: logger_aio_write_def)
next
  case False
  then show ?thesis
    using logger_aio_write_fault [OF assms(1,3)] logger_aio_write_ok(4) [OF assms(1,2) _ assms(3)]
    by (cases "ret < 0") auto
qed

lemma log_size_step: "log_step log log' \<Longrightarrow> log_inv log \<Longrightarrow> log_size log' = log_size log"
proof (elim log_stepE)
  fix fd cmd ret assume "logger_ioctl fd cmd log = (ret, log')"
  then show "log_size log' = log_size log"
    by (auto simp: logger_ioctl_def flush_readers Let_def split: logger_cmd.splits if_splits)
qed (auto simp: logger_open_def logger_release_def logger_read_def do_read_log_to_user_def Let_def
      log_size_write split: if_splits)

lemma log_inv_start:
  assumes "w_off log = 0" "head log = 0" "\<forall>r\<in>set (readers log). r_off log r = 0" "distinct (readers log)"
    and "log_size log = 2 ^ k" "13 \<le> k"
  shows "log_inv log"
proof -
  have "(2 :: nat) ^ 13 \<le> 2 ^ k" using assms(6) by (intro power_increasing) simp_all
  then have "log_wf log" using assms by (auto simp: log_wf_def LOGGER_ENTRY_MAX_LEN_def)
  then show ?thesis using assms chain_here [of log] by (auto simp: log_inv_def)
qed

section \<open>Properties\<close>

definition log0 :: logger_log where
  "log0 = \<lparr>buffer = (\<lambda>_. 0), w_off = 0, head = 0, log_size = 8192, readers = [1], r_off = (\<lambda>_. 0),
           klog_buf = replicate 256 0, printed_log = []\<rparr>"

definition stamp0 :: logger_entry where
  "stamp0 = \<lparr>e_len = 0, e_pad = 0, e_pid = 7, e_tid = 8, e_sec = 9, e_nsec = 10\<rparr>"

definition seg0 :: user_seg where
  "seg0 = \<lparr>seg_bytes = [104, 105], seg_fault1 = False, seg_fault2 = False, seg_left = []\<rparr>"

lemma seg0_simps: "seg_bytes seg0 = [104, 105]" "\<not> seg_fault1 seg0" "\<not> seg_fault2 seg0"
  by (simp_all add: seg0_def)

lemma log0_inv: "log_inv log0"
  by (rule log_inv_start [where k = 13]) (simp_all add: log0_def)

lemma log0_chain: "chain log0 0 []"
  by (simp add: chain_def ring_bytes_def log0_def)



text \<open>
  (C29) A read returns the oldest entry the reader has not seen, whole, and advances only this reader
  and only past this entry.  A buffer that is too small gives \<open>EINVAL\<close>, a fault \<open>EFAULT\<close>, and both
  leave the entry to be read again.  With nothing to read, the call does not return unless the file is
  non-blocking (\<open>EAGAIN\<close>) or a signal is pending (\<open>EINTR\<close>).
\<close>

theorem logger_read_next:
  assumes "log_inv log" "r = f_reader file" "chain log (r_off log r) es"
  shows "logger_read sig fault1 fault2 file cnt log =
    (case es of
       [] \<Rightarrow> if f_nonblock file then Some (- EAGAIN, [], log)
             else if sig then Some (- EINTR, [], log) else None
     | e # es' \<Rightarrow>
         if cnt < length e then Some (- EINVAL, [], log)
         else if fault1 then Some (- EFAULT, [], log)
         else if fault2 \<and> log_size log < r_off log r + length e
           then Some (- EFAULT, take (log_size log - r_off log r) e, log)
         else Some (int (length e), e, log\<lparr>r_off := (r_off log)(r := (r_off log r + length e) mod log_size log)\<rparr>))
    \<and> (\<forall>e es'. es = e # es' \<longrightarrow> chain log ((r_off log r + length e) mod log_size log) es')"
proof (cases es)
  case Nil
  then show ?thesis using chain_empty_iff [OF assms(3)] by (simp add: logger_read_def assms(2))
next
  case (Cons e es')
  have wf: "log_wf log" using assms(1) by (simp add: log_inv_def)
  have c: "chain log (r_off log r) (e # es')" using assms(3) Cons by simp
  note cc = chain_Cons [OF c]
  have ne: "w_off log \<noteq> r_off log r" using chain_empty_iff [OF c] by simp
  note ok = chain_head_read [OF wf c]
  have "do_read_log_to_user fault1 fault2 log r (length e) =
      (if fault1 then (- EFAULT, [], log)
       else if fault2 \<and> log_size log < r_off log r + length e
         then (- EFAULT, take (log_size log - r_off log r) e, log)
       else do_read_log_to_user False False log r (length e))"
  proof -
    have "mem_get (r_off log r) (log_size log - r_off log r) (buffer log) = take (log_size log - r_off log r) e"
      if "log_size log < r_off log r + length e"
    proof -
      have "e = mem_get (r_off log r) (log_size log - r_off log r) (buffer log)
          @ mem_get 0 (length e - (log_size log - r_off log r)) (buffer log)"
        using ok that chain_in_bounds [OF c] by (simp add: do_read_log_to_user_def Let_def min_def split: if_splits)
      moreover have "length (mem_get a n m) = n" for a n m by (simp add: mem_get_def)
      ultimately show ?thesis by (metis append_eq_conv_conj)
    qed
    then show ?thesis
      using chain_in_bounds [OF c] by (auto simp: do_read_log_to_user_def Let_def min_def)
  qed
  then show ?thesis
    using ne cc(2,3) ok by (simp add: logger_read_def Let_def Cons assms(2))
qed

definition entry0 :: "u8 list" where
  "entry0 = new_entry stamp0 [104, 105]"

definition log1 :: logger_log where
  "log1 = log0\<lparr>buffer := mem_put 0 entry0 (\<lambda>_. 0), w_off := 22\<rparr>"

definition fd0 :: logger_file where
  "fd0 = \<lparr>f_read = True, f_write = False, f_nonblock = False, f_reader = 1\<rparr>"

lemma entry0_eq: "entry0 = [2, 0, 0, 0, 7, 0, 0, 0, 8, 0, 0, 0, 9, 0, 0, 0, 10, 0, 0, 0, 104, 105]"
  by (simp add: entry0_def new_entry_def entry_bytes_def bytes16_def bytes32_def stamp0_def)

lemma log1_chain: "chain log1 0 [entry0]"
  by (simp add: chain_def log1_def log0_def ring_bytes_def mem_put_def entry_wf_def entry0_eq le16_def
      logger_consts upt_rec)

lemma log1_inv: "log_inv log1"
  using log1_chain by (auto simp: log_inv_def log_wf_def log1_def log0_def logger_consts intro: exI [of _ 13])

theorem logger_read_next_witness:
  "logger_read False False False fd0 100 log1 = Some (22, entry0, log1\<lparr>r_off := (\<lambda>_. 0)(1 := 22)\<rparr>)"
proof -
  have "f_reader fd0 = 1" "r_off log1 = (\<lambda>_. 0)" "log_size log1 = 8192"
    by (simp_all add: fd0_def log1_def log0_def)
  moreover have "length entry0 = 22" by (simp add: entry0_eq)
  ultimately show ?thesis
    using logger_read_next [OF log1_inv refl, of fd0 "[entry0]" False False False 100] log1_chain by simp
qed


definition log_empty :: logger_log where
  "log_empty = log0\<lparr>readers := []\<rparr>"

lemma log_empty_reachable: "log_reachable 13 log_empty"
  by (rule log_start) (simp_all add: log_empty_def log0_def)



definition seg_bad :: user_seg where
  "seg_bad = \<lparr>seg_bytes = [1], seg_fault1 = True, seg_fault2 = True, seg_left = [99]\<rparr>"


text \<open>
  The capture of platform messages reads past the ring.  When the payload starts on the last byte of
  the ring, what \<open>do_write_log_from_user\<close> copies into \<open>klog_buf\<close> depends on memory outside of it.
\<close>

lemma klog_capture_overrun:
  "\<exists>log m. log_wf log \<and> (\<forall>j<log_size log. m j = buffer log j) \<and>
     klog_capture log 2 \<noteq> klog_capture (log\<lparr>buffer := m\<rparr>) 2"
proof -
  define l where "l = log0\<lparr>w_off := 8191, buffer := (\<lambda>_. 64)(8191 := 33)\<rparr>"
  define m :: "nat \<Rightarrow> u8" where "m = (\<lambda>_. 64)(8191 := 33, 8192 := 0)"
  have "log_wf l" by (auto simp: l_def log0_def log_wf_def logger_consts intro: exI [of _ 13])
  moreover have "\<forall>j<log_size l. m j = buffer l j" by (simp add: l_def log0_def m_def)
  moreover have "klog_capture l 2 ! 0 = 33" "klog_capture (l\<lparr>buffer := m\<rparr>) 2 ! 0 = 0"
    by (simp_all add: klog_capture_def l_def log0_def m_def mem_get_def nth_append)
  then have "klog_capture l 2 \<noteq> klog_capture (l\<lparr>buffer := m\<rparr>) 2" by auto
  ultimately show ?thesis by blast
qed

end
