(* ===== verification/Ashmem.thy ===== *)
theory Ashmem
  imports Kernel_Prelude
begin

text \<open>
  The anonymous shared memory device, \<open>mm/ashmem.c\<close>: areas, the ranges of unpinned pages of each area,
  and the list of unpurged ranges in the order they were unpinned.

  The areas, the ranges and the two kinds of lists form one state.  A list head is the list of the
  pointers to its entries, first to last; the list operations are those of \<open>List_Head\<close>.  The allocator
  is a parameter: a call that may allocate takes the result of \<open>kmem_cache_zalloc\<close>, \<open>None\<close> when there
  is no memory.  \<open>ashmem_mutex\<close> is elided, every call is one atomic step.
\<close>

section \<open>Constants and data\<close>

definition ASHMEM_NAME_LEN :: nat where "ASHMEM_NAME_LEN = 256"
definition ASHMEM_NAME_DEF :: string where "ASHMEM_NAME_DEF = ''dev/ashmem''"
definition ASHMEM_NAME_PREFIX :: string where "ASHMEM_NAME_PREFIX = ''dev/ashmem/''"
definition ASHMEM_NAME_PREFIX_LEN :: nat where "ASHMEM_NAME_PREFIX_LEN = length ASHMEM_NAME_PREFIX"
definition ASHMEM_FULL_NAME_LEN :: nat where
  "ASHMEM_FULL_NAME_LEN = ASHMEM_NAME_LEN + ASHMEM_NAME_PREFIX_LEN"

definition ASHMEM_NOT_PURGED :: u32 where "ASHMEM_NOT_PURGED = 0"
definition ASHMEM_WAS_PURGED :: u32 where "ASHMEM_WAS_PURGED = 1"
definition ASHMEM_IS_UNPINNED :: int where "ASHMEM_IS_UNPINNED = 0"
definition ASHMEM_IS_PINNED :: int where "ASHMEM_IS_PINNED = 1"

definition PROT_READ :: u32 where "PROT_READ = 1"
definition PROT_WRITE :: u32 where "PROT_WRITE = 2"
definition PROT_EXEC :: u32 where "PROT_EXEC = 4"
definition PROT_MASK :: u32 where "PROT_MASK = PROT_EXEC OR PROT_READ OR PROT_WRITE"
definition READ_IMPLIES_EXEC :: u32 where "READ_IMPLIES_EXEC = 0x0400000"
definition VM_READ :: u32 where "VM_READ = 1"
definition VM_WRITE :: u32 where "VM_WRITE = 2"
definition VM_EXEC :: u32 where "VM_EXEC = 4"
definition VM_SHARED :: u32 where "VM_SHARED = 8"
definition VM_MAYREAD :: u32 where "VM_MAYREAD = 0x10"
definition VM_MAYWRITE :: u32 where "VM_MAYWRITE = 0x20"
definition VM_MAYEXEC :: u32 where "VM_MAYEXEC = 0x40"
definition VM_CAN_NONLINEAR :: u32 where "VM_CAN_NONLINEAR = 0x08000000"
definition GFP_FS :: u32 where "GFP_FS = 0x80"
definition GFP_KERNEL :: u32 where "GFP_KERNEL = 0x10 OR 0x40 OR GFP_FS"
definition PAGE_SIZE :: u32 where "PAGE_SIZE = push_bit 12 1"
definition PAGE_ALIGN :: "u32 \<Rightarrow> u32" where
  "PAGE_ALIGN a = (a + (PAGE_SIZE - 1)) AND NOT (PAGE_SIZE - 1)"

lemmas prot_defs = PROT_READ_def PROT_WRITE_def PROT_EXEC_def PROT_MASK_def VM_READ_def VM_WRITE_def
  VM_EXEC_def VM_SHARED_def VM_MAYREAD_def VM_MAYWRITE_def VM_MAYEXEC_def VM_CAN_NONLINEAR_def

record ashmem_area =
  a_name :: string
  unpinned_list :: "ptr list"
  a_file :: ptr
  a_size :: u32
  vm_start :: u32
  prot_mask :: u32

record ashmem_range =
  asma :: ptr
  pgstart :: u32
  pgend :: u32
  purged :: u32

text \<open>
  \<open>open_areas\<close> are the areas of the open files, \<open>truncated\<close> the calls of \<open>vmtruncate_range\<close> so far.
\<close>

record ashmem =
  areas :: "ptr \<Rightarrow> ashmem_area"
  ranges :: "ptr \<Rightarrow> ashmem_range"
  ashmem_lru_list :: "ptr list"
  lru_count :: u32
  open_areas :: "ptr list"
  truncated :: "(ptr \<times> nat \<times> nat) list"

section \<open>Ranges\<close>

definition range_size :: "ashmem_range \<Rightarrow> u32" where
  "range_size r = pgend r - pgstart r + 1"

definition range_on_lru :: "ashmem_range \<Rightarrow> bool" where
  "range_on_lru r \<longleftrightarrow> purged r = ASHMEM_NOT_PURGED"

definition page_range_subsumes_range :: "ashmem_range \<Rightarrow> u32 \<Rightarrow> u32 \<Rightarrow> bool" where
  "page_range_subsumes_range r s e \<longleftrightarrow> pgstart r \<ge> s \<and> pgend r \<le> e"

definition page_range_subsumed_by_range :: "ashmem_range \<Rightarrow> u32 \<Rightarrow> u32 \<Rightarrow> bool" where
  "page_range_subsumed_by_range r s e \<longleftrightarrow> pgstart r \<le> s \<and> pgend r \<ge> e"

definition page_in_range :: "ashmem_range \<Rightarrow> u32 \<Rightarrow> bool" where
  "page_in_range r p \<longleftrightarrow> pgstart r \<le> p \<and> pgend r \<ge> p"

definition page_range_in_range :: "ashmem_range \<Rightarrow> u32 \<Rightarrow> u32 \<Rightarrow> bool" where
  "page_range_in_range r s e \<longleftrightarrow>
     page_in_range r s \<or> page_in_range r e \<or> page_range_subsumes_range r s e"

definition range_before_page :: "ashmem_range \<Rightarrow> u32 \<Rightarrow> bool" where
  "range_before_page r p \<longleftrightarrow> pgend r < p"

definition lru_add :: "ptr \<Rightarrow> ashmem \<Rightarrow> ashmem" where
  "lru_add r st =
     st\<lparr>ashmem_lru_list := ashmem_lru_list st @ [r], lru_count := lru_count st + range_size (ranges st r)\<rparr>"

definition lru_del :: "ptr \<Rightarrow> ashmem \<Rightarrow> ashmem" where
  "lru_del r st =
     st\<lparr>ashmem_lru_list := remove1 r (ashmem_lru_list st),
        lru_count := lru_count st - range_size (ranges st r)\<rparr>"

text \<open>\<open>list_add_tail\<close> at an entry inserts before it, at the list head it appends.\<close>

fun insert_before :: "ptr \<Rightarrow> ptr option \<Rightarrow> ptr list \<Rightarrow> ptr list" where
  "insert_before r None xs = xs @ [r]"
| "insert_before r (Some p) [] = [r]"
| "insert_before r (Some p) (x # xs) = (if x = p then r # x # xs else x # insert_before r (Some p) xs)"

definition set_unpinned :: "ptr \<Rightarrow> (ptr list \<Rightarrow> ptr list) \<Rightarrow> ashmem \<Rightarrow> ashmem" where
  "set_unpinned a f st =
     st\<lparr>areas := (areas st)(a := (areas st a)\<lparr>unpinned_list := f (unpinned_list (areas st a))\<rparr>)\<rparr>"

definition range_alloc ::
    "ptr option \<Rightarrow> ptr \<Rightarrow> ptr option \<Rightarrow> u32 \<Rightarrow> u32 \<Rightarrow> u32 \<Rightarrow> ashmem \<Rightarrow> int \<times> ashmem" where
  "range_alloc alloc a prev_range p s e st =
     (case alloc of
        None \<Rightarrow> (- ENOMEM, st)
      | Some r \<Rightarrow>
          let st = st\<lparr>ranges := (ranges st)(r := \<lparr>asma = a, pgstart = s, pgend = e, purged = p\<rparr>)\<rparr>;
              st = set_unpinned a (insert_before r prev_range) st;
              st = (if range_on_lru (ranges st r) then lru_add r st else st)
          in (0, st))"

definition range_del :: "ptr \<Rightarrow> ashmem \<Rightarrow> ashmem" where
  "range_del r st =
     (let st = set_unpinned (asma (ranges st r)) (remove1 r) st
      in if range_on_lru (ranges st r) then lru_del r st else st)"

definition range_shrink :: "ptr \<Rightarrow> u32 \<Rightarrow> u32 \<Rightarrow> ashmem \<Rightarrow> ashmem" where
  "range_shrink r s e st =
     (let pre = range_size (ranges st r);
          st = st\<lparr>ranges := (ranges st)(r := (ranges st r)\<lparr>pgstart := s, pgend := e\<rparr>)\<rparr>
      in if range_on_lru (ranges st r)
         then st\<lparr>lru_count := lru_count st - (pre - range_size (ranges st r))\<rparr> else st)"

section \<open>Opening, releasing, reading, seeking\<close>

definition zero_char :: char where "zero_char = CHR 0x00"

text \<open>\<open>opened\<close> is what \<open>generic_file_open\<close> returned.\<close>

definition ashmem_open :: "int \<Rightarrow> ptr option \<Rightarrow> ashmem \<Rightarrow> int \<times> ashmem" where
  "ashmem_open opened alloc st =
     (if opened \<noteq> 0 then (opened, st)
      else case alloc of
          None \<Rightarrow> (- ENOMEM, st)
        | Some a \<Rightarrow>
            (0, st\<lparr>areas := (areas st)(a :=
                   \<lparr>a_name = ASHMEM_NAME_PREFIX @ replicate ASHMEM_NAME_LEN zero_char,
                    unpinned_list = [], a_file = NULL, a_size = 0, vm_start = 0, prot_mask = PROT_MASK\<rparr>),
                 open_areas := a # open_areas st\<rparr>))"

text \<open>The result names the file whose reference is dropped, if any.\<close>

definition ashmem_release :: "ptr \<Rightarrow> ashmem \<Rightarrow> int \<times> ptr \<times> ashmem" where
  "ashmem_release a st =
     (let st = fold range_del (unpinned_list (areas st a)) st
      in (0, a_file (areas st a), st\<lparr>open_areas := remove1 a (open_areas st)\<rparr>))"

text \<open>
  \<open>do_read\<close> and \<open>do_llseek\<close> are the results of the backing file's operations: the return value and the
  new position.  The results of the calls are the return value, and the position the caller's file
  and the backing file end with, if it is set.
\<close>

definition ashmem_read :: "int \<times> int \<Rightarrow> ptr \<Rightarrow> ashmem \<Rightarrow> int \<times> int option" where
  "ashmem_read do_read a st =
     (if a_size (areas st a) = 0 then (0, None)
      else if a_file (areas st a) = NULL then (- EBADF, None)
      else
        let (ret, pos) = do_read
        in if ret < 0 then (ret, None) else (ret, Some pos))"

text \<open>\<open>ashmem_llseek\<close> keeps the \<open>loff_t\<close> result in an \<open>int\<close>.\<close>

definition to_int :: "int \<Rightarrow> int" where
  "to_int i = signed_take_bit 31 i"

definition ashmem_llseek :: "int \<times> int \<Rightarrow> ptr \<Rightarrow> ashmem \<Rightarrow> int \<times> int option" where
  "ashmem_llseek do_llseek a st =
     (if a_size (areas st a) = 0 then (- EINVAL, None)
      else if a_file (areas st a) = NULL then (- EBADF, None)
      else
        let ret = to_int (fst do_llseek)
        in if ret < 0 then (ret, None) else (ret, Some (snd do_llseek)))"

section \<open>Mapping\<close>

definition calc_vm_trans :: "u32 \<Rightarrow> u32 \<Rightarrow> u32 \<Rightarrow> u32" where
  "calc_vm_trans x bit1 bit2 =
     (if bit1 \<le> bit2 then (x AND bit1) * (bit2 div bit1) else (x AND bit1) div (bit1 div bit2))"

definition calc_vm_prot_bits :: "u32 \<Rightarrow> u32" where
  "calc_vm_prot_bits prot =
     calc_vm_trans prot PROT_READ VM_READ OR calc_vm_trans prot PROT_WRITE VM_WRITE OR
     calc_vm_trans prot PROT_EXEC VM_EXEC"

definition calc_vm_may_flags :: "u32 \<Rightarrow> u32" where
  "calc_vm_may_flags prot =
     calc_vm_trans prot PROT_READ VM_MAYREAD OR calc_vm_trans prot PROT_WRITE VM_MAYWRITE OR
     calc_vm_trans prot PROT_EXEC VM_MAYEXEC"

record vm_area =
  vm_flags :: u32
  vma_start :: u32
  vm_file :: ptr
  shmem_ops :: bool

text \<open>
  \<open>setup\<close> is the result of \<open>shmem_file_setup\<close> for the given name, size and flags: an error number or the
  new backing file.  A shared mapping also gets the operations of shared memory; the reference counts
  of the files are not part of the state.
\<close>

definition ashmem_mmap ::
    "(string \<Rightarrow> u32 \<Rightarrow> u32 \<Rightarrow> int + ptr) \<Rightarrow> ptr \<Rightarrow> vm_area \<Rightarrow> ashmem \<Rightarrow> int \<times> vm_area \<times> ashmem" where
  "ashmem_mmap setup a vma st =
     (let area = areas st a in
      if a_size area = 0 then (- EINVAL, vma, st)
      else if (vm_flags vma AND NOT (calc_vm_prot_bits (prot_mask area))) AND calc_vm_prot_bits PROT_MASK \<noteq> 0
        then (- EPERM, vma, st)
      else
        let vma = vma\<lparr>vm_flags := vm_flags vma AND NOT (calc_vm_may_flags (NOT (prot_mask area)))\<rparr>;
            name = (if a_name area ! ASHMEM_NAME_PREFIX_LEN \<noteq> zero_char then a_name area
                    else ASHMEM_NAME_DEF @ [zero_char])
        in case (if a_file area = NULL then setup name (a_size area) (vm_flags vma) else Inr (a_file area)) of
             Inl err \<Rightarrow> (- err, vma, st)
           | Inr file \<Rightarrow>
               (0, vma\<lparr>vm_file := file, shmem_ops := shmem_ops vma \<or> vm_flags vma AND VM_SHARED \<noteq> 0,
                       vm_flags := vm_flags vma OR VM_CAN_NONLINEAR\<rparr>,
                st\<lparr>areas := (areas st)(a := area\<lparr>a_file := file, vm_start := vma_start vma\<rparr>)\<rparr>))"

section \<open>The shrinker\<close>

text \<open>
  The loop over the LRU list.  The counter is a C \<open>int\<close>.  \<open>loff_t start\<close> and \<open>end\<close> are computed in
  32-bit arithmetic.
\<close>

fun shrink_loop :: "ptr list \<Rightarrow> u32 \<Rightarrow> ashmem \<Rightarrow> ashmem" where
  "shrink_loop [] nr st = st"
| "shrink_loop (r # rs) nr st =
     (let R = ranges st r;
          s = pgstart R * PAGE_SIZE;
          e = (pgend R + 1) * PAGE_SIZE - 1;
          st = st\<lparr>truncated := truncated st @ [(a_file (areas st (asma R)), unat s, unat e)]\<rparr>;
          st = st\<lparr>ranges := (ranges st)(r := R\<lparr>purged := ASHMEM_WAS_PURGED\<rparr>)\<rparr>;
          st = lru_del r st;
          nr = nr - range_size (ranges st r)
      in if sint nr \<le> 0 then st else shrink_loop rs nr st)"

definition ashmem_shrink :: "bool \<Rightarrow> u32 \<Rightarrow> u32 \<Rightarrow> ashmem \<Rightarrow> int \<times> ashmem" where
  "ashmem_shrink trylock nr_to_scan gfp_mask st =
     (if nr_to_scan \<noteq> 0 \<and> gfp_mask AND GFP_FS = 0 then (- 1, st)
      else if nr_to_scan = 0 then (sint (lru_count st), st)
      else if \<not> trylock then (- 1, st)
      else
        let st = shrink_loop (ashmem_lru_list st) nr_to_scan st
        in (sint (lru_count st), st))"

section \<open>Protection mask and name\<close>

definition set_prot_mask :: "u32 \<Rightarrow> ptr \<Rightarrow> u32 \<Rightarrow> ashmem \<Rightarrow> int \<times> ashmem" where
  "set_prot_mask personality a prot st =
     (if prot_mask (areas st a) AND prot \<noteq> prot then (- EINVAL, st)
      else
        let prot = (if prot AND PROT_READ \<noteq> 0 \<and> personality AND READ_IMPLIES_EXEC \<noteq> 0
                    then prot OR PROT_EXEC else prot)
        in (0, st\<lparr>areas := (areas st)(a := (areas st a)\<lparr>prot_mask := prot\<rparr>)\<rparr>))"

text \<open>\<open>data\<close> is what \<open>copy_from_user\<close> leaves in the destination, \<open>fault\<close> whether it failed.\<close>

definition set_name :: "bool \<Rightarrow> string \<Rightarrow> ptr \<Rightarrow> ashmem \<Rightarrow> int \<times> ashmem" where
  "set_name fault data a st =
     (if a_file (areas st a) \<noteq> NULL then (- EINVAL, st)
      else
        let name = take ASHMEM_NAME_PREFIX_LEN (a_name (areas st a)) @ take ASHMEM_NAME_LEN data;
            name = name[ASHMEM_FULL_NAME_LEN - 1 := zero_char]
        in (if fault then - EFAULT else 0,
            st\<lparr>areas := (areas st)(a := (areas st a)\<lparr>a_name := name\<rparr>)\<rparr>))"

text \<open>The second result is the string given to \<open>copy_to_user\<close>, with its terminating zero.\<close>

definition get_name :: "bool \<Rightarrow> ptr \<Rightarrow> ashmem \<Rightarrow> int \<times> string" where
  "get_name fault a st =
     (let name = a_name (areas st a);
          out = (if name ! ASHMEM_NAME_PREFIX_LEN \<noteq> zero_char
                 then takeWhile (\<lambda>c. c \<noteq> zero_char) (drop ASHMEM_NAME_PREFIX_LEN name) @ [zero_char]
                 else ASHMEM_NAME_DEF @ [zero_char])
      in (if fault then - EFAULT else 0, out))"

section \<open>Pinning and unpinning\<close>

fun ashmem_pin_loop ::
    "ptr option \<Rightarrow> ptr \<Rightarrow> u32 \<Rightarrow> u32 \<Rightarrow> ptr list \<Rightarrow> u32 \<Rightarrow> ashmem \<Rightarrow> u32 \<times> ashmem" where
  "ashmem_pin_loop alloc a s e [] ret st = (ret, st)"
| "ashmem_pin_loop alloc a s e (r # rs) ret st =
     (let R = ranges st r in
      if range_before_page R s then (ret, st)
      else if page_range_in_range R s e then
        let ret = ret OR purged R in
        if page_range_subsumes_range R s e then ashmem_pin_loop alloc a s e rs ret (range_del r st)
        else if pgstart R \<ge> s then
          ashmem_pin_loop alloc a s e rs ret (range_shrink r (e + 1) (pgend R) st)
        else if pgend R \<le> e then
          ashmem_pin_loop alloc a s e rs ret (range_shrink r (pgstart R) (s - 1) st)
        else
          let (_, st) = range_alloc alloc a (Some r) (purged R) (e + 1) (pgend R) st
          in (ret, range_shrink r (pgstart R) (s - 1) st)
      else ashmem_pin_loop alloc a s e rs ret st)"

definition ashmem_pin :: "ptr option \<Rightarrow> ptr \<Rightarrow> u32 \<Rightarrow> u32 \<Rightarrow> ashmem \<Rightarrow> int \<times> ashmem" where
  "ashmem_pin alloc a s e st =
     (let (ret, st) = ashmem_pin_loop alloc a s e (unpinned_list (areas st a)) ASHMEM_NOT_PURGED st
      in (uint ret, st))"

text \<open>
  One pass of \<open>ashmem_unpin\<close> over the list: the range is already unpinned, an overlapping range has to
  be merged, or the insertion point is found.
\<close>

datatype unpin_scan = Already | Merge ptr | Insert "ptr option"

fun ashmem_unpin_scan :: "u32 \<Rightarrow> u32 \<Rightarrow> (ptr \<Rightarrow> ashmem_range) \<Rightarrow> ptr list \<Rightarrow> unpin_scan" where
  "ashmem_unpin_scan s e h [] = Insert None"
| "ashmem_unpin_scan s e h (r # rs) =
     (if range_before_page (h r) s then Insert (Some r)
      else if page_range_subsumed_by_range (h r) s e then Already
      else if page_range_in_range (h r) s e then Merge r
      else ashmem_unpin_scan s e h rs)"

lemma scan_merge_mem: "ashmem_unpin_scan s e h rs = Merge r \<Longrightarrow> r \<in> set rs"
  by (induction rs) (auto split: if_splits)

text \<open>
  A range on the list of \<open>a\<close> belongs to \<open>a\<close>; a merge with any other range, which \<open>range_del\<close> would take
  off another list, does not come back.
\<close>

function ashmem_unpin_loop ::
    "ptr option \<Rightarrow> ptr \<Rightarrow> u32 \<Rightarrow> u32 \<Rightarrow> u32 \<Rightarrow> ashmem \<Rightarrow> (int \<times> ashmem) option" where
  "ashmem_unpin_loop alloc a s e p st =
     (case ashmem_unpin_scan s e (ranges st) (unpinned_list (areas st a)) of
        Already \<Rightarrow> Some (0, st)
      | Merge r \<Rightarrow>
          let R = ranges st r in
          if asma R = a then
            ashmem_unpin_loop alloc a (min (pgstart R) s) (max (pgend R) e) (p OR purged R) (range_del r st)
          else None
      | Insert prev_range \<Rightarrow> Some (range_alloc alloc a prev_range p s e st))"
  by auto
termination
proof (relation "measure (\<lambda>(_, a, _, _, _, st). length (unpinned_list (areas st a)))", goal_cases)
  case (2 alloc a s e p st r R)
  then have "r \<in> set (unpinned_list (areas st a))" by (intro scan_merge_mem) simp
  then have "length (remove1 r (unpinned_list (areas st a))) < length (unpinned_list (areas st a))"
    by (metis One_nat_def Suc_pred length_pos_if_in_set length_remove1 lessI)
  then show ?case
    using 2 by (simp add: range_del_def lru_del_def set_unpinned_def Let_def)
qed simp

declare ashmem_unpin_loop.simps [simp del]

definition ashmem_unpin :: "ptr option \<Rightarrow> ptr \<Rightarrow> u32 \<Rightarrow> u32 \<Rightarrow> ashmem \<Rightarrow> (int \<times> ashmem) option" where
  "ashmem_unpin alloc a s e st = ashmem_unpin_loop alloc a s e ASHMEM_NOT_PURGED st"

fun pin_status_loop :: "u32 \<Rightarrow> u32 \<Rightarrow> ashmem_range list \<Rightarrow> int" where
  "pin_status_loop s e [] = ASHMEM_IS_PINNED"
| "pin_status_loop s e (R # Rs) =
     (if range_before_page R s then ASHMEM_IS_PINNED
      else if page_range_in_range R s e then ASHMEM_IS_UNPINNED
      else pin_status_loop s e Rs)"

definition ashmem_get_pin_status :: "ptr \<Rightarrow> u32 \<Rightarrow> u32 \<Rightarrow> ashmem \<Rightarrow> int" where
  "ashmem_get_pin_status a s e st = pin_status_loop s e (map (ranges st) (unpinned_list (areas st a)))"

section \<open>The device operations\<close>

datatype ashmem_cmd =
    ASHMEM_SET_NAME bool string
  | ASHMEM_GET_NAME bool
  | ASHMEM_SET_SIZE u32
  | ASHMEM_GET_SIZE
  | ASHMEM_SET_PROT_MASK u32
  | ASHMEM_GET_PROT_MASK
  | ASHMEM_PIN "(u32 \<times> u32) option"
  | ASHMEM_UNPIN "(u32 \<times> u32) option"
  | ASHMEM_GET_PIN_STATUS "(u32 \<times> u32) option"
  | ASHMEM_PURGE_ALL_CACHES bool
  | ASHMEM_CACHE_FLUSH_RANGE
  | ASHMEM_OTHER

text \<open>
  The bounds a pin request has to meet, and the pages it stands for.  The request is \<open>None\<close> when it
  cannot be copied from the user.
\<close>

definition pin_request :: "ashmem_area \<Rightarrow> (u32 \<times> u32) option \<Rightarrow> int + u32 \<times> u32" where
  "pin_request area pin =
     (if a_file area = NULL then Inl (- EINVAL)
      else case pin of
          None \<Rightarrow> Inl (- EFAULT)
        | Some (offset, len) \<Rightarrow>
            let len = (if len = 0 then PAGE_ALIGN (a_size area) - offset else len) in
            if (offset OR len) AND (PAGE_SIZE - 1) \<noteq> 0 then Inl (- EINVAL)
            else if (- 1) - offset < len then Inl (- EINVAL)
            else if PAGE_ALIGN (a_size area) < offset + len then Inl (- EINVAL)
            else
              let s = offset div PAGE_SIZE
              in Inr (s, s + (len div PAGE_SIZE) - 1))"

definition ashmem_pin_unpin :: "ptr option \<Rightarrow> ptr \<Rightarrow> ashmem_cmd \<Rightarrow> ashmem \<Rightarrow> (int \<times> ashmem) option" where
  "ashmem_pin_unpin alloc a cmd st =
     (case cmd of
        ASHMEM_PIN pin \<Rightarrow>
          (case pin_request (areas st a) pin of
             Inl err \<Rightarrow> Some (err, st) | Inr (s, e) \<Rightarrow> Some (ashmem_pin alloc a s e st))
      | ASHMEM_UNPIN pin \<Rightarrow>
          (case pin_request (areas st a) pin of
             Inl err \<Rightarrow> Some (err, st) | Inr (s, e) \<Rightarrow> ashmem_unpin alloc a s e st)
      | ASHMEM_GET_PIN_STATUS pin \<Rightarrow>
          (case pin_request (areas st a) pin of
             Inl err \<Rightarrow> Some (err, st) | Inr (s, e) \<Rightarrow> Some (ashmem_get_pin_status a s e st, st))
      | _ \<Rightarrow> Some (- EINVAL, st))"

text \<open>
  The page table walk: \<open>None\<close> at a level that is empty or bad, the page frame at the last one.
\<close>

definition kgsl_virtaddr_to_physaddr :: "(u32 \<Rightarrow> u32 option option option) \<Rightarrow> u32 \<Rightarrow> u32" where
  "kgsl_virtaddr_to_physaddr walk virtaddr =
     (case walk virtaddr of
        None \<Rightarrow> 0
      | Some None \<Rightarrow> 0
      | Some (Some None) \<Rightarrow> 0
      | Some (Some (Some pfn)) \<Rightarrow> push_bit 12 pfn)"

text \<open>The pages flushed from the outer cache, up to the first that has no physical address.\<close>

definition flush_pages :: "u32 \<Rightarrow> u32 \<Rightarrow> u32 list" where
  "flush_pages addr sz =
     takeWhile (\<lambda>end_addr. end_addr < addr + sz)
       (map (\<lambda>i. addr + of_nat i * PAGE_SIZE) [0..<unat (sz div PAGE_SIZE)])"

definition ashmem_flush_cache_range ::
    "(u32 \<Rightarrow> u32 option option option) \<Rightarrow> ptr \<Rightarrow> ashmem \<Rightarrow> int \<times> (u32 \<times> u32) list" where
  "ashmem_flush_cache_range walk a st =
     (let sz = a_size (areas st a); addr = vm_start (areas st a) in
      if addr = 0 \<or> addr AND (PAGE_SIZE - 1) \<noteq> 0 \<or> sz = 0 \<or> sz AND (PAGE_SIZE - 1) \<noteq> 0 then (0, [])
      else
        let phys = takeWhile (\<lambda>p. p \<noteq> 0) (map (kgsl_virtaddr_to_physaddr walk) (flush_pages addr sz))
        in (0, map (\<lambda>p. (p, p + PAGE_SIZE)) phys))"

text \<open>The results of the system call are its value and the new state.\<close>

definition ashmem_ioctl ::
    "(u32 \<Rightarrow> u32 option option option) \<Rightarrow> bool \<Rightarrow> u32 \<Rightarrow> ptr option \<Rightarrow> ptr \<Rightarrow> ashmem_cmd \<Rightarrow> ashmem \<Rightarrow>
     (int \<times> ashmem) option" where
  "ashmem_ioctl walk trylock personality alloc a cmd st =
     (case cmd of
        ASHMEM_SET_NAME fault data \<Rightarrow> Some (set_name fault data a st)
      | ASHMEM_GET_NAME fault \<Rightarrow> Some (fst (get_name fault a st), st)
      | ASHMEM_SET_SIZE arg \<Rightarrow>
          if a_file (areas st a) = NULL
          then Some (0, st\<lparr>areas := (areas st)(a := (areas st a)\<lparr>a_size := arg\<rparr>)\<rparr>)
          else Some (- EINVAL, st)
      | ASHMEM_GET_SIZE \<Rightarrow> Some (sint (a_size (areas st a)), st)
      | ASHMEM_SET_PROT_MASK arg \<Rightarrow> Some (set_prot_mask personality a arg st)
      | ASHMEM_GET_PROT_MASK \<Rightarrow> Some (sint (prot_mask (areas st a)), st)
      | ASHMEM_PIN pin \<Rightarrow> ashmem_pin_unpin alloc a cmd st
      | ASHMEM_UNPIN pin \<Rightarrow> ashmem_pin_unpin alloc a cmd st
      | ASHMEM_GET_PIN_STATUS pin \<Rightarrow> ashmem_pin_unpin alloc a cmd st
      | ASHMEM_PURGE_ALL_CACHES capable \<Rightarrow>
          if capable then
            let (ret, st) = ashmem_shrink trylock 0 GFP_KERNEL st;
                (_, st) = ashmem_shrink trylock (of_int ret) GFP_KERNEL st
            in Some (ret, st)
          else Some (- EPERM, st)
      | ASHMEM_CACHE_FLUSH_RANGE \<Rightarrow> Some (fst (ashmem_flush_cache_range walk a st), st)
      | ASHMEM_OTHER \<Rightarrow> Some (- ENOTTY, st))"

section \<open>Invariant\<close>

definition rsize :: "ashmem_range \<Rightarrow> nat" where
  "rsize R = unat (pgend R) + 1 - unat (pgstart R)"

definition range_wf :: "ptr \<Rightarrow> ashmem_range \<Rightarrow> bool" where
  "range_wf a R \<longleftrightarrow> asma R = a \<and> unat (pgstart R) \<le> unat (pgend R) + 1 \<and> (purged R = 0 \<or> purged R = 1)"

text \<open>The ranges of an area do not overlap and go from high pages to low ones.\<close>

definition descending :: "(ptr \<Rightarrow> ashmem_range) \<Rightarrow> ptr list \<Rightarrow> bool" where
  "descending h = sorted_wrt (\<lambda>r r'. pgend (h r') < pgstart (h r))"

definition area_inv :: "ashmem \<Rightarrow> ptr \<Rightarrow> bool" where
  "area_inv st a \<longleftrightarrow> distinct (unpinned_list (areas st a)) \<and>
     (\<forall>r\<in>set (unpinned_list (areas st a)). range_wf a (ranges st r)) \<and>
     descending (ranges st) (unpinned_list (areas st a))"

definition live_ranges :: "ashmem \<Rightarrow> ptr set" where
  "live_ranges st = (\<Union>a\<in>set (open_areas st). set (unpinned_list (areas st a)))"

definition lru_inv :: "ashmem \<Rightarrow> bool" where
  "lru_inv st \<longleftrightarrow> distinct (ashmem_lru_list st) \<and>
     set (ashmem_lru_list st) = {r \<in> live_ranges st. purged (ranges st r) = 0} \<and>
     lru_count st = of_nat (\<Sum>r\<leftarrow>ashmem_lru_list st. rsize (ranges st r))"

definition ashmem_inv :: "ashmem \<Rightarrow> bool" where
  "ashmem_inv st \<longleftrightarrow> distinct (open_areas st) \<and> (\<forall>a\<in>set (open_areas st). area_inv st a) \<and> lru_inv st"

text \<open>The pages a range and an area have unpinned.\<close>

definition pages_of :: "ashmem_range \<Rightarrow> u32 set" where
  "pages_of R = {pgstart R..pgend R}"

definition unpinned :: "ashmem \<Rightarrow> ptr \<Rightarrow> u32 set" where
  "unpinned st a = (\<Union>r\<in>set (unpinned_list (areas st a)). pages_of (ranges st r))"

lemma range_size_eq: "unat (pgstart R) \<le> unat (pgend R) + 1 \<Longrightarrow> range_size R = of_nat (rsize R)"
  by (simp add: range_size_def rsize_def of_nat_diff)

lemma live_range_area:
  assumes "ashmem_inv st" "a \<in> set (open_areas st)" "r \<in> set (unpinned_list (areas st a))"
  shows "range_wf a (ranges st r)" "asma (ranges st r) = a" "r \<in> live_ranges st"
  using assms by (auto simp: ashmem_inv_def area_inv_def range_wf_def live_ranges_def)

lemma live_range_unique:
  assumes "ashmem_inv st" "a \<in> set (open_areas st)" "r \<in> set (unpinned_list (areas st a))"
    and "b \<in> set (open_areas st)" "r \<in> set (unpinned_list (areas st b))"
  shows "b = a"
  using live_range_area(2) [OF assms(1,2,3)] live_range_area(2) [OF assms(1,4,5)] by simp

lemma descending_remove1: "descending h rs \<Longrightarrow> descending h (remove1 r rs)"
  unfolding descending_def
proof (induction rs)
  case (Cons x xs)
  then show ?case using set_remove1_subset [of r xs] by auto
qed simp

lemma sum_list_remove1: "r \<in> set xs \<Longrightarrow> (\<Sum>x\<leftarrow>xs. f x) = f r + (\<Sum>x\<leftarrow>remove1 r xs. (f x :: nat))"
  by (rule sum_list_map_remove1)

subsection \<open>Deleting a range\<close>

lemma range_del_simps [simp]:
  "ranges (range_del r st) = ranges st" "open_areas (range_del r st) = open_areas st"
  "truncated (range_del r st) = truncated st"
  by (simp_all add: range_del_def lru_del_def set_unpinned_def Let_def)

lemma range_del_area:
  "areas (range_del r st) = (areas st)(asma (ranges st r) :=
     (areas st (asma (ranges st r)))\<lparr>unpinned_list := remove1 r (unpinned_list (areas st (asma (ranges st r))))\<rparr>)"
  by (simp add: range_del_def lru_del_def set_unpinned_def Let_def)

lemma range_del_lru:
  "ashmem_lru_list (range_del r st) =
     (if purged (ranges st r) = 0 then remove1 r (ashmem_lru_list st) else ashmem_lru_list st)"
  "lru_count (range_del r st) =
     (if purged (ranges st r) = 0 then lru_count st - range_size (ranges st r) else lru_count st)"
  by (simp_all add: range_del_def lru_del_def set_unpinned_def Let_def range_on_lru_def ASHMEM_NOT_PURGED_def)

lemma range_del_inv:
  assumes inv: "ashmem_inv st" and a: "a \<in> set (open_areas st)" and r: "r \<in> set (unpinned_list (areas st a))"
  shows "ashmem_inv (range_del r st)"
proof -
  have as: "asma (ranges st r) = a" "range_wf a (ranges st r)" using live_range_area [OF assms] by auto
  have dist: "distinct (unpinned_list (areas st a))" using inv a by (simp add: ashmem_inv_def area_inv_def)
  have "set (unpinned_list (areas (range_del r st) b)) = set (unpinned_list (areas st b)) - {r}"
    if "b \<in> set (open_areas st)" for b
  proof (cases "b = a")
    case False
    then have "r \<notin> set (unpinned_list (areas st b))" using live_range_unique [OF assms that] by blast
    then show ?thesis using False by (simp add: range_del_area as)
  qed (simp add: range_del_area as dist)
  then have live: "live_ranges (range_del r st) = live_ranges st - {r}"
    by (simp add: live_ranges_def)
  have "area_inv (range_del r st) b" if "b \<in> set (open_areas st)" for b
    using inv that set_remove1_subset [of r "unpinned_list (areas st b)"]
    by (auto simp: ashmem_inv_def area_inv_def range_del_area as descending_remove1)
  moreover have "lru_inv (range_del r st)"
  proof (cases "purged (ranges st r) = 0")
    case True
    have l: "lru_inv st" using inv by (simp add: ashmem_inv_def)
    then have ls: "distinct (ashmem_lru_list st)"
      "set (ashmem_lru_list st) = {r \<in> live_ranges st. purged (ranges st r) = 0}"
      by (simp_all add: lru_inv_def)
    have "r \<in> set (ashmem_lru_list st)" using ls(2) True live_range_area(3) [OF assms] by simp
    then have "lru_count st = of_nat (rsize (ranges st r)) +
        of_nat (\<Sum>x\<leftarrow>remove1 r (ashmem_lru_list st). rsize (ranges st x))"
      using l sum_list_remove1 [of r "ashmem_lru_list st"] by (simp add: lru_inv_def)
    then have "lru_count st - range_size (ranges st r) =
        of_nat (\<Sum>x\<leftarrow>remove1 r (ashmem_lru_list st). rsize (ranges st x))"
      using as(2) by (simp add: range_size_eq range_wf_def)
    then show ?thesis
      using ls True by (auto simp: lru_inv_def range_del_lru live)
  next
    case False
    then show ?thesis using inv by (auto simp: ashmem_inv_def lru_inv_def range_del_lru live)
  qed
  ultimately show ?thesis using inv by (simp add: ashmem_inv_def)
qed

lemma range_del_unpinned:
  assumes "ashmem_inv st" "a \<in> set (open_areas st)" "r \<in> set (unpinned_list (areas st a))"
  shows "unpinned_list (areas (range_del r st) a) = remove1 r (unpinned_list (areas st a))"
    and "b \<noteq> a \<Longrightarrow> areas (range_del r st) b = areas st b"
  using live_range_area(2) [OF assms] by (simp_all add: range_del_area)

subsection \<open>Shrinking a range\<close>

lemma range_shrink_simps [simp]:
  "areas (range_shrink r s e st) = areas st" "open_areas (range_shrink r s e st) = open_areas st"
  "ashmem_lru_list (range_shrink r s e st) = ashmem_lru_list st"
  "truncated (range_shrink r s e st) = truncated st"
  "ranges (range_shrink r s e st) = (ranges st)(r := (ranges st r)\<lparr>pgstart := s, pgend := e\<rparr>)"
  by (simp_all add: range_shrink_def Let_def)

lemma range_shrink_count:
  "lru_count (range_shrink r s e st) =
     (if purged (ranges st r) = 0
      then lru_count st - (range_size (ranges st r) - range_size ((ranges st r)\<lparr>pgstart := s, pgend := e\<rparr>))
      else lru_count st)"
  by (simp add: range_shrink_def Let_def range_on_lru_def ASHMEM_NOT_PURGED_def)

lemma sum_list_update:
  assumes "distinct xs" "r \<in> set xs" "\<And>x. x \<noteq> r \<Longrightarrow> g x = f x"
  shows "(\<Sum>x\<leftarrow>xs. g x) + f r = (\<Sum>x\<leftarrow>xs. f x) + (g r :: nat)"
proof -
  have "(\<Sum>x\<leftarrow>remove1 r xs. g x) = (\<Sum>x\<leftarrow>remove1 r xs. f x)"
    using assms by (intro arg_cong [where f = sum_list] map_cong) auto
  then show ?thesis
    using sum_list_remove1 [OF assms(2), of f] sum_list_remove1 [OF assms(2), of g] by simp
qed

lemma range_shrink_inv:
  assumes inv: "ashmem_inv st" and a: "a \<in> set (open_areas st)" and r: "r \<in> set (unpinned_list (areas st a))"
    and "pgstart (ranges st r) \<le> s" "e \<le> pgend (ranges st r)" "unat s \<le> unat e + 1"
  shows "ashmem_inv (range_shrink r s e st)"
proof -
  define R' where "R' = (ranges st r)\<lparr>pgstart := s, pgend := e\<rparr>"
  have wf: "range_wf a (ranges st r)" using live_range_area [OF inv a r] by simp
  have live: "live_ranges (range_shrink r s e st) = live_ranges st" by (simp add: live_ranges_def)
  have "area_inv (range_shrink r s e st) b" if "b \<in> set (open_areas st)" for b
  proof -
    have "area_inv st b" using inv that by (simp add: ashmem_inv_def)
    moreover from this have "descending ((ranges st)(r := R')) (unpinned_list (areas st b))"
      unfolding area_inv_def descending_def
      using assms(4,5) by (auto simp: R'_def elim!: sorted_wrt_mono_rel [rotated] intro: le_less_trans less_le_trans)
    ultimately show ?thesis
      using assms(6) by (auto simp: area_inv_def R'_def range_wf_def)
  qed
  moreover have "lru_inv (range_shrink r s e st)"
  proof (cases "purged (ranges st r) = 0")
    case True
    have l: "lru_inv st" using inv by (simp add: ashmem_inv_def)
    then have ls: "distinct (ashmem_lru_list st)"
      "set (ashmem_lru_list st) = {r \<in> live_ranges st. purged (ranges st r) = 0}"
      by (simp_all add: lru_inv_def)
    have "r \<in> set (ashmem_lru_list st)" using ls(2) True live_range_area(3) [OF inv a r] by simp
    from sum_list_update [OF ls(1) this, of "\<lambda>x. rsize (((ranges st)(r := R')) x)" "\<lambda>x. rsize (ranges st x)"]
    have "(\<Sum>x\<leftarrow>ashmem_lru_list st. rsize (((ranges st)(r := R')) x)) + rsize (ranges st r) =
        (\<Sum>x\<leftarrow>ashmem_lru_list st. rsize (ranges st x)) + rsize R'" by simp
    from arg_cong [OF this, of "of_nat :: nat \<Rightarrow> u32"]
    have "lru_count st - (range_size (ranges st r) - range_size R') =
        of_nat (\<Sum>x\<leftarrow>ashmem_lru_list st. rsize (((ranges st)(r := R')) x))"
      using l wf assms(6) by (simp add: lru_inv_def range_size_eq range_wf_def R'_def algebra_simps)
    then show ?thesis
      using ls True by (auto simp: lru_inv_def range_shrink_count live R'_def)
  next
    case False
    then have "r \<notin> set (ashmem_lru_list st)" using inv by (auto simp: ashmem_inv_def lru_inv_def)
    then have "(\<Sum>x\<leftarrow>ashmem_lru_list st. rsize (((ranges st)(r := R')) x)) =
        (\<Sum>x\<leftarrow>ashmem_lru_list st. rsize (ranges st x))"
      by (intro arg_cong [where f = sum_list] map_cong) auto
    then show ?thesis
      using inv False by (auto simp: ashmem_inv_def lru_inv_def range_shrink_count live R'_def)
  qed
  ultimately show ?thesis using inv by (simp add: ashmem_inv_def)
qed

subsection \<open>Adding a range\<close>

lemma insert_before_split: "p \<notin> set ds \<Longrightarrow> insert_before r (Some p) (ds @ p # es) = ds @ r # p # es"
  by (induction ds) auto

text \<open>The place \<open>prev_range\<close> stands for splits the list.\<close>

definition splits_at :: "ptr option \<Rightarrow> ptr list \<Rightarrow> ptr list \<Rightarrow> bool" where
  "splits_at prev_range ds es \<longleftrightarrow>
     (case prev_range of None \<Rightarrow> es = [] | Some p \<Rightarrow> p \<notin> set ds \<and> (\<exists>es'. es = p # es'))"

lemma insert_before_at: "splits_at prev_range ds es \<Longrightarrow> insert_before r prev_range (ds @ es) = ds @ r # es"
  by (auto simp: splits_at_def insert_before_split split: option.splits)

lemma range_alloc_Some:
  assumes "range_alloc (Some r) a prev_range p s e st = (ret, st')"
    and "unpinned_list (areas st a) = ds @ es" "splits_at prev_range ds es"
  defines "R \<equiv> \<lparr>asma = a, pgstart = s, pgend = e, purged = p\<rparr>"
  shows "ret = 0" "ranges st' = (ranges st)(r := R)" "open_areas st' = open_areas st"
    "areas st' = (areas st)(a := (areas st a)\<lparr>unpinned_list := ds @ r # es\<rparr>)"
    "ashmem_lru_list st' = (if p = 0 then ashmem_lru_list st @ [r] else ashmem_lru_list st)"
    "lru_count st' = (if p = 0 then lru_count st + range_size R else lru_count st)"
    "truncated st' = truncated st"
  using assms(1) insert_before_at [OF assms(3), of r]
  by (auto simp: range_alloc_def Let_def set_unpinned_def lru_add_def range_on_lru_def ASHMEM_NOT_PURGED_def
      assms(2) R_def split: if_splits)

lemma range_alloc_inv:
  assumes inv: "ashmem_inv st" and a: "a \<in> set (open_areas st)" and new: "r \<notin> live_ranges st"
    and al: "range_alloc (Some r) a prev_range p s e st = (ret, st')"
    and un: "unpinned_list (areas st a) = ds @ es" and sp: "splits_at prev_range ds es"
    and ds: "\<forall>d\<in>set ds. e < pgstart (ranges st d)" and es: "\<forall>d\<in>set es. pgend (ranges st d) < s"
    and se: "unat s \<le> unat e + 1" and p: "p = 0 \<or> p = 1"
  shows "ashmem_inv st'"
proof -
  define R where "R = \<lparr>asma = a, pgstart = s, pgend = e, purged = p\<rparr>"
  note st' = range_alloc_Some [OF al un sp, folded R_def]
  have old: "r \<notin> set (unpinned_list (areas st b))" if "b \<in> set (open_areas st)" for b
    using new that by (auto simp: live_ranges_def)
  have wf: "range_wf a R" using se p by (simp add: range_wf_def R_def)
  have "set (unpinned_list (areas st' b)) = set (unpinned_list (areas st b)) \<union> (if b = a then {r} else {})" for b
    by (simp add: st' un)
  then have live: "live_ranges st' = insert r (live_ranges st)"
    using a unfolding live_ranges_def st'(3) by (auto split: if_splits)
  have desc: "descending ((ranges st)(r := R)) xs = descending (ranges st) xs" if "r \<notin> set xs" for xs
    unfolding descending_def using that by (induction xs) auto
  have ai: "area_inv st b" if "b \<in> set (open_areas st)" for b using inv that by (simp add: ashmem_inv_def)
  have "area_inv st' b" if "b \<in> set (open_areas st)" for b
  proof (cases "b = a")
    case True
    have "descending (ranges st) (ds @ es)" "distinct (ds @ es)" using ai [OF a] un by (simp_all add: area_inv_def)
    moreover have "r \<notin> set (ds @ es)" using old [OF a] un by simp
    ultimately have "descending ((ranges st)(r := R)) (ds @ r # es)"
      using ds es desc [of "ds @ es"] by (auto simp: descending_def sorted_wrt_append R_def)
    then show ?thesis
      using True ai [OF a] un wf old [OF a] by (auto simp: area_inv_def st')
  next
    case False
    then show ?thesis using ai [OF that] old [OF that] by (auto simp: area_inv_def st' desc)
  qed
  moreover have "lru_inv st'"
  proof -
    have l: "lru_inv st" using inv by (simp add: ashmem_inv_def)
    then have ls: "distinct (ashmem_lru_list st)" "lru_count st = of_nat (\<Sum>x\<leftarrow>ashmem_lru_list st. rsize (ranges st x))"
      "set (ashmem_lru_list st) = {r \<in> live_ranges st. purged (ranges st r) = 0}"
      by (simp_all add: lru_inv_def)
    have rl: "r \<notin> set (ashmem_lru_list st)" using new ls(3) by simp
    then have sm: "(\<Sum>x\<leftarrow>ashmem_lru_list st. rsize (((ranges st)(r := R)) x)) =
        (\<Sum>x\<leftarrow>ashmem_lru_list st. rsize (ranges st x))"
      by (intro arg_cong [where f = sum_list] map_cong) auto
    have sz: "range_size R = of_nat (rsize R)" using se by (intro range_size_eq) (simp add: R_def)
    have pr: "purged (((ranges st)(r := R)) x) = (if x = r then p else purged (ranges st x))" for x
      by (simp add: R_def)
    have "set (ashmem_lru_list st') = {x \<in> live_ranges st'. purged (ranges st' x) = 0}"
      unfolding st'(2,5) live pr using new ls(3) by (auto split: if_splits)
    moreover have "lru_count st' = of_nat (\<Sum>x\<leftarrow>ashmem_lru_list st'. rsize (ranges st' x))"
      unfolding st'(2,5,6) using sm sz ls(2) by simp
    ultimately show ?thesis
      using ls(1) rl unfolding lru_inv_def st'(5) by simp
  qed
  ultimately show ?thesis using inv by (simp add: ashmem_inv_def st')
qed

section \<open>Pinning\<close>

lemma range_alloc_shrink_commute:
  assumes "n \<noteq> r"
  shows "range_shrink r x y (snd (range_alloc (Some n) a prev_range p s e st)) =
    snd (range_alloc (Some n) a prev_range p s e (range_shrink r x y st))"
  using assms
  by (auto simp: range_alloc_def range_shrink_def Let_def set_unpinned_def lru_add_def range_on_lru_def
      fun_upd_twist algebra_simps)

text \<open>What is left of the unpinned pages of \<open>R\<close> when \<open>s\<close> to \<open>e\<close> are pinned.\<close>

lemma pages_cut:
  assumes "\<not> range_before_page R s" "unat s \<le> unat e + 1" "unat (pgstart R) \<le> unat (pgend R) + 1"
  shows "\<not> page_range_in_range R s e \<Longrightarrow> pages_of R \<inter> {s..e} = {}"
    and "page_range_subsumes_range R s e \<Longrightarrow> pages_of R - {s..e} = {}"
    and "page_range_in_range R s e \<Longrightarrow> \<not> page_range_subsumes_range R s e \<Longrightarrow> s \<le> pgstart R \<Longrightarrow>
      e < pgend R \<and> pgstart R \<le> e + 1 \<and> {e + 1..pgend R} = pages_of R - {s..e}"
    and "pgstart R < s \<Longrightarrow> pgend R \<le> e \<Longrightarrow> {pgstart R..s - 1} = pages_of R - {s..e}"
    and "pgstart R < s \<Longrightarrow> e < pgend R \<Longrightarrow> {e + 1..pgend R} \<union> {pgstart R..s - 1} = pages_of R - {s..e}"
proof -
  note w = word_le_nat_alt word_less_nat_alt
  show "\<not> page_range_in_range R s e \<Longrightarrow> pages_of R \<inter> {s..e} = {}"
    using assms by (auto simp: page_range_in_range_def page_in_range_def page_range_subsumes_range_def
        range_before_page_def pages_of_def w)
  show "page_range_subsumes_range R s e \<Longrightarrow> pages_of R - {s..e} = {}"
    by (auto simp: page_range_subsumes_range_def pages_of_def)
  have e1: "unat (e + 1) = unat e + 1" if "e < pgend R" using that by (rule unat_plus1)
  have s1: "unat (s - 1) = unat s - 1" if "pgstart R < s" using that by (rule unat_minus1)
  show "e < pgend R \<and> pgstart R \<le> e + 1 \<and> {e + 1..pgend R} = pages_of R - {s..e}"
    if "page_range_in_range R s e" "\<not> page_range_subsumes_range R s e" "s \<le> pgstart R"
  proof -
    have "e < pgend R" using that by (auto simp: page_range_subsumes_range_def)
    then show ?thesis
      using that assms e1
      by (auto simp: page_range_in_range_def page_in_range_def page_range_subsumes_range_def pages_of_def w)
  qed
  show "{pgstart R..s - 1} = pages_of R - {s..e}" if "pgstart R < s" "pgend R \<le> e"
    using that assms s1 [OF that(1)] by (auto simp: range_before_page_def pages_of_def w)
  show "{e + 1..pgend R} \<union> {pgstart R..s - 1} = pages_of R - {s..e}" if "pgstart R < s" "e < pgend R"
    using that assms s1 [OF that(1)] e1 [OF that(2)] by (auto simp: pages_of_def w)
qed

definition pages_in :: "(ptr \<Rightarrow> ashmem_range) \<Rightarrow> ptr list \<Rightarrow> u32 set" where
  "pages_in h rs = (\<Union>r\<in>set rs. pages_of (h r))"

lemma unpinned_pages_in: "unpinned st a = pages_in (ranges st) (unpinned_list (areas st a))"
  by (simp add: unpinned_def pages_in_def)

lemma pages_in_simps [simp]:
  "pages_in h [] = {}" "pages_in h (r # rs) = pages_of (h r) \<union> pages_in h rs"
  "pages_in h (xs @ ys) = pages_in h xs \<union> pages_in h ys"
  by (auto simp: pages_in_def)

lemma pages_in_upd [simp]: "r \<notin> set xs \<Longrightarrow> pages_in (h(r := R)) xs = pages_in h xs"
  by (induction xs) auto

text \<open>Whether a pin of \<open>s\<close> to \<open>e\<close> reports that a page was purged.\<close>

definition hit_purged :: "u32 \<Rightarrow> u32 \<Rightarrow> (ptr \<Rightarrow> ashmem_range) \<Rightarrow> ptr list \<Rightarrow> bool" where
  "hit_purged s e h rs \<longleftrightarrow>
     (\<exists>r\<in>set rs. s \<le> pgend (h r) \<and> page_range_in_range (h r) s e \<and> purged (h r) \<noteq> 0)"

lemma hit_purged_upd [simp]: "r \<notin> set xs \<Longrightarrow> hit_purged s e (h(r := R)) xs = hit_purged s e h xs"
  by (auto simp: hit_purged_def)

lemma below_disjoint:
  assumes "\<forall>r\<in>set rs. pgend (h r) < s"
  shows "pages_in h rs \<inter> {s..e} = {}" "\<not> hit_purged s e h rs"
  using assms by (fastforce simp: pages_in_def pages_of_def hit_purged_def)+

lemma descending_below:
  assumes "area_inv st a" "unpinned_list (areas st a) = ds @ r # rs" "pgstart (ranges st r) \<le> s"
  shows "\<forall>x\<in>set rs. pgend (ranges st x) < s"
  using assms by (auto simp: area_inv_def descending_def sorted_wrt_append intro: less_le_trans)

lemma or_flag: "(p :: u32) = 0 \<or> p = 1 \<Longrightarrow>
  (ret OR p) OR (if Q then 1 else 0) = ret OR (if p \<noteq> 0 \<or> Q then 1 else 0)"
  by (auto simp: or.assoc)

text \<open>What the rest of the loop makes of the ranges \<open>rs\<close> still to be visited.\<close>

definition pinned_spec ::
    "ptr option \<Rightarrow> ptr \<Rightarrow> u32 \<Rightarrow> u32 \<Rightarrow> ptr list \<Rightarrow> ptr list \<Rightarrow> u32 \<Rightarrow> ashmem \<Rightarrow> u32 \<Rightarrow> ashmem \<Rightarrow> bool" where
  "pinned_spec alloc a s e ds rs ret st ret' st' \<longleftrightarrow>
     ashmem_inv st' \<and> open_areas st' = open_areas st \<and> (\<forall>b. b \<noteq> a \<longrightarrow> areas st' b = areas st b) \<and>
     (\<forall>x. x \<notin> set (ds @ rs) \<longrightarrow> alloc \<noteq> Some x \<longrightarrow> ranges st' x = ranges st x) \<and>
     (alloc \<noteq> None \<longrightarrow>
        unpinned st' a = pages_in (ranges st) ds \<union> (pages_in (ranges st) rs - {s..e})) \<and>
     unpinned st' a \<subseteq> pages_in (ranges st) ds \<union> (pages_in (ranges st) rs - {s..e}) \<and>
     ret' = ret OR (if hit_purged s e (ranges st) rs then 1 else 0)"

lemma pinned_spec_step:
  assumes "pinned_spec alloc a s e ds' rs ret1 st1 ret' st'"
    and "open_areas st1 = open_areas st" "\<forall>b. b \<noteq> a \<longrightarrow> areas st1 b = areas st b"
    and "\<forall>x. x \<noteq> r \<longrightarrow> ranges st1 x = ranges st x" "set ds' \<subseteq> insert r (set ds)" "r \<notin> set rs"
    and "pages_in (ranges st1) ds' = pages_in (ranges st) ds \<union> (pages_of (ranges st r) - {s..e})"
    and "ret1 = (if page_range_in_range (ranges st r) s e then ret OR purged (ranges st r) else ret)"
    and "s \<le> pgend (ranges st r)" "purged (ranges st r) = 0 \<or> purged (ranges st r) = 1"
  shows "pinned_spec alloc a s e ds (r # rs) ret st ret' st'"
proof -
  have "ranges st1 x = ranges st x" if "x \<in> set rs" for x using assms(4,6) that by metis
  then have "pages_in (ranges st1) rs = pages_in (ranges st) rs"
    "hit_purged s e (ranges st1) rs = hit_purged s e (ranges st) rs"
    by (auto simp: pages_in_def hit_purged_def)
  moreover have "ret1 OR (if Q then 1 else 0) =
      ret OR (if page_range_in_range (ranges st r) s e \<and> purged (ranges st r) \<noteq> 0 \<or> Q then 1 else 0)" for Q
    using or_flag [OF assms(10), of ret Q] assms(8) by auto
  moreover have "hit_purged s e (ranges st) (r # rs) \<longleftrightarrow>
      page_range_in_range (ranges st r) s e \<and> purged (ranges st r) \<noteq> 0 \<or> hit_purged s e (ranges st) rs"
    using assms(9) by (auto simp: hit_purged_def)
  ultimately show ?thesis
    using assms(1-5,7) by (auto simp: pinned_spec_def)
qed

lemma range_del_live: "live_ranges (range_del r st) \<subseteq> live_ranges st"
  using set_remove1_subset [of r] by (fastforce simp: live_ranges_def range_del_area split: if_splits)

text \<open>Pinning pages in the middle of a range makes two ranges of it, or loses the upper one.\<close>

lemma pin_hole:
  assumes inv: "ashmem_inv st" and a: "a \<in> set (open_areas st)"
    and un: "unpinned_list (areas st a) = ds @ r # rs" and se: "unat s \<le> unat e + 1"
    and fresh: "\<forall>n. alloc = Some n \<longrightarrow> n \<notin> live_ranges st"
    and R: "page_range_in_range (ranges st r) s e" "pgstart (ranges st r) < s" "e < pgend (ranges st r)"
      "s \<le> pgend (ranges st r)"
  defines "st' \<equiv> range_shrink r (pgstart (ranges st r)) (s - 1)
    (snd (range_alloc alloc a (Some r) (purged (ranges st r)) (e + 1) (pgend (ranges st r)) st))"
  shows "pinned_spec alloc a s e ds (r # rs) ret st (ret OR purged (ranges st r)) st'"
proof -
  define R where "R = ranges st r"
  have r: "r \<in> set (unpinned_list (areas st a))" using un by simp
  have ai: "area_inv st a" using inv a by (simp add: ashmem_inv_def)
  then have rn: "r \<notin> set ds" "r \<notin> set rs" using un by (auto simp: area_inv_def)
  have wf: "range_wf a R" using live_range_area [OF inv a r] by (simp add: R_def)
  have e1: "unat (e + 1) = unat e + 1" and s1: "unat (s - 1) = unat s - 1" and s0: "0 < unat s"
    using unat_plus1 [of e] unat_minus1 [of _ s] R by (auto simp: word_less_nat_alt)
  define st1 where "st1 = range_shrink r (pgstart R) (s - 1) st"
  have inv1: "ashmem_inv st1" unfolding st1_def
    by (rule range_shrink_inv [OF inv a r])
      (use R s0 s1 in \<open>auto simp: R_def word_less_nat_alt word_le_nat_alt\<close>)
  have low: "\<forall>x\<in>set rs. pgend (ranges st x) < s" "\<forall>x\<in>set rs. pgend (ranges st x) < pgstart R"
    using descending_below [OF ai un, of s] descending_below [OF ai un, of "pgstart R"] R
    by (simp_all add: R_def less_imp_le)
  have high: "\<forall>d\<in>set ds. pgend R < pgstart (ranges st d)"
    using ai un by (auto simp: area_inv_def descending_def sorted_wrt_append R_def)
  note dj = below_disjoint [OF low(1), of e]
  have "\<not> range_before_page R s" "unat (pgstart R) \<le> unat (pgend R) + 1"
    using R(4) wf by (simp_all add: range_before_page_def R_def range_wf_def)
  note cut = pages_cut(5) [OF this(1) se this(2) R(2,3) [folded R_def]]
  have hit: "hit_purged s e (ranges st) (r # rs) \<longleftrightarrow> purged R \<noteq> 0"
    using R(1,4) dj(2) by (auto simp: hit_purged_def R_def)
  then have ret: "ret OR purged R = ret OR (if hit_purged s e (ranges st) (r # rs) then 1 else 0)"
    using wf by (auto simp: range_wf_def)
  show ?thesis
  proof (cases alloc)
    case None
    then have st': "st' = st1" by (simp add: st'_def st1_def range_alloc_def R_def)
    have "unpinned st1 a = pages_in (ranges st) ds \<union> ({pgstart R..s - 1} \<union> pages_in (ranges st) rs)"
      using rn by (simp add: unpinned_pages_in st1_def un pages_of_def)
    also have "\<dots> \<subseteq> pages_in (ranges st) ds \<union> (pages_in (ranges st) (r # rs) - {s..e})"
      using cut dj(1) by (auto simp: R_def)
    finally show ?thesis
      using None inv1 ret by (simp add: pinned_spec_def st' R_def) (simp add: st1_def)
  next
    case (Some n)
    then have n: "n \<notin> live_ranges st" using fresh by simp
    then have nr: "n \<noteq> r" and nd: "n \<notin> set ds" "n \<notin> set rs"
      using live_range_area(3) [OF inv a] un by auto
    obtain ret2 st2 where al: "range_alloc (Some n) a (Some r) (purged R) (e + 1) (pgend R) st1 = (ret2, st2)"
      by fastforce
    have "st' = st2"
      using range_alloc_shrink_commute [OF nr] al Some unfolding st'_def st1_def R_def by simp
    have un1: "unpinned_list (areas st1 a) = ds @ (r # rs)" and open1: "open_areas st1 = open_areas st"
      by (simp_all add: st1_def un)
    have sp: "splits_at (Some r) ds (r # rs)" using rn by (simp add: splits_at_def)
    note st2 = range_alloc_Some [OF al un1 sp]
    have "ashmem_inv st2"
    proof (rule range_alloc_inv [OF inv1 _ _ al un1 sp])
      show "a \<in> set (open_areas st1)" using a by (simp add: open1)
      show "n \<notin> live_ranges st1" using n by (simp add: st1_def live_ranges_def)
      show "\<forall>d\<in>set ds. pgend R < pgstart (ranges st1 d)" using high rn(1) by (auto simp: st1_def)
      show "\<forall>d\<in>set (r # rs). pgend (ranges st1 d) < e + 1"
        using low(2) rn(2) R(2) se e1 s1 s0 by (auto simp: st1_def word_less_nat_alt R_def)
      show "unat (e + 1) \<le> unat (pgend R) + 1" using e1 R(3) by (simp add: word_less_nat_alt R_def)
      show "purged R = 0 \<or> purged R = 1" using wf by (simp add: range_wf_def)
    qed
    moreover have "unpinned st2 a = pages_in (ranges st) ds \<union>
        (({e + 1..pgend R} \<union> {pgstart R..s - 1}) \<union> pages_in (ranges st) rs)"
      using rn nd nr by (auto simp: unpinned_pages_in st2 st1_def pages_of_def)
    then have "unpinned st2 a = pages_in (ranges st) ds \<union> (pages_in (ranges st) (r # rs) - {s..e})"
      unfolding cut using dj(1) by (auto simp: R_def)
    ultimately show ?thesis
      using ret Some by (simp add: pinned_spec_def \<open>st' = st2\<close> R_def) (simp add: st2 st1_def)
  qed
qed

lemma pin_loop_spec:
  assumes "ashmem_pin_loop alloc a s e rs ret st = (ret', st')" "ashmem_inv st" "a \<in> set (open_areas st)"
    and "unpinned_list (areas st a) = ds @ rs" "unat s \<le> unat e + 1"
    and "\<forall>n. alloc = Some n \<longrightarrow> n \<notin> live_ranges st"
  shows "pinned_spec alloc a s e ds rs ret st ret' st'"
  using assms
proof (induction rs arbitrary: ds ret st)
  case Nil
  then show ?case by (simp add: pinned_spec_def unpinned_pages_in hit_purged_def)
next
  case (Cons r rs)
  define R where "R = ranges st r"
  have r: "r \<in> set (unpinned_list (areas st a))" using Cons.prems(4) by simp
  have ai: "area_inv st a" using Cons.prems(2,3) by (simp add: ashmem_inv_def)
  then have rn: "r \<notin> set ds" "r \<notin> set rs" using Cons.prems(4) by (auto simp: area_inv_def)
  have wf: "unat (pgstart R) \<le> unat (pgend R) + 1" "purged R = 0 \<or> purged R = 1" "asma R = a"
    using live_range_area [OF Cons.prems(2,3) r] by (auto simp: range_wf_def R_def)
  note cut = pages_cut [of R s e, OF _ Cons.prems(5) wf(1)]
  note un = unpinned_pages_in
  show ?case
  proof (cases "range_before_page R s")
    case True
    then have "pgend R < s" "pgstart R \<le> s"
      using wf(1) by (simp_all add: range_before_page_def word_less_nat_alt word_le_nat_alt)
    then have "\<forall>x\<in>set (r # rs). pgend (ranges st x) < s"
      using descending_below [OF ai Cons.prems(4), of s] by (simp add: R_def)
    from below_disjoint [OF this, of e] show ?thesis
      using Cons.prems True by (auto simp: pinned_spec_def un R_def)
  next
    case False
    note cut = cut [OF False]
    have sR: "s \<le> pgend R" using False by (simp add: range_before_page_def)
    note step = pinned_spec_step [where st = st and r = r and ds = ds, folded R_def, OF _ _ _ _ _ rn(2) _ _ sR wf(2)]
    have shrink: ?thesis
      if "ashmem_pin_loop alloc a s e rs (ret OR purged R) (range_shrink r s' e' st) = (ret', st')"
        "page_range_in_range R s e" "pgstart R \<le> s'" "e' \<le> pgend R" "unat s' \<le> unat e' + 1"
        "{s'..e'} = pages_of R - {s..e}" for s' e'
    proof -
      have "pinned_spec alloc a s e (ds @ [r]) rs (ret OR purged R) (range_shrink r s' e' st) ret' st'"
        using Cons.IH [OF that(1) range_shrink_inv [OF Cons.prems(2,3) r that(3-5) [unfolded R_def]]]
          Cons.prems(3-6) by (simp add: live_ranges_def)
      then show ?thesis
        by (rule step) (use that(2,6) rn(1) in \<open>auto simp: R_def pages_of_def\<close>)
    qed
    consider "\<not> page_range_in_range R s e" | (in1) "page_range_in_range R s e" "page_range_subsumes_range R s e"
      | (in2) "page_range_in_range R s e" "\<not> page_range_subsumes_range R s e" "s \<le> pgstart R"
      | (in3) "page_range_in_range R s e" "\<not> page_range_subsumes_range R s e" "pgstart R < s" "pgend R \<le> e"
      | (in4) "page_range_in_range R s e" "\<not> page_range_subsumes_range R s e" "pgstart R < s" "e < pgend R"
      by fastforce
    then show ?thesis
    proof cases
      case 1
      then have "ashmem_pin_loop alloc a s e rs ret st = (ret', st')"
        using Cons.prems(1) False by (simp add: R_def)
      from Cons.IH [OF this Cons.prems(2,3) _ Cons.prems(5,6), of "ds @ [r]"]
      have "pinned_spec alloc a s e (ds @ [r]) rs ret st ret' st'" using Cons.prems(4) by simp
      then show ?thesis by (rule step) (use 1 cut(1) in \<open>auto simp: R_def\<close>)
    next
      case in1
      then have "ashmem_pin_loop alloc a s e rs (ret OR purged R) (range_del r st) = (ret', st')"
        using Cons.prems(1) False by (simp add: R_def)
      moreover have "unpinned_list (areas (range_del r st) a) = ds @ rs"
        using range_del_unpinned(1) [OF Cons.prems(2,3) r] Cons.prems(4) rn by (simp add: remove1_append)
      moreover have "live_ranges (range_del r st) \<subseteq> live_ranges st"
        by (rule range_del_live)
      ultimately have "pinned_spec alloc a s e ds rs (ret OR purged R) (range_del r st) ret' st'"
        using Cons.IH [OF _ range_del_inv [OF Cons.prems(2,3) r] _ _ Cons.prems(5), of "ret OR purged R" ds]
          Cons.prems(3,6) by auto
      then show ?thesis
        by (rule step) (use in1 cut(2) range_del_unpinned(2) [OF Cons.prems(2,3) r] in \<open>auto simp: R_def\<close>)
    next
      case in2
      then have "ashmem_pin_loop alloc a s e rs (ret OR purged R) (range_shrink r (e + 1) (pgend R) st) = (ret', st')"
        using Cons.prems(1) False by (simp add: R_def Let_def)
      moreover have "unat (e + 1) \<le> unat (pgend R) + 1" using cut(3) [OF in2] unat_plus1 [of e "pgend R"]
        by (simp add: word_less_nat_alt)
      ultimately show ?thesis using shrink [of "e + 1" "pgend R"] in2 cut(3) [OF in2] by simp
    next
      case in3
      then have "ashmem_pin_loop alloc a s e rs (ret OR purged R) (range_shrink r (pgstart R) (s - 1) st) = (ret', st')"
        using Cons.prems(1) False by (simp add: R_def Let_def not_le [THEN iffD2])
      moreover have "unat (pgstart R) \<le> unat (s - 1) + 1" "s - 1 \<le> pgend R"
        using in3 sR unat_minus1 [of "pgstart R" s] by (simp_all add: word_less_nat_alt word_le_nat_alt)
      ultimately show ?thesis using shrink [of "pgstart R" "s - 1"] in3 cut(4) [OF in3(3,4)] by simp
    next
      case in4
      then have "st' = range_shrink r (pgstart R) (s - 1) (snd (range_alloc alloc a (Some r) (purged R) (e + 1) (pgend R) st))"
        "ret' = ret OR purged R"
        using Cons.prems(1) False by (auto simp: R_def Let_def not_le [THEN iffD2] split: prod.splits)
      then show ?thesis using pin_hole [OF Cons.prems(2-6)] in4 wf(2) sR by (simp add: R_def)
    qed
  qed
qed

section \<open>Unpinning\<close>

lemma scan_insert:
  assumes "ashmem_unpin_scan s e h rs = Insert prev_range" "distinct rs"
  shows "\<exists>ds es. rs = ds @ es \<and> splits_at prev_range ds es \<and>
    (\<forall>d\<in>set ds. \<not> range_before_page (h d) s \<and> \<not> page_range_in_range (h d) s e) \<and>
    (\<forall>x es'. es = x # es' \<longrightarrow> range_before_page (h x) s)"
  using assms
proof (induction rs)
  case Nil
  then show ?case by (simp add: splits_at_def)
next
  case (Cons r rs)
  show ?case
  proof (cases "range_before_page (h r) s")
    case True
    then have "prev_range = Some r" using Cons.prems(1) by simp
    then show ?thesis using True by (intro exI [of _ "[]"] exI [of _ "r # rs"]) (simp add: splits_at_def)
  next
    case False
    then have r: "\<not> page_range_in_range (h r) s e" "ashmem_unpin_scan s e h rs = Insert prev_range"
      using Cons.prems(1) by (auto split: if_splits)
    then obtain ds es where ds: "rs = ds @ es" "splits_at prev_range ds es"
      "\<forall>d\<in>set ds. \<not> range_before_page (h d) s \<and> \<not> page_range_in_range (h d) s e"
      "\<forall>x es'. es = x # es' \<longrightarrow> range_before_page (h x) s"
      using Cons.IH Cons.prems(2) by auto
    moreover have "splits_at prev_range (r # ds) es"
      using ds(1,2) Cons.prems(2) by (auto simp: splits_at_def split: option.splits)
    ultimately show ?thesis using r(1) False by (intro exI [of _ "r # ds"] exI [of _ es]) simp
  qed
qed

lemma scan_already:
  "ashmem_unpin_scan s e h rs = Already \<Longrightarrow> {s..e} \<subseteq> pages_in h rs"
  by (induction rs) (fastforce simp: page_range_subsumed_by_range_def pages_of_def split: if_splits)+

lemma scan_merge:
  "ashmem_unpin_scan s e h rs = Merge r \<Longrightarrow>
   r \<in> set rs \<and> page_range_in_range (h r) s e \<and> \<not> range_before_page (h r) s"
  by (induction rs) (auto split: if_splits)

lemma merge_pages:
  assumes "page_range_in_range R s e" "\<not> range_before_page R s" "unat s \<le> unat e + 1"
    "unat (pgstart R) \<le> unat (pgend R) + 1"
  shows "{min (pgstart R) s..max (pgend R) e} = pages_of R \<union> {s..e}"
    and "unat (min (pgstart R) s) \<le> unat (max (pgend R) e) + 1"
  using assms
  by (auto simp: page_range_in_range_def page_in_range_def page_range_subsumes_range_def range_before_page_def
      pages_of_def word_le_nat_alt word_less_nat_alt min_def max_def)

definition unpin_spec :: "ptr option \<Rightarrow> ptr \<Rightarrow> u32 \<Rightarrow> u32 \<Rightarrow> ashmem \<Rightarrow> int \<Rightarrow> ashmem \<Rightarrow> bool" where
  "unpin_spec alloc a s e st ret st' \<longleftrightarrow>
     ashmem_inv st' \<and> open_areas st' = open_areas st \<and> (\<forall>b. b \<noteq> a \<longrightarrow> areas st' b = areas st b) \<and>
     (\<forall>x. x \<notin> set (unpinned_list (areas st a)) \<longrightarrow> alloc \<noteq> Some x \<longrightarrow> ranges st' x = ranges st x) \<and>
     (ret = 0 \<longrightarrow> unpinned st' a = unpinned st a \<union> {s..e}) \<and>
     (ret \<noteq> 0 \<longrightarrow> ret = - ENOMEM \<and> alloc = None \<and> unpinned st' a \<subseteq> unpinned st a)"

lemma unpin_insert:
  assumes inv: "ashmem_inv st" and a: "a \<in> set (open_areas st)" and se: "unat s \<le> unat e + 1"
    and sc: "ashmem_unpin_scan s e (ranges st) (unpinned_list (areas st a)) = Insert prev_range"
    and fresh: "\<forall>n. alloc = Some n \<longrightarrow> n \<notin> live_ranges st" and p: "p = 0 \<or> p = 1"
    and al: "range_alloc alloc a prev_range p s e st = (ret, st')"
  shows "unpin_spec alloc a s e st ret st'"
proof (cases alloc)
  case None
  then show ?thesis using al inv by (auto simp: range_alloc_def unpin_spec_def ENOMEM_def)
next
  case (Some n)
  have ai: "area_inv st a" using inv a by (simp add: ashmem_inv_def)
  obtain ds es where ds: "unpinned_list (areas st a) = ds @ es" "splits_at prev_range ds es"
    "\<forall>d\<in>set ds. \<not> range_before_page (ranges st d) s \<and> \<not> page_range_in_range (ranges st d) s e"
    "\<forall>x es'. es = x # es' \<longrightarrow> range_before_page (ranges st x) s"
    using scan_insert [OF sc] ai by (auto simp: area_inv_def)
  have wf: "unat (pgstart (ranges st x)) \<le> unat (pgend (ranges st x)) + 1"
    if "x \<in> set (unpinned_list (areas st a))" for x
    using live_range_area(1) [OF inv a that] by (simp add: range_wf_def)
  have hi: "\<forall>d\<in>set ds. e < pgstart (ranges st d)"
    using ds(3) se by (auto simp: range_before_page_def page_range_in_range_def page_in_range_def
        page_range_subsumes_range_def word_le_nat_alt word_less_nat_alt)
  have lo: "\<forall>d\<in>set es. pgend (ranges st d) < s"
  proof (cases es)
    case (Cons x es')
    then have "pgend (ranges st x) < s" using ds(4) by (simp add: range_before_page_def)
    moreover from this have "pgstart (ranges st x) \<le> s"
      using wf [of x] ds(1) Cons by (simp add: word_le_nat_alt word_less_nat_alt)
    ultimately show ?thesis
      using descending_below [OF ai, of ds x es' s] ds(1) Cons by simp
  qed simp
  have n: "n \<notin> live_ranges st" using fresh Some by simp
  note al = al [unfolded Some]
  note st' = range_alloc_Some [OF al ds(1,2)]
  have "n \<notin> set ds" "n \<notin> set es" using n live_range_area(3) [OF inv a] ds(1) by auto
  then have "unpinned st' a = unpinned st a \<union> {s..e}"
    by (auto simp: unpinned_pages_in st' ds(1) pages_of_def)
  then show ?thesis
    using range_alloc_inv [OF inv a n al ds(1,2) hi lo se p] Some by (simp add: unpin_spec_def st')
qed

lemma unpin_loop_spec:
  assumes "ashmem_inv st" "a \<in> set (open_areas st)" "unat s \<le> unat e + 1" "p = 0 \<or> p = 1"
    and "\<forall>n. alloc = Some n \<longrightarrow> n \<notin> live_ranges st"
  shows "\<exists>ret st'. ashmem_unpin_loop alloc a s e p st = Some (ret, st') \<and> unpin_spec alloc a s e st ret st'"
  using assms
proof (induction alloc a s e p st rule: ashmem_unpin_loop.induct)
  case (1 alloc a s e p st)
  show ?case
  proof (cases "ashmem_unpin_scan s e (ranges st) (unpinned_list (areas st a))")
    case Already
    then have "{s..e} \<subseteq> unpinned st a" using scan_already by (simp add: unpinned_pages_in)
    then show ?thesis
      using 1(2) Already by (auto simp: ashmem_unpin_loop.simps [of alloc] unpin_spec_def)
  next
    case (Merge r)
    define R where "R = ranges st r"
    have m: "r \<in> set (unpinned_list (areas st a))" "page_range_in_range R s e" "\<not> range_before_page R s"
      using scan_merge [OF Merge] by (simp_all add: R_def)
    have wf: "asma R = a" "unat (pgstart R) \<le> unat (pgend R) + 1" "purged R = 0 \<or> purged R = 1"
      using live_range_area(1) [OF 1(2,3) m(1)] by (auto simp: range_wf_def R_def)
    note mp = merge_pages [OF m(2,3) 1(4) wf(2)]
    have "p OR purged R = 0 \<or> p OR purged R = 1" using 1(5) wf(3) by auto
    moreover have "\<forall>n. alloc = Some n \<longrightarrow> n \<notin> live_ranges (range_del r st)"
      using 1(6) range_del_live [of r st] by auto
    ultimately obtain ret st' where rec: "ashmem_unpin_loop alloc a (min (pgstart R) s) (max (pgend R) e)
        (p OR purged R) (range_del r st) = Some (ret, st')"
      "unpin_spec alloc a (min (pgstart R) s) (max (pgend R) e) (range_del r st) ret st'"
      using 1(1) [OF Merge R_def wf(1) range_del_inv [OF 1(2,3) m(1)] _ mp(2)] 1(3) by auto
    have "distinct (unpinned_list (areas st a))" using 1(2,3) by (simp add: ashmem_inv_def area_inv_def)
    then have "unpinned (range_del r st) a \<union> pages_of R = unpinned st a"
      using m(1) range_del_unpinned(1) [OF 1(2,3) m(1)] by (auto simp: unpinned_def R_def)
    then have "unpin_spec alloc a s e st ret st'"
      using rec(2) range_del_unpinned [OF 1(2,3) m(1)] set_remove1_subset [of r "unpinned_list (areas st a)"]
      unfolding unpin_spec_def mp(1) by auto
    then show ?thesis using rec(1) Merge wf(1) by (simp add: ashmem_unpin_loop.simps [of alloc a s] R_def Let_def)
  next
    case (Insert prev_range)
    obtain ret st' where al: "range_alloc alloc a prev_range p s e st = (ret, st')" by fastforce
    then show ?thesis
      using unpin_insert [OF 1(2-4) Insert 1(6,5) al] Insert by (simp add: ashmem_unpin_loop.simps [of alloc])
  qed
qed

lemma other_unpinned:
  assumes "ashmem_inv st" "a \<in> set (open_areas st)" "b \<in> set (open_areas st)" "b \<noteq> a"
    and "areas st' b = areas st b" "\<forall>n. alloc = Some n \<longrightarrow> n \<notin> live_ranges st"
    and "\<forall>x. x \<notin> set (unpinned_list (areas st a)) \<longrightarrow> alloc \<noteq> Some x \<longrightarrow> ranges st' x = ranges st x"
  shows "unpinned st' b = unpinned st b"
proof -
  have "ranges st' x = ranges st x" if "x \<in> set (unpinned_list (areas st b))" for x
    using live_range_unique [OF assms(1,3) that assms(2)] live_range_area(3) [OF assms(1,3) that] assms(4,6,7) by metis
  then show ?thesis by (simp add: unpinned_def assms(5))
qed

section \<open>The other operations keep the invariant\<close>

lemma ashmem_inv_frame:
  assumes "ashmem_inv st" "open_areas st' = open_areas st" "ranges st' = ranges st"
    and "\<And>b. unpinned_list (areas st' b) = unpinned_list (areas st b)"
    and "ashmem_lru_list st' = ashmem_lru_list st" "lru_count st' = lru_count st"
  shows "ashmem_inv st'"
  using assms by (simp add: ashmem_inv_def area_inv_def lru_inv_def live_ranges_def)

lemma ashmem_open_inv:
  assumes "ashmem_inv st" "ashmem_open opened alloc st = (ret, st')" "\<forall>a. alloc = Some a \<longrightarrow> a \<notin> set (open_areas st)"
  shows "ashmem_inv st'"
proof (cases "opened \<noteq> 0 \<or> alloc = None")
  case True
  then show ?thesis using assms(1,2) by (auto simp: ashmem_open_def split: option.splits if_splits)
next
  case False
  then obtain a where a: "alloc = Some a" "a \<notin> set (open_areas st)" using assms(3) by auto
  define A where "A = \<lparr>a_name = ASHMEM_NAME_PREFIX @ replicate ASHMEM_NAME_LEN zero_char,
    unpinned_list = [], a_file = NULL, a_size = 0, vm_start = 0, prot_mask = PROT_MASK\<rparr>"
  have st': "st' = st\<lparr>areas := (areas st)(a := A), open_areas := a # open_areas st\<rparr>"
    using False a assms(2) by (simp add: ashmem_open_def A_def)
  have "unpinned_list A = []" by (simp add: A_def)
  moreover from this have "live_ranges st' = live_ranges st"
    using a(2) by (auto simp: live_ranges_def st' split: if_splits)
  ultimately show ?thesis
    using assms(1) a(2) by (auto simp: ashmem_inv_def area_inv_def lru_inv_def st' descending_def)
qed

lemma fold_range_del:
  assumes "ashmem_inv st" "a \<in> set (open_areas st)" "unpinned_list (areas st a) = rs"
  shows "ashmem_inv (fold range_del rs st) \<and> unpinned_list (areas (fold range_del rs st) a) = [] \<and>
    open_areas (fold range_del rs st) = open_areas st \<and>
    (\<forall>b. b \<noteq> a \<longrightarrow> areas (fold range_del rs st) b = areas st b) \<and> ranges (fold range_del rs st) = ranges st"
  using assms
proof (induction rs arbitrary: st)
  case (Cons r rs)
  have r: "r \<in> set (unpinned_list (areas st a))" using Cons.prems(3) by simp
  note d = range_del_unpinned [OF Cons.prems(1,2) r]
  have "unpinned_list (areas (range_del r st) a) = rs" using d(1) Cons.prems(3) by simp
  from Cons.IH [OF range_del_inv [OF Cons.prems(1,2) r] _ this] show ?case
    using Cons.prems(2) d(2) by simp
qed simp

lemma ashmem_release_inv:
  assumes "ashmem_inv st" "a \<in> set (open_areas st)" "ashmem_release a st = (ret, f, st')"
  shows "ashmem_inv st' \<and> set (open_areas st') = set (open_areas st) - {a}"
proof -
  define st1 where "st1 = fold range_del (unpinned_list (areas st a)) st"
  have s1: "ashmem_inv st1" "unpinned_list (areas st1 a) = []" "open_areas st1 = open_areas st"
    using fold_range_del [OF assms(1,2) refl] by (simp_all add: st1_def)
  have st': "st' = st1\<lparr>open_areas := remove1 a (open_areas st1)\<rparr>"
    using assms(3) by (simp add: ashmem_release_def Let_def st1_def)
  have d: "distinct (open_areas st)" using assms(1) by (simp add: ashmem_inv_def)
  have "live_ranges st' = live_ranges st1" using s1(2,3) d by (auto simp: live_ranges_def st')
  then show ?thesis using s1 d by (auto simp: ashmem_inv_def area_inv_def lru_inv_def st')
qed

text \<open>The shrinker purges a prefix of the LRU list.\<close>

lemma purge_inv:
  fixes t
  assumes inv: "ashmem_inv st" and lru: "ashmem_lru_list st = r # rs"
  defines "st' \<equiv> lru_del r (st\<lparr>truncated := t, ranges := (ranges st)(r := (ranges st r)\<lparr>purged := 1\<rparr>)\<rparr>)"
  shows "ashmem_inv st'" "ashmem_lru_list st' = rs" "areas st' = areas st" "open_areas st' = open_areas st"
    "ranges st' = (ranges st)(r := (ranges st r)\<lparr>purged := 1\<rparr>)" "truncated st' = t"
proof -
  show simps: "ashmem_lru_list st' = rs" "areas st' = areas st" "open_areas st' = open_areas st"
    "ranges st' = (ranges st)(r := (ranges st r)\<lparr>purged := 1\<rparr>)" "truncated st' = t"
    by (simp_all add: st'_def lru_del_def lru)
  have l: "distinct (r # rs)" "set (r # rs) = {x \<in> live_ranges st. purged (ranges st x) = 0}"
    "lru_count st = of_nat (rsize (ranges st r) + (\<Sum>x\<leftarrow>rs. rsize (ranges st x)))"
    using inv by (simp_all add: ashmem_inv_def lru_inv_def lru)
  have rsz: "rsize (ranges st' x) = rsize (ranges st x)" for x
    by (simp add: simps rsize_def)
  obtain a where a: "a \<in> set (open_areas st)" "r \<in> set (unpinned_list (areas st a))"
    using l(2) by (auto simp: live_ranges_def)
  have wf: "range_wf a (ranges st r)" using live_range_area [OF inv a] by simp
  have cnt: "lru_count st' = of_nat (\<Sum>x\<leftarrow>rs. rsize (ranges st x))"
    using l(3) range_size_eq [of "ranges st r"] wf
    by (simp add: st'_def lru_del_def range_wf_def) (simp add: range_size_def)
  have live: "live_ranges st' = live_ranges st" by (simp add: live_ranges_def simps)
  have "set rs = {x \<in> live_ranges st'. purged (ranges st' x) = 0}"
    unfolding live simps using l(1,2) by (auto split: if_splits)
  then have "lru_inv st'"
    unfolding lru_inv_def simps(1) using l(1) cnt by (simp add: rsz)
  moreover have "area_inv st' b" if "b \<in> set (open_areas st)" for b
    using inv that unfolding ashmem_inv_def area_inv_def simps
    by (auto simp: range_wf_def descending_def elim!: sorted_wrt_mono_rel [rotated] split: if_splits)
  ultimately show "ashmem_inv st'"
    using inv by (simp add: ashmem_inv_def simps)
qed

definition purge_all :: "ptr list \<Rightarrow> (ptr \<Rightarrow> ashmem_range) \<Rightarrow> ptr \<Rightarrow> ashmem_range" where
  "purge_all ps h = (\<lambda>x. if x \<in> set ps then (h x)\<lparr>purged := 1\<rparr> else h x)"

text \<open>Where the shrinker stops: after the first range that brings the pages purged to the goal.\<close>

fun shrink_cut :: "u32 \<Rightarrow> ashmem_range list \<Rightarrow> nat" where
  "shrink_cut nr [] = 0"
| "shrink_cut nr (R # Rs) =
     (let nr = nr - range_size R in if sint nr \<le> 0 then 1 else Suc (shrink_cut nr Rs))"

definition truncation :: "ashmem \<Rightarrow> ptr \<Rightarrow> ptr \<times> nat \<times> nat" where
  "truncation st r =
     (let R = ranges st r
      in (a_file (areas st (asma R)), unat (pgstart R * PAGE_SIZE), unat ((pgend R + 1) * PAGE_SIZE - 1)))"

lemma shrink_loop_spec:
  assumes "ashmem_inv st" "ashmem_lru_list st = rs"
  shows "let n = shrink_cut nr (map (ranges st) rs); st' = shrink_loop rs nr st in
    ashmem_inv st' \<and> ashmem_lru_list st' = drop n rs \<and> areas st' = areas st \<and>
    open_areas st' = open_areas st \<and> ranges st' = purge_all (take n rs) (ranges st) \<and>
    truncated st' = truncated st @ map (truncation st) (take n rs)"
  using assms
proof (induction rs arbitrary: nr st)
  case Nil
  then show ?case by (simp add: purge_all_def)
next
  case (Cons r rs)
  define t where "t = truncated st @ [truncation st r]"
  define st1 where "st1 = lru_del r (st\<lparr>truncated := t, ranges := (ranges st)(r := (ranges st r)\<lparr>purged := 1\<rparr>)\<rparr>)"
  note p = purge_inv [OF Cons.prems, of t, folded st1_def]
  define nr' where "nr' = nr - range_size (ranges st r)"
  have "range_size (ranges st1 r) = range_size (ranges st r)" by (simp add: p(5) range_size_def)
  then have step: "shrink_loop (r # rs) nr st = (if sint nr' \<le> 0 then st1 else shrink_loop rs nr' st1)"
    by (simp add: Let_def ASHMEM_WAS_PURGED_def st1_def t_def truncation_def nr'_def)
  have rn: "r \<notin> set rs" using Cons.prems by (auto simp: ashmem_inv_def lru_inv_def)
  have m: "map (ranges st1) rs = map (ranges st) rs" using rn by (auto simp: p(5))
  have tr: "map (truncation st1) xs = map (truncation st) xs" if "r \<notin> set xs" for xs
    using that by (auto simp: truncation_def p)
  show ?case
  proof (cases "sint nr' \<le> 0")
    case True
    then show ?thesis
      using p step by (auto simp: nr'_def [symmetric] Let_def t_def purge_all_def)
  next
    case False
    define n where "n = shrink_cut nr' (map (ranges st) rs)"
    have "purge_all (take n rs) (ranges st1) = purge_all (r # take n rs) (ranges st)"
      using rn by (auto simp: purge_all_def p(5) dest: in_set_takeD)
    moreover have "r \<notin> set (take n rs)" using rn by (auto dest: in_set_takeD)
    moreover have "shrink_loop (r # rs) nr st = shrink_loop rs nr' st1"
      unfolding step using False by (rule if_not_P)
    moreover have "shrink_cut nr (map (ranges st) (r # rs)) = Suc n"
      using False by (simp add: nr'_def [symmetric] n_def)
    moreover note Cons.IH [OF p(1,2), of nr', unfolded m Let_def n_def [symmetric]]
    ultimately show ?thesis
      using tr [of "take n rs"] p(3,4,6) by (simp only: Let_def) (simp add: t_def)
  qed
qed

lemma ashmem_shrink_inv:
  assumes "ashmem_inv st" "ashmem_shrink trylock nr gm st = (ret, st')"
  shows "ashmem_inv st' \<and> areas st' = areas st \<and> open_areas st' = open_areas st"
  using shrink_loop_spec [OF assms(1) refl, of nr] assms
  by (auto simp: ashmem_shrink_def Let_def split: if_splits)

section \<open>Requests and reachable states\<close>

lemma unat_div_page: "unat (x div PAGE_SIZE) = unat x div 4096"
  unfolding PAGE_SIZE_def by (simp add: unat_div)

lemma pin_request_ordered:
  assumes "pin_request area pin = Inr (s, e)"
  shows "unat s \<le> unat e + 1"
proof -
  obtain offset len where se: "s = offset div PAGE_SIZE" "e = s + len div PAGE_SIZE - 1"
    using assms by (auto simp: pin_request_def Let_def split: if_splits option.splits)
  then have s: "unat s < 2 ^ 20" and l: "unat (len div PAGE_SIZE) < 2 ^ 20 + 1"
    using unsigned_less [of offset, where ?'a = nat] unsigned_less [of len, where ?'a = nat]
    by (simp_all add: unat_div_page)
  then have sum: "unat (s + len div PAGE_SIZE) = unat s + unat (len div PAGE_SIZE)"
    by (intro unat_add_lt) simp
  show ?thesis
  proof (cases "s + len div PAGE_SIZE = 0")
    case True
    then show ?thesis using sum by simp
  next
    case False
    then have "unat e = unat (s + len div PAGE_SIZE) - 1"
      unfolding se(2) by (intro unat_minus1 [of 0]) (simp add: word_neq_0_conv)
    then show ?thesis using sum by simp
  qed
qed

lemma ashmem_pin_spec:
  assumes "ashmem_pin alloc a s e st = (ret, st')" "ashmem_inv st" "a \<in> set (open_areas st)"
    and "unat s \<le> unat e + 1" "\<forall>n. alloc = Some n \<longrightarrow> n \<notin> live_ranges st"
  shows "\<exists>w. ret = uint w \<and> pinned_spec alloc a s e [] (unpinned_list (areas st a)) 0 st w st'"
  using assms pin_loop_spec [of alloc a s e "unpinned_list (areas st a)" 0 st _ st' "[]"]
  by (auto simp: ashmem_pin_def ASHMEM_NOT_PURGED_def split: prod.splits)

lemma ashmem_unpin_spec:
  assumes "ashmem_inv st" "a \<in> set (open_areas st)" "unat s \<le> unat e + 1"
    and "\<forall>n. alloc = Some n \<longrightarrow> n \<notin> live_ranges st"
  shows "\<exists>ret st'. ashmem_unpin alloc a s e st = Some (ret, st') \<and> unpin_spec alloc a s e st ret st'"
  unfolding ashmem_unpin_def by (rule unpin_loop_spec) (use assms in \<open>simp_all add: ASHMEM_NOT_PURGED_def\<close>)

lemma ashmem_pin_unpin_inv:
  assumes "ashmem_inv st" "a \<in> set (open_areas st)" "\<forall>n. alloc = Some n \<longrightarrow> n \<notin> live_ranges st"
  shows "\<exists>ret st'. ashmem_pin_unpin alloc a cmd st = Some (ret, st') \<and> ashmem_inv st' \<and>
    open_areas st' = open_areas st"
proof -
  have "\<exists>ret st'. Some (ashmem_pin alloc a s e st) = Some (ret, st') \<and> ashmem_inv st' \<and>
      open_areas st' = open_areas st"
    "\<exists>ret st'. ashmem_unpin alloc a s e st = Some (ret, st') \<and> ashmem_inv st' \<and> open_areas st' = open_areas st"
    if "pin_request (areas st a) pin = Inr (s, e)" for pin s e
    using ashmem_pin_spec [OF _ assms(1,2) pin_request_ordered [OF that] assms(3)]
      ashmem_unpin_spec [OF assms(1,2) pin_request_ordered [OF that] assms(3)]
    by (cases "ashmem_pin alloc a s e st"; force simp: pinned_spec_def unpin_spec_def)+
  then show ?thesis
    using assms(1) unfolding ashmem_pin_unpin_def by (simp split: ashmem_cmd.split sum.split)
qed

lemma ashmem_ioctl_inv:
  assumes "ashmem_inv st" "a \<in> set (open_areas st)" "\<forall>n. alloc = Some n \<longrightarrow> n \<notin> live_ranges st"
  shows "\<exists>ret st'. ashmem_ioctl walk trylock personality alloc a cmd st = Some (ret, st') \<and> ashmem_inv st' \<and>
    open_areas st' = open_areas st"
proof -
  note frame = ashmem_inv_frame [OF assms(1)]
  have prot: "ashmem_inv (snd (set_prot_mask personality a prot st)) \<and>
      open_areas (snd (set_prot_mask personality a prot st)) = open_areas st" for prot
    using assms(1) by (auto simp: set_prot_mask_def Let_def intro!: frame)
  have name: "ashmem_inv (snd (set_name fault data a st)) \<and>
      open_areas (snd (set_name fault data a st)) = open_areas st" for fault data
    using assms(1) by (auto simp: set_name_def Let_def intro!: frame)
  have size: "ashmem_inv (st\<lparr>areas := (areas st)(a := (areas st a)\<lparr>a_size := arg\<rparr>)\<rparr>)" for arg
    by (rule frame) auto
  show ?thesis
  proof (cases cmd)
    case (ASHMEM_SET_NAME fault data)
    then show ?thesis using name [of fault data] by (cases "set_name fault data a st") (simp add: ashmem_ioctl_def)
  next
    case (ASHMEM_SET_PROT_MASK prot)
    then show ?thesis using prot [of prot] by (cases "set_prot_mask personality a prot st") (simp add: ashmem_ioctl_def)
  next
    case (ASHMEM_PURGE_ALL_CACHES capable)
    obtain r1 st1 where 1: "ashmem_shrink trylock 0 GFP_KERNEL st = (r1, st1)" by fastforce
    obtain r2 st2 where 2: "ashmem_shrink trylock (of_int r1) GFP_KERNEL st1 = (r2, st2)" by fastforce
    show ?thesis
      using ASHMEM_PURGE_ALL_CACHES assms(1) 1 2 ashmem_shrink_inv [OF assms(1) 1] ashmem_shrink_inv [OF _ 2]
      by (simp add: ashmem_ioctl_def)
  qed (use assms ashmem_pin_unpin_inv [OF assms] size in \<open>simp_all add: ashmem_ioctl_def\<close>)
qed

lemma ashmem_mmap_inv:
  assumes "ashmem_inv st" "ashmem_mmap setup a vma st = (ret, vma', st')"
  shows "ashmem_inv st' \<and> open_areas st' = open_areas st"
  using assms
  by (auto simp: ashmem_mmap_def Let_def split: if_splits sum.splits intro!: ashmem_inv_frame [OF assms(1)])

definition ashmem_start :: ashmem where
  "ashmem_start =
     \<lparr>areas = (\<lambda>_. \<lparr>a_name = [], unpinned_list = [], a_file = NULL, a_size = 0, vm_start = 0, prot_mask = 0\<rparr>),
      ranges = (\<lambda>_. \<lparr>asma = NULL, pgstart = 0, pgend = 0, purged = 0\<rparr>),
      ashmem_lru_list = [], lru_count = 0, open_areas = [], truncated = []\<rparr>"

text \<open>
  The calls the device can see, in any order: the allocator returns memory that is not in use, and the
  file operations get an open file.
\<close>

inductive ashmem_step :: "ashmem \<Rightarrow> ashmem \<Rightarrow> bool" where
  opens: "ashmem_open opened alloc st = (ret, st') \<Longrightarrow> \<forall>a. alloc = Some a \<longrightarrow> a \<notin> set (open_areas st) \<Longrightarrow>
    ashmem_step st st'"
| closes: "a \<in> set (open_areas st) \<Longrightarrow> ashmem_release a st = (ret, f, st') \<Longrightarrow> ashmem_step st st'"
| maps: "a \<in> set (open_areas st) \<Longrightarrow> ashmem_mmap setup a vma st = (ret, vma', st') \<Longrightarrow> ashmem_step st st'"
| control: "a \<in> set (open_areas st) \<Longrightarrow> \<forall>n. alloc = Some n \<longrightarrow> n \<notin> live_ranges st \<Longrightarrow>
    ashmem_ioctl walk trylock personality alloc a cmd st = Some (ret, st') \<Longrightarrow> ashmem_step st st'"
| shrinks: "ashmem_shrink trylock nr gm st = (ret, st') \<Longrightarrow> ashmem_step st st'"

lemma ashmem_step_inv: "ashmem_step st st' \<Longrightarrow> ashmem_inv st \<Longrightarrow> ashmem_inv st'"
proof (induction rule: ashmem_step.induct)
  case (control a st alloc walk trylock personality cmd ret st')
  then show ?case using ashmem_ioctl_inv [of st a alloc walk trylock personality cmd] by auto
qed (auto dest: ashmem_open_inv ashmem_release_inv ashmem_mmap_inv ashmem_shrink_inv)

lemma ashmem_start_inv: "ashmem_inv ashmem_start"
  by (simp add: ashmem_inv_def ashmem_start_def lru_inv_def live_ranges_def)

section \<open>Properties\<close>

lemma ashmem_reachable_ashmem_inv: "ashmem_step\<^sup>*\<^sup>* ashmem_start st \<Longrightarrow> ashmem_inv st"
  by (induction rule: rtranclp_induct) (auto simp: ashmem_start_inv intro: ashmem_step_inv)

text \<open>
  (C21) Whatever files are opened, mapped, controlled and closed, and whenever the shrinker runs: the
  unpinned ranges of every open area are disjoint and sorted from high to low, every unpurged range of
  an open area is on the LRU list once and nothing else is, and \<open>lru_count\<close> is the number of their pages
  modulo \<open>2 ^ 32\<close>.
\<close>

theorem ashmem_reachable_inv:
  assumes "ashmem_step\<^sup>*\<^sup>* ashmem_start st"
  shows "(\<forall>a\<in>set (open_areas st). descending (ranges st) (unpinned_list (areas st a))) \<and>
    distinct (ashmem_lru_list st) \<and>
    set (ashmem_lru_list st) = {r \<in> live_ranges st. range_on_lru (ranges st r)} \<and>
    lru_count st = of_nat (\<Sum>r\<leftarrow>ashmem_lru_list st. rsize (ranges st r))"
  using ashmem_reachable_ashmem_inv [OF assms]
  by (simp add: ashmem_inv_def area_inv_def lru_inv_def range_on_lru_def ASHMEM_NOT_PURGED_def)

text \<open>A run for the witnesses: an area of eight pages, mapped, pages two to five unpinned.\<close>

definition demo_size :: ashmem where
  "demo_size = snd (the (ashmem_ioctl (\<lambda>_. None) True 0 None 100 (ASHMEM_SET_SIZE 32768)
     (snd (ashmem_open 0 (Some 100) ashmem_start))))"

definition demo_mapped :: ashmem where
  "demo_mapped = snd (snd (ashmem_mmap (\<lambda>_ _ _. Inr 7) 100
     \<lparr>vm_flags = 3, vma_start = 4096, vm_file = NULL, shmem_ops = False\<rparr> demo_size))"

definition demo_unpinned :: ashmem where
  "demo_unpinned = snd (the (ashmem_ioctl (\<lambda>_. None) True 0 (Some 200) 100 (ASHMEM_UNPIN (Some (8192, 16384)))
     demo_mapped))"

lemmas demo_eval = ashmem_ioctl_def ashmem_open_def ashmem_mmap_def ashmem_pin_unpin_def pin_request_def
  ashmem_unpin_def ashmem_unpin_loop.simps range_alloc_def set_unpinned_def lru_add_def range_on_lru_def
  range_size_def PAGE_SIZE_def PAGE_ALIGN_def calc_vm_prot_bits_def calc_vm_may_flags_def calc_vm_trans_def
  prot_defs ashmem_start_def Let_def ASHMEM_NOT_PURGED_def zero_char_def

lemma demo_size_eq:
  "demo_size = ashmem_start\<lparr>areas := (areas ashmem_start)(100 :=
     \<lparr>a_name = ASHMEM_NAME_PREFIX @ replicate ASHMEM_NAME_LEN zero_char, unpinned_list = [], a_file = NULL,
      a_size = 32768, vm_start = 0, prot_mask = PROT_MASK\<rparr>), open_areas := [100]\<rparr>"
  by (simp add: demo_size_def demo_eval)

lemma demo_mapped_eq:
  "demo_mapped = demo_size\<lparr>areas := (areas demo_size)(100 :=
     (areas demo_size 100)\<lparr>a_file := 7, vm_start := 4096\<rparr>)\<rparr>"
  unfolding demo_mapped_def demo_size_eq by (simp add: demo_eval)

lemma demo_unpinned_eq:
  "demo_unpinned = demo_mapped\<lparr>
     areas := (areas demo_mapped)(100 := (areas demo_mapped 100)\<lparr>unpinned_list := [200]\<rparr>),
     ranges := (ranges demo_mapped)(200 := \<lparr>asma = 100, pgstart = 2, pgend = 5, purged = 0\<rparr>),
     ashmem_lru_list := [200], lru_count := 4\<rparr>"
  unfolding demo_unpinned_def demo_mapped_eq demo_size_eq by (simp add: demo_eval)

lemma surjective_pairing3: "t = (fst t, fst (snd t), snd (snd t))"
  by simp

lemma demo_reachable: "ashmem_step\<^sup>*\<^sup>* ashmem_start demo_unpinned"
proof -
  have "ashmem_step ashmem_start (snd (ashmem_open 0 (Some 100) ashmem_start))"
    by (rule ashmem_step.opens [of 0 "Some 100" _ 0]) (simp_all add: ashmem_open_def ashmem_start_def)
  moreover have "ashmem_step (snd (ashmem_open 0 (Some 100) ashmem_start)) demo_size"
    unfolding demo_size_def
    by (rule ashmem_step.control [of 100 _ None "\<lambda>_. None" True 0 "ASHMEM_SET_SIZE 32768" 0])
      (simp_all add: ashmem_open_def ashmem_ioctl_def ashmem_start_def)
  moreover have "ashmem_step demo_size demo_mapped"
    unfolding demo_mapped_def by (rule ashmem_step.maps [OF _ surjective_pairing3]) (simp add: demo_size_eq)
  moreover have "ashmem_step demo_mapped demo_unpinned"
    by (rule ashmem_step.control [of 100 _ "Some 200" "\<lambda>_. None" True 0 "ASHMEM_UNPIN (Some (8192, 16384))" 0])
      (simp_all add: demo_unpinned_eq, simp_all add: demo_mapped_eq demo_size_eq demo_eval live_ranges_def)
  ultimately show ?thesis by (meson converse_rtranclp_into_rtranclp rtranclp.rtrancl_refl)
qed

theorem ashmem_reachable_inv_witness:
  "lru_count demo_unpinned = 4 \<and>
   (\<Sum>r\<leftarrow>ashmem_lru_list demo_unpinned. rsize (ranges demo_unpinned r)) = 4 \<and>
   lru_count demo_unpinned =
     of_nat (\<Sum>r\<leftarrow>ashmem_lru_list demo_unpinned. rsize (ranges demo_unpinned r))"
  using ashmem_reachable_inv [OF demo_reachable] by (simp add: demo_unpinned_eq rsize_def)

text \<open>An accepted request for no pages leaves an empty range behind; the other ranges have pages.\<close>

definition no_empty :: "ashmem \<Rightarrow> ptr \<Rightarrow> bool" where
  "no_empty st a \<longleftrightarrow> (\<forall>r\<in>set (unpinned_list (areas st a)). pgstart (ranges st r) \<le> pgend (ranges st r))"

lemma in_range_overlap:
  assumes "pgstart R \<le> pgend R" "s \<le> e"
  shows "page_range_in_range R s e \<longleftrightarrow> pages_of R \<inter> {s..e} \<noteq> {}"
proof
  assume "page_range_in_range R s e"
  then have "s \<in> pages_of R \<inter> {s..e} \<or> e \<in> pages_of R \<inter> {s..e} \<or> pgstart R \<in> pages_of R \<inter> {s..e}"
    using assms by (auto simp: page_range_in_range_def page_in_range_def page_range_subsumes_range_def pages_of_def)
  then show "pages_of R \<inter> {s..e} \<noteq> {}" by blast
next
  assume "pages_of R \<inter> {s..e} \<noteq> {}"
  then show "page_range_in_range R s e"
    by (auto simp: page_range_in_range_def page_in_range_def page_range_subsumes_range_def pages_of_def
        not_le intro: order.trans less_imp_le)
qed

lemma hit_purged_overlap:
  assumes "no_empty st a" "s \<le> e"
  shows "hit_purged s e (ranges st) (unpinned_list (areas st a)) \<longleftrightarrow>
    (\<exists>r\<in>set (unpinned_list (areas st a)). purged (ranges st r) \<noteq> 0 \<and> pages_of (ranges st r) \<inter> {s..e} \<noteq> {})"
proof -
  have "pages_of R \<inter> {s..e} \<noteq> {} \<Longrightarrow> s \<le> pgend R" for R by (auto simp: pages_of_def intro: order.trans)
  then show ?thesis
    using assms in_range_overlap [OF _ assms(2)] unfolding hit_purged_def no_empty_def by blast
qed



text \<open>
  A pin request answers \<open>ASHMEM_WAS_PURGED\<close> when one of its pages was in a range the shrinker has
  purged, and \<open>ASHMEM_NOT_PURGED\<close> otherwise, also when there is no memory for a new range.
\<close>

theorem ashmem_pin_reports:
  assumes "ashmem_step\<^sup>*\<^sup>* ashmem_start st" "a \<in> set (open_areas st)" "no_empty st a"
    and "pin_request (areas st a) pin = Inr (s, e)" "s \<le> e" "\<forall>n. alloc = Some n \<longrightarrow> n \<notin> live_ranges st"
  shows "map_option fst (ashmem_ioctl walk trylock personality alloc a (ASHMEM_PIN pin) st) =
    Some (if \<exists>r\<in>set (unpinned_list (areas st a)). purged (ranges st r) \<noteq> 0 \<and> pages_of (ranges st r) \<inter> {s..e} \<noteq> {}
          then uint ASHMEM_WAS_PURGED else uint ASHMEM_NOT_PURGED)"
proof -
  obtain ret st' where p: "ashmem_pin alloc a s e st = (ret, st')" by fastforce
  from ashmem_pin_spec [OF p ashmem_reachable_ashmem_inv [OF assms(1)] assms(2) pin_request_ordered [OF assms(4)] assms(6)]
  have "ret = uint (if hit_purged s e (ranges st) (unpinned_list (areas st a)) then 1 else 0 :: u32)"
    by (auto simp: pinned_spec_def)
  then show ?thesis
    unfolding hit_purged_overlap [OF assms(3,5)]
    using p assms(4) by (simp add: ashmem_ioctl_def ashmem_pin_unpin_def ASHMEM_WAS_PURGED_def ASHMEM_NOT_PURGED_def)
qed

theorem ashmem_pin_reports_witness:
  "map_option fst (ashmem_ioctl (\<lambda>_. None) True 0 None 100 (ASHMEM_PIN (Some (12288, 4096))) demo_unpinned) =
     Some (uint ASHMEM_NOT_PURGED)"
proof -
  have "pin_request (areas demo_unpinned 100) (Some (12288, 4096)) = Inr (3, 3)"
    by (simp add: demo_unpinned_eq demo_mapped_eq demo_size_eq demo_eval)
  from ashmem_pin_reports [OF demo_reachable _ _ this, of None "\<lambda>_. None" True 0]
  show ?thesis by (simp add: demo_unpinned_eq demo_mapped_eq demo_size_eq no_empty_def)
qed

text \<open>
  (C20) An unpin request for the pages \<open>s\<close> to \<open>e\<close> either succeeds and makes exactly these pages unpinned,
  in addition to those that were, or fails with \<open>ENOMEM\<close>, only when there is no memory for the new
  range, and makes no page unpinned.  The other open areas keep their pages.
\<close>

theorem ashmem_unpin_unpins:
  assumes "ashmem_step\<^sup>*\<^sup>* ashmem_start st" "a \<in> set (open_areas st)"
    and "pin_request (areas st a) pin = Inr (s, e)" "\<forall>n. alloc = Some n \<longrightarrow> n \<notin> live_ranges st"
  shows "\<exists>ret st'. ashmem_ioctl walk trylock personality alloc a (ASHMEM_UNPIN pin) st = Some (ret, st') \<and>
    (if ret = 0 then unpinned st' a = unpinned st a \<union> {s..e}
     else ret = - ENOMEM \<and> alloc = None \<and> unpinned st' a \<subseteq> unpinned st a) \<and>
    (\<forall>b\<in>set (open_areas st) - {a}. unpinned st' b = unpinned st b)"
proof -
  note inv = ashmem_reachable_ashmem_inv [OF assms(1)]
  obtain ret st' where u: "ashmem_unpin alloc a s e st = Some (ret, st')" "unpin_spec alloc a s e st ret st'"
    using ashmem_unpin_spec [OF inv assms(2) pin_request_ordered [OF assms(3)] assms(4)] by blast
  moreover have "unpinned st' b = unpinned st b" if "b \<in> set (open_areas st) - {a}" for b
    using u(2) that assms(4) by (intro other_unpinned [OF inv assms(2)]) (auto simp: unpin_spec_def)
  ultimately show ?thesis using assms(3) by (auto simp: ashmem_ioctl_def ashmem_pin_unpin_def unpin_spec_def)
qed

theorem ashmem_unpin_unpins_witness:
  "\<exists>ret st'. ashmem_ioctl (\<lambda>_. None) True 0 None 100 (ASHMEM_UNPIN (Some (0, 12288))) demo_unpinned
     = Some (ret, st') \<and>
    (if ret = 0 then unpinned st' 100 = unpinned demo_unpinned 100 \<union> {0..2}
     else ret = - ENOMEM \<and> None = (None :: ptr option) \<and> unpinned st' 100 \<subseteq> unpinned demo_unpinned 100) \<and>
    (\<forall>b\<in>set (open_areas demo_unpinned) - {100}. unpinned st' b = unpinned demo_unpinned b)"
  by (rule ashmem_unpin_unpins [OF demo_reachable])
    (simp_all add: demo_unpinned_eq demo_mapped_eq demo_size_eq demo_eval)

lemma pin_status_loop_overlap:
  assumes "\<forall>R\<in>set Rs. pgstart R \<le> pgend R" "s \<le> e" "sorted_wrt (\<lambda>R R'. pgend R' < pgstart R) Rs"
  shows "pin_status_loop s e Rs = ASHMEM_IS_UNPINNED \<longleftrightarrow> (\<Union>R\<in>set Rs. pages_of R) \<inter> {s..e} \<noteq> {}"
  using assms
proof (induction Rs)
  case (Cons R Rs)
  have "pages_of R' \<inter> {s..e} = {}" if "R' = R \<or> R' \<in> set Rs" "range_before_page R s" for R'
    using that Cons.prems by (auto simp: pages_of_def range_before_page_def not_le dest: order.strict_trans2)
  then have "range_before_page R s \<Longrightarrow> (\<Union>R\<in>set (R # Rs). pages_of R) \<inter> {s..e} = {}" by auto
  then show ?case
    using Cons in_range_overlap [of R s e] by (auto simp: ASHMEM_IS_UNPINNED_def ASHMEM_IS_PINNED_def)
qed (simp add: ASHMEM_IS_UNPINNED_def ASHMEM_IS_PINNED_def)



subsection \<open>The shrinker\<close>

text \<open>With at most \<open>2 ^ 31 - 1\<close> unpurged pages the shrinker's counter does not overflow.\<close>

lemma sint_pos_unat: "0 < sint (x :: u32) \<Longrightarrow> sint x = int (unat x)"
  using uint_bounded [of x] by (simp add: sint_u32 split: if_splits)

lemma sint_minus_small:
  assumes "0 < sint (x :: u32)" "n < 2 ^ 31"
  shows "sint (x - of_nat n) = int (unat x) - int n"
proof -
  have "sint x < 2 ^ 31" "int n < 2 ^ 31" using sint_lt [of x] assms(2) by simp_all
  then have "sint (of_int (sint x - int n) :: u32) = sint x - int n"
    using assms(1) by (intro sint_of_int_u32) linarith+
  then show ?thesis using sint_pos_unat [OF assms(1)] by simp
qed

lemma shrink_cut_enough:
  assumes "(\<Sum>R\<leftarrow>Rs. rsize R) < 2 ^ 31" "0 < sint nr" "\<forall>R\<in>set Rs. unat (pgstart R) \<le> unat (pgend R) + 1"
  shows "(shrink_cut nr Rs = length Rs \<or> unat nr \<le> (\<Sum>R\<leftarrow>take (shrink_cut nr Rs) Rs. rsize R)) \<and>
    (\<forall>k < shrink_cut nr Rs. (\<Sum>R\<leftarrow>take k Rs. rsize R) < unat nr)"
  using assms
proof (induction Rs arbitrary: nr)
  case (Cons R Rs)
  have nr: "0 < unat nr" using sint_pos_unat [OF Cons.prems(2)] Cons.prems(2) by linarith
  have "rsize R < 2 ^ 31" using Cons.prems(1) by simp
  then have s: "sint (nr - range_size R) = int (unat nr) - int (rsize R)"
    using sint_minus_small [OF Cons.prems(2), of "rsize R"] Cons.prems(3) by (simp add: range_size_eq)
  show ?case
  proof (cases "sint (nr - range_size R) \<le> 0")
    case True
    then have "unat nr \<le> rsize R" using s by linarith
    then show ?thesis using True nr by (simp add: Let_def)
  next
    case False
    then have u: "unat nr = unat (nr - range_size R) + rsize R"
      using s sint_pos_unat [of "nr - range_size R"] by linarith
    define m where "m = nr - range_size R"
    have IH: "(shrink_cut m Rs = length Rs \<or> unat m \<le> (\<Sum>R\<leftarrow>take (shrink_cut m Rs) Rs. rsize R)) \<and>
        (\<forall>k < shrink_cut m Rs. (\<Sum>R\<leftarrow>take k Rs. rsize R) < unat m)"
      using False Cons.prems unfolding m_def by (intro Cons.IH) simp_all
    have cut: "shrink_cut nr (R # Rs) = Suc (shrink_cut m Rs)" using False by (simp add: Let_def m_def)
    have "(\<Sum>R\<leftarrow>take k (R # Rs). rsize R) < unat nr" if "k < Suc (shrink_cut m Rs)" for k
      using IH that u nr Cons.prems(2) by (cases k) (auto simp: m_def [symmetric])
    then show ?thesis using IH u unfolding cut m_def [symmetric] by auto
  qed
qed auto

lemma pages_of_purge_all: "pages_of (purge_all ps h x) = pages_of (h x)"
  by (simp add: purge_all_def pages_of_def)

lemma lru_range_wf:
  assumes "ashmem_inv st" "r \<in> set (ashmem_lru_list st)"
  shows "unat (pgstart (ranges st r)) \<le> unat (pgend (ranges st r)) + 1"
  using assms live_range_area(1) [OF assms(1)]
  by (auto simp: ashmem_inv_def lru_inv_def live_ranges_def range_wf_def)

text \<open>
  (C22) Asked to scan \<open>nr\<close> pages, the shrinker purges the least number of ranges, from the one unpinned
  first, that together have \<open>nr\<close> pages, or all of them: it truncates exactly these, in this order, marks
  them purged, takes them off the LRU list, and does not pin or unpin any page.
\<close>

theorem ashmem_shrink_purges:
  assumes "ashmem_step\<^sup>*\<^sup>* ashmem_start st" "0 < sint nr" "gm AND GFP_FS \<noteq> 0"
    and "(\<Sum>r\<leftarrow>ashmem_lru_list st. rsize (ranges st r)) < 2 ^ 31"
  shows "\<exists>n ret st'. ashmem_shrink True nr gm st = (ret, st') \<and>
    ashmem_lru_list st' = drop n (ashmem_lru_list st) \<and>
    ranges st' = purge_all (take n (ashmem_lru_list st)) (ranges st) \<and>
    truncated st' = truncated st @ map (truncation st) (take n (ashmem_lru_list st)) \<and>
    (\<forall>a. unpinned st' a = unpinned st a) \<and>
    (n = length (ashmem_lru_list st) \<or> unat nr \<le> (\<Sum>r\<leftarrow>take n (ashmem_lru_list st). rsize (ranges st r))) \<and>
    (\<forall>k<n. (\<Sum>r\<leftarrow>take k (ashmem_lru_list st). rsize (ranges st r)) < unat nr)"
proof -
  note inv = ashmem_reachable_ashmem_inv [OF assms(1)]
  let ?Rs = "map (ranges st) (ashmem_lru_list st)" and ?st = "shrink_loop (ashmem_lru_list st) nr st"
  define n where "n = shrink_cut nr ?Rs"
  have cut: "n = length (ashmem_lru_list st) \<or> unat nr \<le> (\<Sum>r\<leftarrow>take n (ashmem_lru_list st). rsize (ranges st r))"
    "k < n \<Longrightarrow> (\<Sum>r\<leftarrow>take k (ashmem_lru_list st). rsize (ranges st r)) < unat nr" for k
    using shrink_cut_enough [of ?Rs nr] assms(2,4) lru_range_wf [OF inv]
    by (simp_all add: n_def take_map comp_def)
  have spec: "ashmem_lru_list ?st = drop n (ashmem_lru_list st)" "areas ?st = areas st"
    "ranges ?st = purge_all (take n (ashmem_lru_list st)) (ranges st)"
    "truncated ?st = truncated st @ map (truncation st) (take n (ashmem_lru_list st))"
    using shrink_loop_spec [OF inv refl, of nr] by (simp_all add: Let_def n_def)
  have "ashmem_shrink True nr gm st = (sint (lru_count ?st), ?st)"
    using assms(2,3) by (auto simp: ashmem_shrink_def Let_def)
  moreover have "unpinned ?st a = unpinned st a" for a
    unfolding unpinned_def spec by (simp add: pages_of_purge_all)
  ultimately show ?thesis using spec cut by blast
qed

theorem ashmem_shrink_purges_witness:
  "\<exists>n ret st'. ashmem_shrink True 1 GFP_FS demo_unpinned = (ret, st') \<and>
    ashmem_lru_list st' = drop n (ashmem_lru_list demo_unpinned) \<and>
    ranges st' = purge_all (take n (ashmem_lru_list demo_unpinned)) (ranges demo_unpinned) \<and>
    truncated st' = truncated demo_unpinned @ map (truncation demo_unpinned) (take n (ashmem_lru_list demo_unpinned)) \<and>
    (\<forall>a. unpinned st' a = unpinned demo_unpinned a) \<and>
    (n = length (ashmem_lru_list demo_unpinned) \<or>
     unat (1 :: u32) \<le> (\<Sum>r\<leftarrow>take n (ashmem_lru_list demo_unpinned). rsize (ranges demo_unpinned r))) \<and>
    (\<forall>k<n. (\<Sum>r\<leftarrow>take k (ashmem_lru_list demo_unpinned). rsize (ranges demo_unpinned r)) < unat (1 :: u32))"
  by (rule ashmem_shrink_purges [OF demo_reachable]) (simp_all add: GFP_FS_def demo_unpinned_eq rsize_def)

subsection \<open>Protection and names\<close>


lemma prot_bit: "calc_vm_prot_bits x = x AND PROT_MASK"
proof -
  have "calc_vm_prot_bits x = (x AND 1) OR (x AND 2) OR (x AND 4)"
    by (simp add: calc_vm_prot_bits_def calc_vm_trans_def prot_defs)
  also have "\<dots> = x AND (1 OR 2 OR 4)" by (simp only: bit.conj_disj_distrib)
  finally show ?thesis by (simp add: prot_defs)
qed

lemma may_bits: "calc_vm_may_flags x =
  (if bit x 0 then VM_MAYREAD else 0) OR (if bit x 1 then VM_MAYWRITE else 0) OR (if bit x 2 then VM_MAYEXEC else 0)"
  using and_push_bit_1 [of x 0] and_push_bit_1 [of x 1] and_push_bit_1 [of x 2]
  by (simp add: calc_vm_may_flags_def calc_vm_trans_def prot_defs)

lemma may_bits_nonlinear: "VM_CAN_NONLINEAR AND calc_vm_may_flags x = 0"
  by (simp add: may_bits prot_defs)



text \<open>
  Unless the process has \<open>READ_IMPLIES_EXEC\<close>, the protection mask of an area can only lose bits; a
  request for a bit the mask does not have fails and changes nothing.
\<close>

theorem set_prot_mask_shrinks:
  assumes "personality AND READ_IMPLIES_EXEC = 0"
  shows "set_prot_mask personality a prot st =
    (if prot AND NOT (prot_mask (areas st a)) = 0
     then (0, st\<lparr>areas := (areas st)(a := (areas st a)\<lparr>prot_mask := prot_mask (areas st a) AND prot\<rparr>)\<rparr>)
     else (- EINVAL, st))"
proof -
  let ?m = "prot_mask (areas st a)"
  have "?m AND prot = prot \<longleftrightarrow> prot AND NOT ?m = 0"
    by (auto simp: bit_eq_iff bit_simps)
  then show ?thesis using assms by (auto simp: set_prot_mask_def Let_def)
qed

theorem set_prot_mask_shrinks_witness:
  "(0 :: u32) AND READ_IMPLIES_EXEC = 0 \<and> fst (set_prot_mask 0 100 PROT_READ demo_size) = 0"
  using set_prot_mask_shrinks [of 0 100 PROT_READ demo_size] by (simp add: demo_size_eq prot_defs)

text \<open>With \<open>READ_IMPLIES_EXEC\<close> the mask can gain a bit it does not have.\<close>

lemma set_prot_mask_adds_exec:
  "set_prot_mask READ_IMPLIES_EXEC a PROT_READ st =
     (if prot_mask (areas st a) AND PROT_READ = PROT_READ
      then (0, st\<lparr>areas := (areas st)(a := (areas st a)\<lparr>prot_mask := PROT_READ OR PROT_EXEC\<rparr>)\<rparr>)
      else (- EINVAL, st))"
  by (simp add: set_prot_mask_def prot_defs READ_IMPLIES_EXEC_def)

text \<open>
  A name that has a terminating zero within \<open>ASHMEM_NAME_LEN\<close> bytes and is not empty is read back as
  it was set.
\<close>

theorem set_get_name:
  assumes "a_file (areas st a) = NULL" "ASHMEM_NAME_PREFIX_LEN \<le> length (a_name (areas st a))"
    and "name \<noteq> []" "zero_char \<notin> set name" "length name < ASHMEM_NAME_LEN"
    and "length junk = ASHMEM_NAME_LEN - 1 - length name"
  shows "get_name False a (snd (set_name False (name @ zero_char # junk) a st)) = (0, name @ [zero_char])"
proof -
  let ?P = ASHMEM_NAME_PREFIX_LEN
  define n where "n = take ?P (a_name (areas st a)) @ (name @ zero_char # junk)[ASHMEM_NAME_LEN - 1 := zero_char]"
  have len: "length (take ?P (a_name (areas st a))) = ?P" using assms(2) by simp
  have "a_name (areas (snd (set_name False (name @ zero_char # junk) a st)) a) = n"
    using assms(1,5,6) len
    by (simp add: set_name_def Let_def n_def list_update_append ASHMEM_FULL_NAME_LEN_def ASHMEM_NAME_LEN_def)
  moreover have "(name @ zero_char # junk)[ASHMEM_NAME_LEN - 1 := zero_char] =
      name @ (zero_char # junk)[ASHMEM_NAME_LEN - 1 - length name := zero_char]"
    using assms(5) by (simp add: list_update_append ASHMEM_NAME_LEN_def)
  moreover obtain junk' where "(zero_char # junk)[ASHMEM_NAME_LEN - 1 - length name := zero_char] = zero_char # junk'"
    by (cases "ASHMEM_NAME_LEN - 1 - length name") auto
  ultimately have "a_name (areas (snd (set_name False (name @ zero_char # junk) a st)) a) =
      take ?P (a_name (areas st a)) @ name @ zero_char # junk'"
    by (simp add: n_def)
  moreover have "takeWhile (\<lambda>c. c \<noteq> zero_char) (name @ zero_char # junk') = name"
    using assms(4) by (subst takeWhile_append2) auto
  moreover have "(name @ zero_char # junk') ! 0 \<noteq> zero_char" using assms(3,4) by (cases name) auto
  ultimately show ?thesis using len assms(2) by (simp add: get_name_def Let_def nth_append)
qed

theorem set_get_name_witness:
  "get_name False 100 (snd (set_name False (''heap'' @ zero_char # replicate 251 zero_char) 100 demo_size)) =
     (0, ''heap'' @ [zero_char])"
  by (rule set_get_name)
    (simp_all add: demo_size_eq zero_char_def ASHMEM_NAME_LEN_def ASHMEM_NAME_PREFIX_LEN_def)

section \<open>Deviations\<close>

text \<open>\<open>ASHMEM_CACHE_FLUSH_RANGE\<close> reports success also when it refuses the area.\<close>

lemma ashmem_flush_cache_range_zero: "fst (ashmem_flush_cache_range walk a st) = 0"
  by (simp add: ashmem_flush_cache_range_def Let_def)

text \<open>A seek of the backing file to two gigabytes or more is reported as an error.\<close>

lemma ashmem_llseek_truncates:
  assumes "a_size (areas st a) \<noteq> 0" "a_file (areas st a) \<noteq> NULL"
  shows "ashmem_llseek (2 ^ 31, 2 ^ 31) a st = (- (2 ^ 31), None)"
  using assms by (simp add: ashmem_llseek_def to_int_def signed_take_bit_eq_if_negative)

text \<open>
  A request of length zero at the end of the area is accepted and stands for no page; each unpin of it
  allocates one more range that no page needs.
\<close>

lemma pin_request_empty:
  assumes "a_file area \<noteq> NULL" "PAGE_ALIGN (a_size area) = 32768"
  shows "pin_request area (Some (32768, 0)) = Inr (8, 7)"
  using assms by (simp add: pin_request_def PAGE_SIZE_def)

lemma empty_unpin_allocates:
  assumes "unpinned_list (areas st a) = rs" "\<forall>r\<in>set rs. pgend (ranges st r) < 8"
  shows "ashmem_unpin (Some n) a 8 7 st = Some (range_alloc (Some n) a (case rs of [] \<Rightarrow> None | r # _ \<Rightarrow> Some r) 0 8 7 st)"
  using assms
  by (cases rs) (simp_all add: ashmem_unpin_def ashmem_unpin_loop.simps range_before_page_def ASHMEM_NOT_PURGED_def)

end
