(* ===== verification/Wakelock.thy ===== *)
theory Wakelock
  imports Kernel_Time Kernel_Math
begin

text \<open>
  Wake locks, \<open>kernel/power/wakelock.c\<close> with \<open>CONFIG_WAKELOCK_STAT\<close>: the locks on the inactive list and on
  the active list of their type, the expiry timer, the queued suspend work and the statistics.

  A list head is the list of the pointers to its entries; \<open>list_lock\<close> is elided, every call is one step.
  The clocks a call reads are a parameter that does not change during the call.  A \<open>ktime_t\<close> is its
  number of nanoseconds.  \<open>BUG_ON\<close> is \<open>None\<close>; the messages are modelled only where they are the result.
\<close>

section \<open>Constants and data\<close>

definition WAKE_LOCK_SUSPEND :: nat where "WAKE_LOCK_SUSPEND = 0"
definition WAKE_LOCK_IDLE :: nat where "WAKE_LOCK_IDLE = 1"
definition WAKE_LOCK_TYPE_COUNT :: nat where "WAKE_LOCK_TYPE_COUNT = 2"

definition WAKE_LOCK_TYPE_MASK :: u32 where "WAKE_LOCK_TYPE_MASK = 0x0f"
definition WAKE_LOCK_INITIALIZED :: u32 where "WAKE_LOCK_INITIALIZED = push_bit 8 1"
definition WAKE_LOCK_ACTIVE :: u32 where "WAKE_LOCK_ACTIVE = push_bit 9 1"
definition WAKE_LOCK_AUTO_EXPIRE :: u32 where "WAKE_LOCK_AUTO_EXPIRE = push_bit 10 1"
definition WAKE_LOCK_PREVENTING_SUSPEND :: u32 where "WAKE_LOCK_PREVENTING_SUSPEND = push_bit 11 1"
definition LONG_MAX :: u32 where "LONG_MAX = drop_bit 1 (- 1)"

text \<open>The addresses of the three static locks.\<close>

definition main_wake_lock :: ptr where "main_wake_lock = 1"
definition unknown_wakeup :: ptr where "unknown_wakeup = 2"
definition deleted_wake_locks :: ptr where "deleted_wake_locks = 3"

type_synonym ktime = int

record wake_stat =
  s_count :: u32
  expire_count :: u32
  wakeup_count :: u32
  total_time :: ktime
  prevent_suspend_time :: ktime
  max_time :: ktime
  last_time :: ktime

record wake_lock_struct =
  flags :: u32
  lock_name :: "string option"
  expires :: u32
  stat :: wake_stat

record wakelocks =
  locks :: "ptr \<Rightarrow> wake_lock_struct"
  inactive_locks :: "ptr list"
  active_wake_locks :: "nat \<Rightarrow> ptr list"
  current_event_num :: u32
  last_sleep_time_update :: ktime
  wait_for_wakeup :: bool
  expire_timer :: "u32 option"
  suspend_work :: bool

text \<open>
  What the code reads of the clocks.  \<open>tick_nsec\<close> is \<open>TICK_NSEC\<close>, which depends on the clock of the board.
\<close>

record clock =
  jiffies :: u32
  ktime_get :: ktime
  current_kernel_time :: timespec
  wall_to_monotonic :: timespec
  tick_nsec :: u64

definition lock_type :: "wake_lock_struct \<Rightarrow> nat" where
  "lock_type l = unat (flags l AND WAKE_LOCK_TYPE_MASK)"

definition timeout_of :: "clock \<Rightarrow> wake_lock_struct \<Rightarrow> int" where
  "timeout_of clk l = sint (expires l - jiffies clk)"

definition upd_lock :: "ptr \<Rightarrow> (wake_lock_struct \<Rightarrow> wake_lock_struct) \<Rightarrow> wakelocks \<Rightarrow> wakelocks" where
  "upd_lock l f st = st\<lparr>locks := (locks st)(l := f (locks st l))\<rparr>"

text \<open>\<open>list_del\<close> of a lock takes it off the one list it is on.\<close>

definition unlink :: "ptr \<Rightarrow> wakelocks \<Rightarrow> wakelocks" where
  "unlink l st = st\<lparr>inactive_locks := remove1 l (inactive_locks st),
                    active_wake_locks := (\<lambda>t. remove1 l (active_wake_locks st t))\<rparr>"

section \<open>Statistics\<close>

definition timespec_to_ktime :: "timespec \<Rightarrow> ktime" where
  "timespec_to_ktime ts = sint (tv_sec ts) * NSEC_PER_SEC + sint (tv_nsec ts)"

definition jiffies_to_timespec :: "u64 \<Rightarrow> u32 \<Rightarrow> timespec option" where
  "jiffies_to_timespec TICK_NSEC j =
     map_option (\<lambda>(sec, rem). \<lparr>tv_sec = ucast sec, tv_nsec = rem\<rparr>)
       (div_u64_rem (ucast j * TICK_NSEC) (of_int NSEC_PER_SEC))"

definition get_expired_time :: "clock \<Rightarrow> wake_lock_struct \<Rightarrow> ktime option" where
  "get_expired_time clk l =
     (if flags l AND WAKE_LOCK_AUTO_EXPIRE = 0 then None
      else if timeout_of clk l > 0 then None
      else
        case jiffies_to_timespec (tick_nsec clk) (- (expires l - jiffies clk)) of
          None \<Rightarrow> None
        | Some delta \<Rightarrow>
            let kt = current_kernel_time clk; tomono = wall_to_monotonic clk in
            Some (timespec_to_ktime
              (set_normalized_timespec (tv_sec kt + tv_sec tomono - tv_sec delta)
                 (sint (tv_nsec kt + tv_nsec tomono - tv_nsec delta)))))"

text \<open>The numbers \<open>print_lock_stat\<close> prints after the name of the lock.\<close>

definition print_lock_stat :: "clock \<Rightarrow> ktime \<Rightarrow> wake_lock_struct \<Rightarrow> string option \<times> int list" where
  "print_lock_stat clk last_sleep l =
     (let s = stat l;
          (lock_count, expire_cnt, active_time, total, prevent, longest) =
            (if flags l AND WAKE_LOCK_ACTIVE \<noteq> 0 then
               let expired = get_expired_time clk l;
                   now = (case expired of Some e \<Rightarrow> e | None \<Rightarrow> ktime_get clk);
                   add_time = now - last_time s
               in (s_count s + 1, if expired = None then expire_count s else expire_count s + 1,
                   if expired = None then add_time else 0, total_time s + add_time,
                   if flags l AND WAKE_LOCK_PREVENTING_SUSPEND \<noteq> 0
                   then prevent_suspend_time s + (now - last_sleep) else prevent_suspend_time s,
                   if add_time > max_time s then add_time else max_time s)
             else (s_count s, expire_count s, 0, total_time s, prevent_suspend_time s, max_time s))
      in (lock_name l, [sint lock_count, sint expire_cnt, sint (wakeup_count s), active_time, total, prevent,
                        longest, last_time s]))"

definition wakelock_stats_show :: "clock \<Rightarrow> wakelocks \<Rightarrow> (string option \<times> int list) list" where
  "wakelock_stats_show clk st =
     map (\<lambda>l. print_lock_stat clk (last_sleep_time_update st) (locks st l))
       (inactive_locks st @ concat (map (active_wake_locks st) [0..<WAKE_LOCK_TYPE_COUNT]))"

definition wake_unlock_stat_locked :: "clock \<Rightarrow> ktime \<Rightarrow> bool \<Rightarrow> wake_lock_struct \<Rightarrow> wake_lock_struct" where
  "wake_unlock_stat_locked clk last_sleep expired l =
     (if flags l AND WAKE_LOCK_ACTIVE = 0 then l
      else
        let etime = get_expired_time clk l;
            expired = (etime \<noteq> None \<or> expired);
            now = (case etime of Some e \<Rightarrow> e | None \<Rightarrow> ktime_get clk);
            s = stat l;
            s = s\<lparr>s_count := s_count s + 1\<rparr>;
            s = (if expired then s\<lparr>expire_count := expire_count s + 1\<rparr> else s);
            duration = now - last_time s;
            s = s\<lparr>total_time := total_time s + duration\<rparr>;
            s = (if duration > max_time s then s\<lparr>max_time := duration\<rparr> else s);
            s = s\<lparr>last_time := ktime_get clk\<rparr>
        in if flags l AND WAKE_LOCK_PREVENTING_SUSPEND \<noteq> 0
           then l\<lparr>stat := s\<lparr>prevent_suspend_time := prevent_suspend_time s + (now - last_sleep)\<rparr>,
                  flags := flags l AND NOT WAKE_LOCK_PREVENTING_SUSPEND\<rparr>
           else l\<lparr>stat := s\<rparr>)"

definition sleep_wait_stat :: "clock \<Rightarrow> ktime \<Rightarrow> bool \<Rightarrow> wake_lock_struct \<Rightarrow> wake_lock_struct" where
  "sleep_wait_stat clk last_sleep don l =
     (let etime = get_expired_time clk l;
          elapsed = ktime_get clk - last_sleep;
          l = (if flags l AND WAKE_LOCK_PREVENTING_SUSPEND \<noteq> 0
               then let add = (case etime of Some e \<Rightarrow> e - last_sleep | None \<Rightarrow> elapsed)
                    in l\<lparr>stat := (stat l)\<lparr>prevent_suspend_time := prevent_suspend_time (stat l) + add\<rparr>\<rparr>
               else l)
      in if don \<or> etime \<noteq> None then l\<lparr>flags := flags l AND NOT WAKE_LOCK_PREVENTING_SUSPEND\<rparr>
         else l\<lparr>flags := flags l OR WAKE_LOCK_PREVENTING_SUSPEND\<rparr>)"

definition update_sleep_wait_stats_locked :: "clock \<Rightarrow> bool \<Rightarrow> wakelocks \<Rightarrow> wakelocks" where
  "update_sleep_wait_stats_locked clk don st =
     (fold (\<lambda>l. upd_lock l (sleep_wait_stat clk (last_sleep_time_update st) don))
        (active_wake_locks st WAKE_LOCK_SUSPEND) st)\<lparr>last_sleep_time_update := ktime_get clk\<rparr>"

section \<open>Expiry\<close>

definition expire_wake_lock :: "clock \<Rightarrow> ptr \<Rightarrow> wakelocks \<Rightarrow> wakelocks" where
  "expire_wake_lock clk l st =
     (let st = upd_lock l (wake_unlock_stat_locked clk (last_sleep_time_update st) True) st;
          st = upd_lock l (\<lambda>L. L\<lparr>flags := flags L AND NOT (WAKE_LOCK_ACTIVE OR WAKE_LOCK_AUTO_EXPIRE)\<rparr>) st;
          st = unlink l st
      in st\<lparr>inactive_locks := l # inactive_locks st\<rparr>)"

datatype lock_message = Time_Left ptr int | Expired ptr | Active ptr

fun print_active_loop :: "bool \<Rightarrow> clock \<Rightarrow> wakelocks \<Rightarrow> bool \<Rightarrow> ptr list \<Rightarrow> lock_message list" where
  "print_active_loop debug_expire clk st print_expired [] = []"
| "print_active_loop debug_expire clk st print_expired (l # ls) =
     (let L = locks st l in
      if flags L AND WAKE_LOCK_AUTO_EXPIRE \<noteq> 0 then
        (if timeout_of clk L > 0 then [Time_Left l (timeout_of clk L)]
         else if print_expired then [Expired l] else []) @
        print_active_loop debug_expire clk st print_expired ls
      else Active l # print_active_loop debug_expire clk st (print_expired \<and> debug_expire) ls)"

definition print_active_locks :: "bool \<Rightarrow> clock \<Rightarrow> nat \<Rightarrow> wakelocks \<Rightarrow> lock_message list option" where
  "print_active_locks debug_expire clk type st =
     (if type \<ge> WAKE_LOCK_TYPE_COUNT then None
      else Some (print_active_loop debug_expire clk st True (active_wake_locks st type)))"

fun has_wake_lock_loop :: "clock \<Rightarrow> ptr list \<Rightarrow> int \<Rightarrow> wakelocks \<Rightarrow> int \<times> wakelocks" where
  "has_wake_lock_loop clk [] max_timeout st = (max_timeout, st)"
| "has_wake_lock_loop clk (l # ls) max_timeout st =
     (if flags (locks st l) AND WAKE_LOCK_AUTO_EXPIRE \<noteq> 0 then
        let timeout = timeout_of clk (locks st l) in
        if timeout \<le> 0 then has_wake_lock_loop clk ls max_timeout (expire_wake_lock clk l st)
        else has_wake_lock_loop clk ls (if timeout > max_timeout then timeout else max_timeout) st
      else (- 1, st))"

definition has_wake_lock_locked :: "clock \<Rightarrow> nat \<Rightarrow> wakelocks \<Rightarrow> (int \<times> wakelocks) option" where
  "has_wake_lock_locked clk type st =
     (if type \<ge> WAKE_LOCK_TYPE_COUNT then None
      else Some (has_wake_lock_loop clk (active_wake_locks st type) 0 st))"

definition has_wake_lock :: "clock \<Rightarrow> nat \<Rightarrow> wakelocks \<Rightarrow> (int \<times> wakelocks) option" where
  "has_wake_lock clk type st = has_wake_lock_locked clk type st"

text \<open>The timer fires: it is no longer pending when its function runs.\<close>

definition expire_wake_locks :: "clock \<Rightarrow> wakelocks \<Rightarrow> wakelocks option" where
  "expire_wake_locks clk st =
     Option.bind (has_wake_lock_locked clk WAKE_LOCK_SUSPEND (st\<lparr>expire_timer := None\<rparr>)) (\<lambda>(has_lock, st).
     Some (if has_lock = 0 then st\<lparr>suspend_work := True\<rparr> else st))"

definition power_suspend_late :: "clock \<Rightarrow> wakelocks \<Rightarrow> (int \<times> wakelocks) option" where
  "power_suspend_late clk st =
     Option.bind (has_wake_lock clk WAKE_LOCK_SUSPEND st) (\<lambda>(has_lock, st).
     Some (if has_lock \<noteq> 0 then - EAGAIN else 0, st\<lparr>wait_for_wakeup := True\<rparr>))"

section \<open>Taking and releasing locks\<close>

definition wake_lock_active :: "ptr \<Rightarrow> wakelocks \<Rightarrow> bool" where
  "wake_lock_active l st \<longleftrightarrow> flags (locks st l) AND WAKE_LOCK_ACTIVE \<noteq> 0"

definition wake_lock_init :: "ptr \<Rightarrow> u32 \<Rightarrow> string option \<Rightarrow> wakelocks \<Rightarrow> wakelocks option" where
  "wake_lock_init l type name st =
     (let name = (if name \<noteq> None then name else lock_name (locks st l)) in
      if name = None then None
      else
        let st = upd_lock l (\<lambda>L. L\<lparr>lock_name := name,
                   stat := \<lparr>s_count = 0, expire_count = 0, wakeup_count = 0, total_time = 0,
                            prevent_suspend_time = 0, max_time = 0, last_time = 0\<rparr>,
                   flags := (type AND WAKE_LOCK_TYPE_MASK) OR WAKE_LOCK_INITIALIZED\<rparr>) st
        in Some (st\<lparr>inactive_locks := l # inactive_locks st\<rparr>))"

definition add_deleted_stat :: "wake_stat \<Rightarrow> wake_stat \<Rightarrow> wake_stat" where
  "add_deleted_stat s d =
     d\<lparr>s_count := s_count d + s_count s, expire_count := expire_count d + expire_count s,
       total_time := total_time d + total_time s,
       prevent_suspend_time := prevent_suspend_time d + prevent_suspend_time s,
       max_time := max_time d + max_time s\<rparr>"

definition wake_lock_destroy :: "ptr \<Rightarrow> wakelocks \<Rightarrow> wakelocks" where
  "wake_lock_destroy l st =
     (let st = upd_lock l (\<lambda>L. L\<lparr>flags := flags L AND NOT WAKE_LOCK_INITIALIZED\<rparr>) st;
          st = (if s_count (stat (locks st l)) \<noteq> 0
                then upd_lock deleted_wake_locks
                       (\<lambda>D. D\<lparr>stat := add_deleted_stat (stat (locks st l)) (stat D)\<rparr>) st
                else st)
      in unlink l st)"

text \<open>What the code does with the answer of \<open>has_wake_lock_locked\<close>: the timer and the suspend work.\<close>

definition set_expire_timer :: "clock \<Rightarrow> int \<Rightarrow> wakelocks \<Rightarrow> wakelocks" where
  "set_expire_timer clk expire_in st =
     (if expire_in > 0 then st\<lparr>expire_timer := Some (jiffies clk + of_int expire_in)\<rparr>
      else
        let st = st\<lparr>expire_timer := None\<rparr>
        in if expire_in = 0 then st\<lparr>suspend_work := True\<rparr> else st)"

text \<open>\<open>wake_lock_internal\<close> up to the check: the lock is counted, made active and put on its list.\<close>

definition counted :: "clock \<Rightarrow> ptr \<Rightarrow> wakelocks \<Rightarrow> wakelocks" where
  "counted clk l st =
     (let st = (if lock_type (locks st l) = WAKE_LOCK_SUSPEND \<and> wait_for_wakeup st
                then upd_lock l (\<lambda>L. L\<lparr>stat := (stat L)\<lparr>wakeup_count := wakeup_count (stat L) + 1\<rparr>\<rparr>)
                       (st\<lparr>wait_for_wakeup := False\<rparr>)
                else st);
          st = (if flags (locks st l) AND WAKE_LOCK_AUTO_EXPIRE \<noteq> 0 \<and> timeout_of clk (locks st l) \<le> 0
                then upd_lock l (\<lambda>L. let L = wake_unlock_stat_locked clk (last_sleep_time_update st) False L
                                     in L\<lparr>stat := (stat L)\<lparr>last_time := ktime_get clk\<rparr>\<rparr>) st
                else st)
      in if flags (locks st l) AND WAKE_LOCK_ACTIVE = 0
         then upd_lock l (\<lambda>L. L\<lparr>flags := flags L OR WAKE_LOCK_ACTIVE,
                                stat := (stat L)\<lparr>last_time := ktime_get clk\<rparr>\<rparr>) st
         else st)"

definition taken :: "clock \<Rightarrow> ptr \<Rightarrow> u32 \<Rightarrow> bool \<Rightarrow> wakelocks \<Rightarrow> wakelocks" where
  "taken clk l timeout has_timeout st =
     (let type = lock_type (locks st l); st = unlink l (counted clk l st)
      in if has_timeout
         then (upd_lock l (\<lambda>L. L\<lparr>expires := jiffies clk + timeout,
                                 flags := flags L OR WAKE_LOCK_AUTO_EXPIRE\<rparr>) st)
                \<lparr>active_wake_locks := (active_wake_locks st)(type := active_wake_locks st type @ [l])\<rparr>
         else (upd_lock l (\<lambda>L. L\<lparr>expires := LONG_MAX,
                                 flags := flags L AND NOT WAKE_LOCK_AUTO_EXPIRE\<rparr>) st)
                \<lparr>active_wake_locks := (active_wake_locks st)(type := l # active_wake_locks st type)\<rparr>)"

definition wake_lock_internal :: "clock \<Rightarrow> ptr \<Rightarrow> u32 \<Rightarrow> bool \<Rightarrow> wakelocks \<Rightarrow> wakelocks option" where
  "wake_lock_internal clk l timeout has_timeout st =
     (let type = lock_type (locks st l) in
      if type \<ge> WAKE_LOCK_TYPE_COUNT then None
      else if flags (locks st l) AND WAKE_LOCK_INITIALIZED = 0 then None
      else
        let st = taken clk l timeout has_timeout st
        in if type \<noteq> WAKE_LOCK_SUSPEND then Some st
           else
             let st = st\<lparr>current_event_num := current_event_num st + 1\<rparr>;
                 st = (if l = main_wake_lock then update_sleep_wait_stats_locked clk True st
                       else if \<not> wake_lock_active main_wake_lock st
                         then update_sleep_wait_stats_locked clk False st else st)
             in Option.bind (if has_timeout then has_wake_lock_locked clk type st else Some (- 1, st))
                  (\<lambda>(expire_in, st). Some (set_expire_timer clk expire_in st)))"

definition wake_lock :: "clock \<Rightarrow> ptr \<Rightarrow> wakelocks \<Rightarrow> wakelocks option" where
  "wake_lock clk l st = wake_lock_internal clk l 0 False st"

definition wake_lock_timeout :: "clock \<Rightarrow> ptr \<Rightarrow> u32 \<Rightarrow> wakelocks \<Rightarrow> wakelocks option" where
  "wake_lock_timeout clk l timeout st = wake_lock_internal clk l timeout True st"

text \<open>\<open>wake_unlock\<close> up to the check.\<close>

definition released :: "clock \<Rightarrow> ptr \<Rightarrow> wakelocks \<Rightarrow> wakelocks" where
  "released clk l st =
     (let st = upd_lock l (wake_unlock_stat_locked clk (last_sleep_time_update st) False) st;
          st = upd_lock l (\<lambda>L. L\<lparr>flags := flags L AND NOT (WAKE_LOCK_ACTIVE OR WAKE_LOCK_AUTO_EXPIRE)\<rparr>) st;
          st = unlink l st
      in st\<lparr>inactive_locks := l # inactive_locks st\<rparr>)"

definition wake_unlock :: "clock \<Rightarrow> ptr \<Rightarrow> wakelocks \<Rightarrow> wakelocks option" where
  "wake_unlock clk l st =
     (let type = lock_type (locks st l); st = released clk l st
      in if type \<noteq> WAKE_LOCK_SUSPEND then Some st
         else
           Option.bind (has_wake_lock_locked clk type st) (\<lambda>(has_lock, st).
           let st = set_expire_timer clk has_lock st
           in Some (if l = main_wake_lock then update_sleep_wait_stats_locked clk False st else st)))"

section \<open>Suspending\<close>

text \<open>
  The suspend work checks the locks, lets the system sleep, and takes \<open>unknown_wakeup\<close> when nothing took
  a lock in between.  \<open>pm_suspend\<close> is what happens to the locks during \<open>sys_sync\<close> and the sleep, with the
  clocks at its end.
\<close>

definition suspend_check :: "clock \<Rightarrow> wakelocks \<Rightarrow> (u32 option \<times> wakelocks) option" where
  "suspend_check clk st =
     Option.bind (has_wake_lock clk WAKE_LOCK_SUSPEND st) (\<lambda>(has_lock, st).
     Some (if has_lock \<noteq> 0 then None else Some (current_event_num st), st))"

definition suspend_exit :: "clock \<Rightarrow> u32 \<Rightarrow> wakelocks \<Rightarrow> wakelocks option" where
  "suspend_exit clk entry_event_num st =
     (if current_event_num st = entry_event_num
      then wake_lock_timeout clk unknown_wakeup (of_nat (HZ div 2)) st else Some st)"

definition suspend :: "clock \<Rightarrow> (wakelocks \<Rightarrow> clock \<times> wakelocks) \<Rightarrow> wakelocks \<Rightarrow> wakelocks option" where
  "suspend clk pm_suspend st =
     Option.bind (suspend_check clk (st\<lparr>suspend_work := False\<rparr>)) (\<lambda>(entry_event_num, st).
     case entry_event_num of
       None \<Rightarrow> Some st
     | Some n \<Rightarrow> let (clk, st) = pm_suspend st in suspend_exit clk n st)"

definition wakelocks_start :: wakelocks where
  "wakelocks_start =
     \<lparr>locks = (\<lambda>_. \<lparr>flags = 0, lock_name = None, expires = 0,
        stat = \<lparr>s_count = 0, expire_count = 0, wakeup_count = 0, total_time = 0, prevent_suspend_time = 0,
                max_time = 0, last_time = 0\<rparr>\<rparr>),
      inactive_locks = [], active_wake_locks = (\<lambda>_. []), current_event_num = 0,
      last_sleep_time_update = 0, wait_for_wakeup = False, expire_timer = None, suspend_work = False\<rparr>"

text \<open>\<open>dev\<close> and \<open>drv\<close> are the results of the two registrations, \<open>wq\<close> whether the work queue was created.\<close>

definition wakelocks_init :: "clock \<Rightarrow> int \<Rightarrow> int \<Rightarrow> bool \<Rightarrow> wakelocks \<Rightarrow> (int \<times> wakelocks) option" where
  "wakelocks_init clk dev drv wq st =
     Option.bind (wake_lock_init deleted_wake_locks (of_nat WAKE_LOCK_SUSPEND) (Some ''deleted_wake_locks'')
       (st\<lparr>active_wake_locks := (\<lambda>_. [])\<rparr>)) (\<lambda>st.
     Option.bind (wake_lock_init main_wake_lock (of_nat WAKE_LOCK_SUSPEND) (Some ''main'') st) (\<lambda>st.
     Option.bind (wake_lock clk main_wake_lock st) (\<lambda>st.
     Option.bind (wake_lock_init unknown_wakeup (of_nat WAKE_LOCK_SUSPEND) (Some ''unknown_wakeups'') st) (\<lambda>st.
     let ret = (if dev \<noteq> 0 then dev else if drv \<noteq> 0 then drv else if \<not> wq then - ENOMEM else 0)
     in Some (ret, if ret = 0 then st
                   else wake_lock_destroy deleted_wake_locks (wake_lock_destroy main_wake_lock
                          (wake_lock_destroy unknown_wakeup st)))))))"

definition wakelocks_exit :: "wakelocks \<Rightarrow> wakelocks" where
  "wakelocks_exit st =
     wake_lock_destroy deleted_wake_locks (wake_lock_destroy main_wake_lock (wake_lock_destroy unknown_wakeup st))"

section \<open>Flags\<close>

text \<open>What the lists depend on: whether a lock is initialised, active, has a timeout, and its type.\<close>

definition key :: "wake_lock_struct \<Rightarrow> bool \<times> bool \<times> bool \<times> nat" where
  "key L = (bit (flags L) 8, bit (flags L) 9, bit (flags L) 10, lock_type L)"

lemmas flag_defs = WAKE_LOCK_INITIALIZED_def WAKE_LOCK_ACTIVE_def WAKE_LOCK_AUTO_EXPIRE_def
  WAKE_LOCK_PREVENTING_SUSPEND_def

lemma flag_tests [simp]:
  "f AND WAKE_LOCK_INITIALIZED = 0 \<longleftrightarrow> \<not> bit f 8" "f AND WAKE_LOCK_ACTIVE = 0 \<longleftrightarrow> \<not> bit f 9"
  "f AND WAKE_LOCK_AUTO_EXPIRE = 0 \<longleftrightarrow> \<not> bit f 10" "f AND WAKE_LOCK_PREVENTING_SUSPEND = 0 \<longleftrightarrow> \<not> bit f 11"
  unfolding flag_defs by (subst and_flag_eq_0; simp)+

lemma bit_push_bit_1: "bit (push_bit k 1 :: u32) n \<longleftrightarrow> n = k \<and> k < 32"
  by (auto simp: bit_simps)

lemma flag_bits [simp]:
  "bit WAKE_LOCK_INITIALIZED n \<longleftrightarrow> n = 8" "bit WAKE_LOCK_ACTIVE n \<longleftrightarrow> n = 9"
  "bit WAKE_LOCK_AUTO_EXPIRE n \<longleftrightarrow> n = 10" "bit WAKE_LOCK_PREVENTING_SUSPEND n \<longleftrightarrow> n = 11"
  unfolding flag_defs bit_push_bit_1 by auto

lemma mask_bits [simp]: "bit WAKE_LOCK_TYPE_MASK n \<longleftrightarrow> n < 4"
proof -
  have m: "WAKE_LOCK_TYPE_MASK = mask 4" by (simp add: WAKE_LOCK_TYPE_MASK_def mask_eq_exp_minus_1)
  show ?thesis unfolding m bit_mask_iff by auto
qed

lemma type_or_flags: "(f OR g) AND WAKE_LOCK_TYPE_MASK = f AND WAKE_LOCK_TYPE_MASK"
  if "\<And>n. n < 4 \<Longrightarrow> \<not> bit g n"
  by (rule bit_eqI) (auto simp: bit_simps that)

lemma type_clear_flags: "(f AND NOT g) AND WAKE_LOCK_TYPE_MASK = f AND WAKE_LOCK_TYPE_MASK"
  if "\<And>n. n < 4 \<Longrightarrow> \<not> bit g n"
  by (rule bit_eqI) (auto simp: bit_simps that)

lemma key_set_flags [simp]:
  "key (L\<lparr>flags := flags L OR WAKE_LOCK_PREVENTING_SUSPEND\<rparr>) = key L"
  "key (L\<lparr>flags := flags L AND NOT WAKE_LOCK_PREVENTING_SUSPEND\<rparr>) = key L"
  "key (L\<lparr>flags := flags L AND NOT (WAKE_LOCK_ACTIVE OR WAKE_LOCK_AUTO_EXPIRE)\<rparr>) =
     (bit (flags L) 8, False, False, lock_type L)"
  "key (L\<lparr>flags := flags L AND NOT WAKE_LOCK_ACTIVE AND NOT WAKE_LOCK_AUTO_EXPIRE\<rparr>) =
     (bit (flags L) 8, False, False, lock_type L)"
  "key (L\<lparr>flags := flags L OR WAKE_LOCK_ACTIVE\<rparr>) = (bit (flags L) 8, True, bit (flags L) 10, lock_type L)"
  "key (L\<lparr>flags := flags L OR WAKE_LOCK_AUTO_EXPIRE\<rparr>) = (bit (flags L) 8, bit (flags L) 9, True, lock_type L)"
  "key (L\<lparr>flags := flags L AND NOT WAKE_LOCK_AUTO_EXPIRE\<rparr>) =
     (bit (flags L) 8, bit (flags L) 9, False, lock_type L)"
  "key (L\<lparr>flags := (ty AND WAKE_LOCK_TYPE_MASK) OR WAKE_LOCK_INITIALIZED\<rparr>) =
     (True, False, False, unat (ty AND WAKE_LOCK_TYPE_MASK))"
  by (simp_all add: key_def lock_type_def bit_simps type_or_flags type_clear_flags
      type_clear_flags [unfolded and.assoc] type_clear_flags [of "WAKE_LOCK_ACTIVE OR WAKE_LOCK_AUTO_EXPIRE", simplified])

lemma key_other [simp]:
  "key (L\<lparr>stat := s\<rparr>) = key L" "key (L\<lparr>expires := e\<rparr>) = key L" "key (L\<lparr>lock_name := n\<rparr>) = key L"
  "key (L\<lparr>flags := f, stat := s\<rparr>) = key (L\<lparr>flags := f\<rparr>)"
  "key (L\<lparr>expires := e, flags := f\<rparr>) = key (L\<lparr>flags := f\<rparr>)"
  "key (L\<lparr>stat := s, flags := f\<rparr>) = key (L\<lparr>flags := f\<rparr>)"
  "key (L\<lparr>lock_name := n, stat := s, flags := f\<rparr>) = key (L\<lparr>flags := f\<rparr>)"
  by (simp_all add: key_def lock_type_def)

lemma key_stat_locked [simp]:
  "key (wake_unlock_stat_locked clk t expired L) = key L" "key (sleep_wait_stat clk t don L) = key L"
  by (simp_all add: wake_unlock_stat_locked_def sleep_wait_stat_def Let_def)

lemma expires_stat_locked [simp]:
  "expires (wake_unlock_stat_locked clk t expired L) = expires L" "expires (sleep_wait_stat clk t don L) = expires L"
  by (simp_all add: wake_unlock_stat_locked_def sleep_wait_stat_def Let_def)

section \<open>Invariant\<close>

text \<open>
  Every lock on the inactive list is inactive, every lock on an active list is active and of its type,
  and on an active list the locks without timeout come first.
\<close>

definition timed :: "bool \<times> bool \<times> bool \<times> nat \<Rightarrow> bool" where
  "timed k = fst (snd (snd k))"

definition act_ok :: "(ptr \<Rightarrow> bool \<times> bool \<times> bool \<times> nat) \<Rightarrow> nat \<Rightarrow> ptr list \<Rightarrow> bool" where
  "act_ok k t ls \<longleftrightarrow> distinct ls \<and> (\<forall>l\<in>set ls. t < WAKE_LOCK_TYPE_COUNT \<and> (\<exists>tm. k l = (True, True, tm, t))) \<and>
     sorted_wrt (\<lambda>l m. timed (k l) \<longrightarrow> timed (k m)) ls"

definition lists_ok :: "(ptr \<Rightarrow> bool \<times> bool \<times> bool \<times> nat) \<Rightarrow> ptr list \<Rightarrow> (nat \<Rightarrow> ptr list) \<Rightarrow> bool" where
  "lists_ok k ina act \<longleftrightarrow> distinct ina \<and> (\<forall>l\<in>set ina. \<exists>ty. k l = (True, False, False, ty)) \<and>
     (\<forall>t. act_ok k t (act t))"

definition wl_inv :: "wakelocks \<Rightarrow> bool" where
  "wl_inv st \<longleftrightarrow> lists_ok (key \<circ> locks st) (inactive_locks st) (active_wake_locks st)"

definition registered :: "wakelocks \<Rightarrow> ptr set" where
  "registered st = set (inactive_locks st) \<union> (\<Union>t. set (active_wake_locks st t))"

lemma sorted_wrt_remove1: "sorted_wrt P xs \<Longrightarrow> sorted_wrt P (remove1 x xs)"
proof (induction xs)
  case (Cons y ys)
  then show ?case using set_remove1_subset [of x ys] by auto
qed simp

lemma sorted_wrt_key_upd:
  assumes "sorted_wrt (\<lambda>l m. timed (k l) \<longrightarrow> timed (k m)) xs" "l \<notin> set xs"
  shows "sorted_wrt (\<lambda>x y. timed ((k(l := v)) x) \<longrightarrow> timed ((k(l := v)) y)) xs"
  using assms by (induction xs) auto

lemma act_ok_remove:
  assumes "act_ok k t xs"
  shows "act_ok (k(l := v)) t (remove1 l xs)"
proof -
  have s: "sorted_wrt (\<lambda>l m. timed (k l) \<longrightarrow> timed (k m)) xs" and d: "distinct xs"
    using assms by (simp_all add: act_ok_def)
  have "set (remove1 l xs) = set xs - {l}" using d by simp
  then show ?thesis
    using assms sorted_wrt_key_upd [OF sorted_wrt_remove1 [OF s, of l], of l v] unfolding act_ok_def by auto
qed

lemma lists_ok_retire:
  assumes "lists_ok k ina act"
  shows "lists_ok (k(l := (True, False, False, ty))) (l # remove1 l ina) (\<lambda>t. remove1 l (act t))"
  using assms act_ok_remove [where k = k and l = l and v = "(True, False, False, ty)"]
  unfolding lists_ok_def by auto

lemma lists_ok_drop:
  assumes "lists_ok k ina act"
  shows "lists_ok (k(l := v)) (remove1 l ina) (\<lambda>t. remove1 l (act t))"
  using assms act_ok_remove [where k = k and l = l and v = v]
  unfolding lists_ok_def by auto

lemma lists_ok_activate:
  assumes "lists_ok k ina act" "t < WAKE_LOCK_TYPE_COUNT"
  shows "lists_ok (k(l := (True, True, False, t))) (remove1 l ina)
      ((\<lambda>t. remove1 l (act t))(t := l # remove1 l (act t)))"
    and "lists_ok (k(l := (True, True, True, t))) (remove1 l ina)
      ((\<lambda>t. remove1 l (act t))(t := remove1 l (act t) @ [l]))"
proof -
  have n: "l \<notin> set (remove1 l (act t))" using assms(1) by (simp add: lists_ok_def act_ok_def)
  show "lists_ok (k(l := (True, True, False, t))) (remove1 l ina)
      ((\<lambda>t. remove1 l (act t))(t := l # remove1 l (act t)))"
    using lists_ok_drop [OF assms(1), of l "(True, True, False, t)"] n assms(2)
    by (auto simp: lists_ok_def act_ok_def timed_def)
  show "lists_ok (k(l := (True, True, True, t))) (remove1 l ina)
      ((\<lambda>t. remove1 l (act t))(t := remove1 l (act t) @ [l]))"
    using lists_ok_drop [OF assms(1), of l "(True, True, True, t)"] n assms(2)
    by (auto simp: lists_ok_def act_ok_def timed_def sorted_wrt_append)
qed

lemma upd_lock_simps [simp]:
  "locks (upd_lock l f st) = (locks st)(l := f (locks st l))"
  "inactive_locks (upd_lock l f st) = inactive_locks st"
  "active_wake_locks (upd_lock l f st) = active_wake_locks st"
  "current_event_num (upd_lock l f st) = current_event_num st"
  "last_sleep_time_update (upd_lock l f st) = last_sleep_time_update st"
  "wait_for_wakeup (upd_lock l f st) = wait_for_wakeup st"
  "expire_timer (upd_lock l f st) = expire_timer st" "suspend_work (upd_lock l f st) = suspend_work st"
  by (simp_all add: upd_lock_def)

lemma unlink_simps [simp]:
  "locks (unlink l st) = locks st" "inactive_locks (unlink l st) = remove1 l (inactive_locks st)"
  "active_wake_locks (unlink l st) = (\<lambda>t. remove1 l (active_wake_locks st t))"
  "current_event_num (unlink l st) = current_event_num st"
  "last_sleep_time_update (unlink l st) = last_sleep_time_update st"
  "wait_for_wakeup (unlink l st) = wait_for_wakeup st"
  "expire_timer (unlink l st) = expire_timer st" "suspend_work (unlink l st) = suspend_work st"
  by (simp_all add: unlink_def)

lemma key_upd: "key \<circ> (locks st)(l := L) = (key \<circ> locks st)(l := key L)"
  by (rule fun_upd_comp)

section \<open>Checking for locks\<close>

definition is_timed :: "wakelocks \<Rightarrow> ptr \<Rightarrow> bool" where
  "is_timed st l \<longleftrightarrow> bit (flags (locks st l)) 10"

definition live :: "clock \<Rightarrow> wakelocks \<Rightarrow> ptr \<Rightarrow> bool" where
  "live clk st l \<longleftrightarrow> timeout_of clk (locks st l) > 0"

text \<open>The locks \<open>ls\<close> of the active list of type \<open>t\<close>, all with a timeout, have been checked: the expired ones are inactive.\<close>

definition checked :: "clock \<Rightarrow> nat \<Rightarrow> ptr list \<Rightarrow> ptr list \<Rightarrow> wakelocks \<Rightarrow> wakelocks \<Rightarrow> bool" where
  "checked clk t ds ls st st' \<longleftrightarrow> wl_inv st' \<and>
     active_wake_locks st' = (active_wake_locks st)(t := ds @ filter (live clk st) ls) \<and>
     set (inactive_locks st') = set (inactive_locks st) \<union> {l \<in> set ls. \<not> live clk st l} \<and>
     (\<forall>x. x \<notin> set ls \<or> live clk st x \<longrightarrow> locks st' x = locks st x) \<and>
     current_event_num st' = current_event_num st \<and> last_sleep_time_update st' = last_sleep_time_update st \<and>
     wait_for_wakeup st' = wait_for_wakeup st \<and> expire_timer st' = expire_timer st \<and>
     suspend_work st' = suspend_work st"

lemma wl_inv_act: "wl_inv st \<Longrightarrow> act_ok (key \<circ> locks st) t (active_wake_locks st t)"
  by (simp add: wl_inv_def lists_ok_def)

lemma wl_inv_active:
  assumes "wl_inv st" "l \<in> set (active_wake_locks st t)"
  shows "t < WAKE_LOCK_TYPE_COUNT" "key (locks st l) = (True, True, is_timed st l, t)"
  using wl_inv_act [OF assms(1), of t] assms(2) by (auto simp: act_ok_def is_timed_def key_def)

lemma wl_inv_inactive:
  assumes "wl_inv st" "l \<in> set (inactive_locks st)"
  shows "key (locks st l) = (True, False, False, lock_type (locks st l))"
  using assms by (auto simp: wl_inv_def lists_ok_def key_def)

lemma active_elsewhere:
  assumes "wl_inv st" "l \<in> set (active_wake_locks st t)"
  shows "l \<notin> set (inactive_locks st)" "u \<noteq> t \<Longrightarrow> l \<notin> set (active_wake_locks st u)"
  using wl_inv_active(2) [OF assms] wl_inv_inactive [OF assms(1), of l] wl_inv_active(2) [OF assms(1), of l u]
  by auto

lemma expire_wake_lock_rest:
  "current_event_num (expire_wake_lock clk l st) = current_event_num st"
  "last_sleep_time_update (expire_wake_lock clk l st) = last_sleep_time_update st"
  "wait_for_wakeup (expire_wake_lock clk l st) = wait_for_wakeup st"
  "expire_timer (expire_wake_lock clk l st) = expire_timer st"
  "suspend_work (expire_wake_lock clk l st) = suspend_work st"
  "inactive_locks (expire_wake_lock clk l st) = l # remove1 l (inactive_locks st)"
  "active_wake_locks (expire_wake_lock clk l st) = (\<lambda>t. remove1 l (active_wake_locks st t))"
  "x \<noteq> l \<Longrightarrow> locks (expire_wake_lock clk l st) x = locks st x"
  by (simp_all add: expire_wake_lock_def Let_def)

lemma bit_flags_key: "bit (flags L) 8 = fst (key L)" "bit (flags L) 9 = fst (snd (key L))"
  "bit (flags L) 10 = timed (key L)" "lock_type L = snd (snd (snd (key L)))"
  by (simp_all add: key_def timed_def)

lemma expire_wake_lock_inv:
  assumes inv: "wl_inv st" and a: "active_wake_locks st t = ds @ l # ls"
  shows "wl_inv (expire_wake_lock clk l st)"
    and "active_wake_locks (expire_wake_lock clk l st) = (active_wake_locks st)(t := ds @ ls)"
    and "set (inactive_locks (expire_wake_lock clk l st)) = insert l (set (inactive_locks st))"
proof -
  have l: "l \<in> set (active_wake_locks st t)" using a by simp
  have k: "key (locks st l) = (True, True, is_timed st l, t)" by (rule wl_inv_active [OF inv l])
  have "key \<circ> locks (expire_wake_lock clk l st) = (key \<circ> locks st)(l := (True, False, False, t))"
    using k by (simp add: expire_wake_lock_def Let_def key_upd bit_flags_key)
  then show "wl_inv (expire_wake_lock clk l st)"
    using lists_ok_retire [OF inv [unfolded wl_inv_def], of l t] unfolding wl_inv_def expire_wake_lock_rest by simp
  have "l \<notin> set ds" using wl_inv_act [OF inv, of t] a by (simp add: act_ok_def)
  then show "active_wake_locks (expire_wake_lock clk l st) = (active_wake_locks st)(t := ds @ ls)"
    unfolding expire_wake_lock_rest using active_elsewhere(2) [OF inv l] a
    by (auto simp: remove1_append remove1_idem)
  show "set (inactive_locks (expire_wake_lock clk l st)) = insert l (set (inactive_locks st))"
    unfolding expire_wake_lock_rest using active_elsewhere(1) [OF inv l] by (simp add: remove1_idem)
qed

lemma has_wake_lock_loop_spec:
  assumes "wl_inv st" "active_wake_locks st t = ds @ ls" "\<forall>l\<in>set ls. is_timed st l" "0 \<le> m"
  shows "\<exists>st'. has_wake_lock_loop clk ls m st = (fold max (map (\<lambda>l. timeout_of clk (locks st l)) ls) m, st') \<and>
    checked clk t ds ls st st'"
  using assms
proof (induction ls arbitrary: ds m st)
  case Nil
  then show ?case by (auto simp: checked_def)
next
  case (Cons l ls)
  let ?t = "timeout_of clk (locks st l)"
  have tl: "bit (flags (locks st l)) 10" using Cons.prems(3) by (simp add: is_timed_def)
  have d: "l \<notin> set ls" using wl_inv_act [OF Cons.prems(1), of t] Cons.prems(2) by (simp add: act_ok_def)
  show ?case
  proof (cases "live clk st l")
    case True
    then have t: "0 < ?t" by (simp add: live_def)
    obtain st' where "has_wake_lock_loop clk ls (max ?t m) st =
        (fold max (map (\<lambda>l. timeout_of clk (locks st l)) ls) (max ?t m), st')" "checked clk t (ds @ [l]) ls st st'"
      using Cons.IH [of st "ds @ [l]" "max ?t m"] Cons.prems by (auto simp: le_max_iff_disj)
    moreover have "(if ?t > m then ?t else m) = max ?t m" by (simp add: max_def)
    ultimately show ?thesis using t tl True by (auto simp: checked_def)
  next
    case False
    let ?st = "expire_wake_lock clk l st"
    note e = expire_wake_lock_inv [OF Cons.prems(1,2)]
    have same: "locks ?st x = locks st x" if "x \<noteq> l" for x using expire_wake_lock_rest(8) [OF that] .
    have same_ls: "locks ?st x = locks st x" if "x \<in> set ls" for x using that d by (intro same) auto
    have "\<forall>x\<in>set ls. is_timed ?st x" using Cons.prems(3) by (simp add: is_timed_def same_ls)
    with e Cons.IH [of ?st ds m] Cons.prems(4) obtain st' where
      h: "has_wake_lock_loop clk ls m ?st = (fold max (map (\<lambda>l. timeout_of clk (locks ?st l)) ls) m, st')"
      and c: "checked clk t ds ls ?st st'" by auto
    have m: "map (\<lambda>l. timeout_of clk (locks ?st l)) ls = map (\<lambda>l. timeout_of clk (locks st l)) ls"
      by (simp add: same_ls)
    have f: "filter (live clk ?st) ls = filter (live clk st) ls" "x \<in> set ls \<Longrightarrow> live clk ?st x = live clk st x" for x
      by (auto simp: live_def same_ls intro!: filter_cong)
    have dead: "{x \<in> set ls. \<not> live clk ?st x} = {x \<in> set ls. \<not> live clk st x}" using f(2) by auto
    have "locks st' x = locks st x" if "x \<notin> set (l # ls) \<or> live clk st x" for x
    proof -
      have x: "x \<noteq> l" using that False by auto
      then have "x \<notin> set ls \<or> live clk ?st x" using that f(2) by auto
      then show ?thesis using c same [OF x] by (simp add: checked_def)
    qed
    then have "checked clk t ds (l # ls) st st'"
      using c False unfolding checked_def e f(1) dead expire_wake_lock_rest(1-5) by auto
    moreover have "?t \<le> 0" "max ?t m = m" using False Cons.prems(4) by (auto simp: live_def)
    ultimately show ?thesis using h tl unfolding m by (auto simp: is_timed_def)
  qed
qed

text \<open>The answer, and the locks that expire with it.\<close>

definition lock_answer :: "clock \<Rightarrow> nat \<Rightarrow> wakelocks \<Rightarrow> int" where
  "lock_answer clk t st =
     (if \<exists>l\<in>set (active_wake_locks st t). \<not> is_timed st l then - 1
      else Max (insert 0 ((\<lambda>l. timeout_of clk (locks st l)) ` set (active_wake_locks st t))))"

lemma has_wake_lock_locked_spec:
  assumes "wl_inv st" "t < WAKE_LOCK_TYPE_COUNT"
  shows "\<exists>st'. has_wake_lock_locked clk t st = Some (lock_answer clk t st, st') \<and>
    (if \<exists>l\<in>set (active_wake_locks st t). \<not> is_timed st l then st' = st
     else checked clk t [] (active_wake_locks st t) st st')"
proof (cases "\<exists>l\<in>set (active_wake_locks st t). \<not> is_timed st l")
  case True
  then obtain l ls where a: "active_wake_locks st t = l # ls" by (cases "active_wake_locks st t") auto
  have "sorted_wrt (\<lambda>l m. is_timed st l \<longrightarrow> is_timed st m) (l # ls)"
    using wl_inv_act [OF assms(1), of t] a by (simp add: act_ok_def timed_def key_def is_timed_def)
  then have "\<not> is_timed st l" using True a by auto
  then show ?thesis using True assms(2) a by (auto simp: has_wake_lock_locked_def lock_answer_def is_timed_def)
next
  case False
  have "fold max xs (0 :: int) = Max (insert 0 (set xs))" for xs
    using Max.set_eq_fold [of 0 xs] by simp
  then show ?thesis
    using False has_wake_lock_loop_spec [OF assms(1), of t "[]" "active_wake_locks st t" 0 clk] assms(2)
    by (auto simp: has_wake_lock_locked_def lock_answer_def)
qed

lemma lock_answer_0_iff:
  "lock_answer clk t st = 0 \<longleftrightarrow> (\<forall>l\<in>set (active_wake_locks st t). is_timed st l \<and> \<not> live clk st l)"
proof -
  have "Max (insert 0 (f ` set xs)) = (0 :: int) \<longleftrightarrow> (\<forall>x\<in>set xs. f x \<le> 0)" for f and xs :: "ptr list"
    by (subst Max_eq_iff) auto
  then show ?thesis by (auto simp: lock_answer_def live_def not_less)
qed

section \<open>Operations keep the invariant\<close>

lemma fold_sleep_stat:
  "key (locks (fold (\<lambda>l. upd_lock l (sleep_wait_stat clk t don)) ls st) x) = key (locks st x)"
  "expires (locks (fold (\<lambda>l. upd_lock l (sleep_wait_stat clk t don)) ls st) x) = expires (locks st x)"
  "inactive_locks (fold (\<lambda>l. upd_lock l (sleep_wait_stat clk t don)) ls st) = inactive_locks st"
  "active_wake_locks (fold (\<lambda>l. upd_lock l (sleep_wait_stat clk t don)) ls st) = active_wake_locks st"
  "current_event_num (fold (\<lambda>l. upd_lock l (sleep_wait_stat clk t don)) ls st) = current_event_num st"
  "wait_for_wakeup (fold (\<lambda>l. upd_lock l (sleep_wait_stat clk t don)) ls st) = wait_for_wakeup st"
  "expire_timer (fold (\<lambda>l. upd_lock l (sleep_wait_stat clk t don)) ls st) = expire_timer st"
  "suspend_work (fold (\<lambda>l. upd_lock l (sleep_wait_stat clk t don)) ls st) = suspend_work st"
  by (induction ls arbitrary: st) simp_all

lemma update_sleep_simps [simp]:
  "key (locks (update_sleep_wait_stats_locked clk don st) x) = key (locks st x)"
  "expires (locks (update_sleep_wait_stats_locked clk don st) x) = expires (locks st x)"
  "inactive_locks (update_sleep_wait_stats_locked clk don st) = inactive_locks st"
  "active_wake_locks (update_sleep_wait_stats_locked clk don st) = active_wake_locks st"
  "current_event_num (update_sleep_wait_stats_locked clk don st) = current_event_num st"
  "wait_for_wakeup (update_sleep_wait_stats_locked clk don st) = wait_for_wakeup st"
  "expire_timer (update_sleep_wait_stats_locked clk don st) = expire_timer st"
  "suspend_work (update_sleep_wait_stats_locked clk don st) = suspend_work st"
  by (simp_all add: update_sleep_wait_stats_locked_def fold_sleep_stat)

lemma set_expire_timer_simps [simp]:
  "locks (set_expire_timer clk n st) = locks st" "inactive_locks (set_expire_timer clk n st) = inactive_locks st"
  "active_wake_locks (set_expire_timer clk n st) = active_wake_locks st"
  "current_event_num (set_expire_timer clk n st) = current_event_num st"
  "wait_for_wakeup (set_expire_timer clk n st) = wait_for_wakeup st"
  "last_sleep_time_update (set_expire_timer clk n st) = last_sleep_time_update st"
  by (simp_all add: set_expire_timer_def Let_def)

lemma wl_inv_frame:
  assumes "wl_inv st" "\<And>x. key (locks st' x) = key (locks st x)" "inactive_locks st' = inactive_locks st"
    and "active_wake_locks st' = active_wake_locks st"
  shows "wl_inv st'"
proof -
  have "key \<circ> locks st' = key \<circ> locks st" using assms(2) by auto
  then show ?thesis using assms unfolding wl_inv_def by simp
qed

lemma is_timed_key: "is_timed st l = timed (key (locks st l))"
  by (simp add: is_timed_def bit_flags_key)

lemma wake_lock_active_key: "wake_lock_active l st = fst (snd (key (locks st l)))"
  by (simp add: wake_lock_active_def bit_flags_key)

lemma registered_key:
  assumes "wl_inv st" "l \<in> registered st"
  shows "fst (key (locks st l))"
  using assms wl_inv_inactive [OF assms(1), of l] wl_inv_active(2) [OF assms(1), of l]
  by (auto simp: registered_def)

text \<open>
  The timer and the suspend work fit the active suspend locks: with a lock that has no timeout there is
  no timer, with live timeouts only the timer is set to the last one, with no lock the work is queued.
\<close>

definition decided :: "clock \<Rightarrow> wakelocks \<Rightarrow> bool" where
  "decided clk st \<longleftrightarrow>
     (let act = active_wake_locks st WAKE_LOCK_SUSPEND in
      if \<exists>l\<in>set act. \<not> is_timed st l then expire_timer st = None
      else if act = [] then expire_timer st = None \<and> suspend_work st
      else (\<forall>l\<in>set act. live clk st l) \<and>
        expire_timer st = Some (jiffies clk + of_int (Max ((\<lambda>l. timeout_of clk (locks st l)) ` set act))))"

lemma decided_frame:
  assumes "decided clk st" "\<And>x. key (locks st' x) = key (locks st x)" "\<And>x. expires (locks st' x) = expires (locks st x)"
    and "active_wake_locks st' = active_wake_locks st" "expire_timer st' = expire_timer st"
    and "suspend_work st' = suspend_work st"
  shows "decided clk st'"
proof -
  have e: "is_timed st' = is_timed st" "live clk st' = live clk st"
    "(\<lambda>l. timeout_of clk (locks st' l)) = (\<lambda>l. timeout_of clk (locks st l))"
    using assms(2,3) by (auto simp: is_timed_key live_def timeout_of_def)
  show ?thesis using assms(1) unfolding decided_def e assms(4,5,6) .
qed

lemma Max_live:
  assumes "0 < Max (insert 0 (f ` set xs))"
  shows "Max (insert 0 (f ` set xs)) = (Max (f ` set (filter (\<lambda>x. 0 < f x) xs)) :: int)" "filter (\<lambda>x. 0 < f x) xs \<noteq> []"
proof -
  let ?m = "Max (insert 0 (f ` set xs))"
  have "?m \<in> insert 0 (f ` set xs)" by (rule Max_in) simp_all
  then obtain x where x: "x \<in> set xs" "f x = ?m" using assms by auto
  then have "?m \<in> f ` set (filter (\<lambda>x. 0 < f x) xs)" using assms by force
  moreover have "y \<le> ?m" if "y \<in> f ` set (filter (\<lambda>x. 0 < f x) xs)" for y
    using that by (intro Max_ge) auto
  ultimately show "?m = Max (f ` set (filter (\<lambda>x. 0 < f x) xs))" by (intro Max_eqI [symmetric]) simp_all
  have "0 < f x" using x(2) assms by simp
  then show "filter (\<lambda>x. 0 < f x) xs \<noteq> []" using x(1) by (auto simp: filter_empty_conv)
qed

lemma check_and_set:
  assumes "wl_inv st"
  shows "\<exists>st1. has_wake_lock_locked clk WAKE_LOCK_SUSPEND st = Some (lock_answer clk WAKE_LOCK_SUSPEND st, st1) \<and>
    wl_inv st1 \<and> decided clk (set_expire_timer clk (lock_answer clk WAKE_LOCK_SUSPEND st) st1) \<and>
    (if \<exists>l\<in>set (active_wake_locks st WAKE_LOCK_SUSPEND). \<not> is_timed st l then st1 = st
     else checked clk WAKE_LOCK_SUSPEND [] (active_wake_locks st WAKE_LOCK_SUSPEND) st st1)"
proof -
  let ?act = "active_wake_locks st WAKE_LOCK_SUSPEND" and ?a = "lock_answer clk WAKE_LOCK_SUSPEND st"
  have t: "WAKE_LOCK_SUSPEND < WAKE_LOCK_TYPE_COUNT" by (simp add: WAKE_LOCK_SUSPEND_def WAKE_LOCK_TYPE_COUNT_def)
  obtain st1 where h: "has_wake_lock_locked clk WAKE_LOCK_SUSPEND st = Some (?a, st1)"
    and c: "if \<exists>l\<in>set ?act. \<not> is_timed st l then st1 = st else checked clk WAKE_LOCK_SUSPEND [] ?act st st1"
    using has_wake_lock_locked_spec [OF assms t, of clk] by blast
  show ?thesis
  proof (cases "\<exists>l\<in>set ?act. \<not> is_timed st l")
    case True
    then have "?a = - 1" "st1 = st" using c by (auto simp: lock_answer_def)
    then show ?thesis using h True assms by (auto simp: decided_def set_expire_timer_def is_timed_def Let_def)
  next
    case False
    then have ck: "checked clk WAKE_LOCK_SUSPEND [] ?act st st1" using c by simp
    then have same: "locks st1 l = locks st l" if "live clk st l" for l using that by (simp add: checked_def)
    have act: "active_wake_locks st1 WAKE_LOCK_SUSPEND = filter (live clk st) ?act" using ck by (simp add: checked_def)
    have a: "?a = Max (insert 0 ((\<lambda>l. timeout_of clk (locks st l)) ` set ?act))" using False by (simp add: lock_answer_def)
    have "decided clk (set_expire_timer clk ?a st1)"
    proof (cases "0 < ?a")
      case True
      have "(\<lambda>l. timeout_of clk (locks st1 l)) ` set (filter (live clk st) ?act) =
          (\<lambda>l. timeout_of clk (locks st l)) ` set (filter (live clk st) ?act)"
        by (auto simp: same)
      moreover have l: "live clk st = (\<lambda>l. 0 < timeout_of clk (locks st l))" by (simp add: live_def fun_eq_iff)
      note Max_live [of "\<lambda>l. timeout_of clk (locks st l)" ?act, folded a, OF True, folded l]
      moreover have "\<forall>l\<in>set (filter (live clk st) ?act). is_timed st1 l \<and> live clk st1 l"
        using False same by (auto simp: is_timed_def live_def)
      ultimately show ?thesis
        using True by (auto simp: decided_def Let_def act set_expire_timer_def is_timed_def live_def)
    next
      case False
      moreover have "0 \<le> ?a" unfolding a by (rule Max_ge) simp_all
      ultimately have "?a = 0" by simp
      moreover from this have "filter (live clk st) ?act = []" by (auto simp: lock_answer_0_iff filter_empty_conv)
      ultimately show ?thesis by (simp add: decided_def Let_def act set_expire_timer_def)
    qed
    then show ?thesis using h ck False by (auto simp: checked_def)
  qed
qed

lemma checked_registered:
  assumes "checked clk t [] (active_wake_locks st t) st st'"
  shows "registered st' = registered st"
proof -
  have "(\<Union>u. set (active_wake_locks st' u)) \<union> {l \<in> set (active_wake_locks st t). \<not> live clk st l} =
      (\<Union>u. set (active_wake_locks st u))"
    using assms by (auto simp: checked_def split: if_splits)
  then show ?thesis using assms unfolding registered_def checked_def by blast
qed

text \<open>What every operation on \<open>l\<close> keeps of the other locks.\<close>

definition others_kept :: "ptr \<Rightarrow> wakelocks \<Rightarrow> wakelocks \<Rightarrow> bool" where
  "others_kept l st st' \<longleftrightarrow> (\<forall>x. x \<noteq> l \<longrightarrow> \<not> is_timed st x \<longrightarrow> key (locks st' x) = key (locks st x))"

lemma checked_kept:
  assumes "if \<exists>l\<in>set (active_wake_locks st t). \<not> is_timed st l then st1 = st
     else checked clk t [] (active_wake_locks st t) st st1"
  shows "registered st1 = registered st" "\<And>x. \<not> is_timed st x \<Longrightarrow> key (locks st1 x) = key (locks st x)"
    "\<And>x. x \<notin> set (active_wake_locks st t) \<Longrightarrow> key (locks st1 x) = key (locks st x)"
  using assms checked_registered [of clk t st st1] by (auto simp: checked_def split: if_splits)

lemma check_and_set_kept:
  assumes "wl_inv st"
  shows "\<exists>st1. has_wake_lock_locked clk WAKE_LOCK_SUSPEND st = Some (lock_answer clk WAKE_LOCK_SUSPEND st, st1) \<and>
    wl_inv (set_expire_timer clk (lock_answer clk WAKE_LOCK_SUSPEND st) st1) \<and>
    decided clk (set_expire_timer clk (lock_answer clk WAKE_LOCK_SUSPEND st) st1) \<and>
    registered st1 = registered st \<and> (\<forall>x. \<not> is_timed st x \<longrightarrow> key (locks st1 x) = key (locks st x)) \<and>
    (\<forall>x. x \<notin> set (active_wake_locks st WAKE_LOCK_SUSPEND) \<longrightarrow> key (locks st1 x) = key (locks st x))"
proof -
  obtain st1 where s: "has_wake_lock_locked clk WAKE_LOCK_SUSPEND st = Some (lock_answer clk WAKE_LOCK_SUSPEND st, st1)"
    "wl_inv st1" "decided clk (set_expire_timer clk (lock_answer clk WAKE_LOCK_SUSPEND st) st1)"
    "if \<exists>l\<in>set (active_wake_locks st WAKE_LOCK_SUSPEND). \<not> is_timed st l then st1 = st
     else checked clk WAKE_LOCK_SUSPEND [] (active_wake_locks st WAKE_LOCK_SUSPEND) st st1"
    using check_and_set [OF assms, of clk] by blast
  then show ?thesis using checked_kept [OF s(4)] wl_inv_frame [OF s(2)] by auto
qed

lemma released_spec:
  assumes "wl_inv st" "l \<in> registered st"
  shows "wl_inv (released clk l st)" "registered (released clk l st) = registered st"
    "key (locks (released clk l st) l) = (True, False, False, lock_type (locks st l))"
    "x \<noteq> l \<Longrightarrow> locks (released clk l st) x = locks st x"
proof -
  have k: "key (locks (released clk l st) l) = (True, False, False, lock_type (locks st l))"
    using registered_key [OF assms] by (simp add: released_def Let_def bit_flags_key)
  have r: "inactive_locks (released clk l st) = l # remove1 l (inactive_locks st)"
    "active_wake_locks (released clk l st) = (\<lambda>t. remove1 l (active_wake_locks st t))"
    "x \<noteq> l \<Longrightarrow> locks (released clk l st) x = locks st x" for x
    by (simp_all add: released_def Let_def)
  have "key \<circ> locks (released clk l st) = (key \<circ> locks st)(l := (True, False, False, lock_type (locks st l)))"
    using k r(3) by auto
  then show "wl_inv (released clk l st)"
    using lists_ok_retire [OF assms(1) [unfolded wl_inv_def], of l "lock_type (locks st l)"] unfolding wl_inv_def r by simp
  have "distinct (inactive_locks st)" "\<And>t. distinct (active_wake_locks st t)"
    using assms(1) by (auto simp: wl_inv_def lists_ok_def act_ok_def)
  then show "registered (released clk l st) = registered st" using assms(2) by (auto simp: registered_def r)
  show "key (locks (released clk l st) l) = (True, False, False, lock_type (locks st l))" by (rule k)
  show "x \<noteq> l \<Longrightarrow> locks (released clk l st) x = locks st x" by (rule r)
qed

lemma wake_unlock_spec:
  assumes "wl_inv st" "l \<in> registered st"
  shows "\<exists>st'. wake_unlock clk l st = Some st' \<and> wl_inv st' \<and> registered st' = registered st \<and>
    others_kept l st st' \<and> key (locks st' l) = (True, False, False, lock_type (locks st l)) \<and>
    (lock_type (locks st l) = WAKE_LOCK_SUSPEND \<longrightarrow> decided clk st')"
proof -
  let ?st = "released clk l st" and ?S = WAKE_LOCK_SUSPEND
  note r = released_spec [OF assms, where clk = clk]
  have u: "wake_unlock clk l st =
      (if lock_type (locks st l) \<noteq> ?S then Some ?st
       else Option.bind (has_wake_lock_locked clk ?S ?st) (\<lambda>(has_lock, st).
         let st = set_expire_timer clk has_lock st
         in Some (if l = main_wake_lock then update_sleep_wait_stats_locked clk False st else st)))"
    by (auto simp: wake_unlock_def Let_def)
  have kept: "\<not> is_timed ?st x" "key (locks ?st x) = key (locks st x)" if "x \<noteq> l" "\<not> is_timed st x" for x
    using that r(4) by (simp_all add: is_timed_def)
  show ?thesis
  proof (cases "lock_type (locks st l) = ?S")
    case False
    then show ?thesis using u r kept by (auto simp: others_kept_def)
  next
    case True
    obtain st1 where s: "has_wake_lock_locked clk ?S ?st = Some (lock_answer clk ?S ?st, st1)"
      "wl_inv (set_expire_timer clk (lock_answer clk ?S ?st) st1)"
      "decided clk (set_expire_timer clk (lock_answer clk ?S ?st) st1)" "registered st1 = registered ?st"
      "\<forall>x. \<not> is_timed ?st x \<longrightarrow> key (locks st1 x) = key (locks ?st x)"
      using check_and_set_kept [OF r(1), of clk] by blast
    define st2 where "st2 = set_expire_timer clk (lock_answer clk ?S ?st) st1"
    define st' where "st' = (if l = main_wake_lock then update_sleep_wait_stats_locked clk False st2 else st2)"
    have f: "key (locks st' x) = key (locks st1 x)" "registered st' = registered st" for x
      using s(4) r(2) by (auto simp: st'_def st2_def registered_def)
    have "wake_unlock clk l st = Some st'" using u True s(1) by (simp add: st'_def st2_def Let_def)
    moreover have "wl_inv st'" using s(2) by (auto simp: st'_def st2_def intro: wl_inv_frame)
    moreover have "decided clk st'" using s(3) by (auto simp: st'_def st2_def intro: decided_frame)
    moreover have "others_kept l st st'" using s(5) kept f by (auto simp: others_kept_def)
    moreover have "\<not> is_timed ?st l" using r(3) by (simp add: is_timed_key timed_def)
    then have "key (locks st' l) = (True, False, False, lock_type (locks st l))" using s(5) f r(3) by auto
    ultimately show ?thesis using f by blast
  qed
qed

lemma counted_spec:
  "key (locks (counted clk l st) l) =
     (bit (flags (locks st l)) 8, True, bit (flags (locks st l)) 10, lock_type (locks st l))"
  "x \<noteq> l \<Longrightarrow> locks (counted clk l st) x = locks st x"
  "inactive_locks (counted clk l st) = inactive_locks st"
  "active_wake_locks (counted clk l st) = active_wake_locks st"
  "expire_timer (counted clk l st) = expire_timer st" "suspend_work (counted clk l st) = suspend_work st"
  by (auto simp: counted_def Let_def) (cases "key (locks st l)"; auto simp: bit_flags_key timed_def)+

lemma taken_spec:
  assumes "wl_inv st" "l \<in> registered st" "lock_type (locks st l) < WAKE_LOCK_TYPE_COUNT"
  shows "wl_inv (taken clk l timeout has_timeout st)" "registered (taken clk l timeout has_timeout st) = registered st"
    "key (locks (taken clk l timeout has_timeout st) l) = (True, True, has_timeout, lock_type (locks st l))"
    "l \<in> set (active_wake_locks (taken clk l timeout has_timeout st) (lock_type (locks st l)))"
    "x \<noteq> l \<Longrightarrow> locks (taken clk l timeout has_timeout st) x = locks st x"
proof -
  let ?st = "taken clk l timeout has_timeout st" and ?t = "lock_type (locks st l)"
  have "bit (flags (locks (counted clk l st) l)) 8" "bit (flags (locks (counted clk l st) l)) 9"
    "lock_type (locks (counted clk l st) l) = ?t"
    using registered_key [OF assms(1,2)] by (simp_all add: bit_flags_key counted_spec)
  then have k: "key (locks ?st l) = (True, True, has_timeout, ?t)" by (simp add: taken_def Let_def)
  have r: "inactive_locks ?st = remove1 l (inactive_locks st)"
    "active_wake_locks ?st = (\<lambda>t. remove1 l (active_wake_locks st t))(?t :=
       if has_timeout then remove1 l (active_wake_locks st ?t) @ [l] else l # remove1 l (active_wake_locks st ?t))"
    "x \<noteq> l \<Longrightarrow> locks ?st x = locks st x" for x
    by (simp_all add: taken_def Let_def counted_spec)
  have "key \<circ> locks ?st = (key \<circ> locks st)(l := (True, True, has_timeout, ?t))" using k r(3) by auto
  then show "wl_inv ?st"
    using lists_ok_activate [OF assms(1) [unfolded wl_inv_def] assms(3), of l] unfolding wl_inv_def r
    by (cases has_timeout) simp_all
  have "distinct (inactive_locks st)" "\<And>t. distinct (active_wake_locks st t)"
    using assms(1) by (auto simp: wl_inv_def lists_ok_def act_ok_def)
  then have "x \<in> set (active_wake_locks ?st t) \<longleftrightarrow> x = l \<and> t = ?t \<or> x \<noteq> l \<and> x \<in> set (active_wake_locks st t)"
    "set (inactive_locks ?st) = set (inactive_locks st) - {l}" for x t
    by (auto simp: r)
  then have "x \<in> registered ?st \<longleftrightarrow> x = l \<or> x \<noteq> l \<and> x \<in> registered st" for x
    unfolding registered_def by auto
  then show "registered ?st = registered st" using assms(2) by auto
  show "key (locks ?st l) = (True, True, has_timeout, ?t)" by (rule k)
  show "l \<in> set (active_wake_locks ?st ?t)" by (simp add: r(2))
  show "x \<noteq> l \<Longrightarrow> locks ?st x = locks st x" by (rule r)
qed

lemma wake_lock_internal_spec:
  assumes "wl_inv st" "l \<in> registered st" "lock_type (locks st l) < WAKE_LOCK_TYPE_COUNT"
  shows "\<exists>st'. wake_lock_internal clk l timeout has_timeout st = Some st' \<and> wl_inv st' \<and>
    registered st' = registered st \<and> others_kept l st st' \<and>
    (\<not> has_timeout \<longrightarrow> key (locks st' l) = (True, True, False, lock_type (locks st l))) \<and>
    (lock_type (locks st l) = WAKE_LOCK_SUSPEND \<longrightarrow> decided clk st')"
proof -
  let ?st = "taken clk l timeout has_timeout st" and ?S = WAKE_LOCK_SUSPEND
  note r = taken_spec [OF assms, where clk = clk and timeout = timeout and has_timeout = has_timeout]
  define st1 where "st1 = (let st = ?st\<lparr>current_event_num := current_event_num ?st + 1\<rparr>
     in if l = main_wake_lock then update_sleep_wait_stats_locked clk True st
        else if \<not> wake_lock_active main_wake_lock st then update_sleep_wait_stats_locked clk False st else st)"
  have reg: "bit (flags (locks st l)) 8" using registered_key [OF assms(1,2)] by (simp add: bit_flags_key)
  have u: "wake_lock_internal clk l timeout has_timeout st =
      (if lock_type (locks st l) \<noteq> ?S then Some ?st
       else Option.bind (if has_timeout then has_wake_lock_locked clk ?S st1 else Some (- 1, st1))
              (\<lambda>(expire_in, st). Some (set_expire_timer clk expire_in st)))"
    using reg assms(3) by (simp add: wake_lock_internal_def st1_def Let_def)
  have f: "key (locks st1 x) = key (locks ?st x)" "registered st1 = registered st" for x
    using r(2) by (auto simp: st1_def registered_def Let_def)
  have act1: "active_wake_locks st1 = active_wake_locks ?st" by (simp add: st1_def Let_def)
  have inv1: "wl_inv st1" using r(1) by (auto simp: st1_def Let_def intro: wl_inv_frame)
  have kept: "\<not> is_timed st1 x" "key (locks st1 x) = key (locks st x)" if "x \<noteq> l" "\<not> is_timed st x" for x
    using that r(5) f by (simp_all add: is_timed_key)
  show ?thesis
  proof (cases "lock_type (locks st l) = ?S")
    case False
    then show ?thesis using u r kept by (auto simp: others_kept_def)
  next
    case S: True
    show ?thesis
    proof (cases has_timeout)
      case True
      obtain st2 where s: "has_wake_lock_locked clk ?S st1 = Some (lock_answer clk ?S st1, st2)"
        "wl_inv (set_expire_timer clk (lock_answer clk ?S st1) st2)"
        "decided clk (set_expire_timer clk (lock_answer clk ?S st1) st2)" "registered st2 = registered st1"
        "\<forall>x. \<not> is_timed st1 x \<longrightarrow> key (locks st2 x) = key (locks st1 x)"
        using check_and_set_kept [OF inv1, of clk] by blast
      then show ?thesis using u S True kept f(2) by (auto simp: others_kept_def registered_def)
    next
      case False
      let ?st' = "set_expire_timer clk (- 1) st1"
      have k: "key (locks ?st' l) = (True, True, False, lock_type (locks st l))" using r(3) f False by simp
      have "l \<in> set (active_wake_locks ?st' ?S)" using r(4) S act1 by simp
      then have "\<exists>x\<in>set (active_wake_locks ?st' ?S). \<not> is_timed ?st' x"
        using k by (intro bexI [of _ l]) (simp_all add: is_timed_key timed_def)
      moreover have "expire_timer ?st' = None" by (simp add: set_expire_timer_def)
      ultimately have "decided clk ?st'" by (simp add: decided_def)
      moreover have "wl_inv ?st'" using inv1 by (rule wl_inv_frame) simp_all
      moreover have "others_kept l st ?st'" using kept by (auto simp: others_kept_def)
      moreover have "registered ?st' = registered st" using f(2) by (simp add: registered_def)
      ultimately show ?thesis using u S False k by auto
    qed
  qed
qed

lemma wake_lock_init_spec:
  assumes "wl_inv st" "l \<notin> registered st" "wake_lock_init l type name st = Some st'"
  shows "wl_inv st'" "registered st' = insert l (registered st)" "others_kept l st st'"
    "key (locks st' l) = (True, False, False, unat (type AND WAKE_LOCK_TYPE_MASK))"
    "active_wake_locks st' = active_wake_locks st"
proof -
  have r: "inactive_locks st' = l # inactive_locks st" "active_wake_locks st' = active_wake_locks st"
    "\<And>x. x \<noteq> l \<Longrightarrow> locks st' x = locks st x"
    "key (locks st' l) = (True, False, False, unat (type AND WAKE_LOCK_TYPE_MASK))"
    using assms(3) by (auto simp: wake_lock_init_def Let_def split: if_splits)
  have "key \<circ> locks st' = (key \<circ> locks st)(l := (True, False, False, unat (type AND WAKE_LOCK_TYPE_MASK)))"
    using r(3,4) by auto
  moreover have "remove1 l (inactive_locks st) = inactive_locks st"
    "(\<lambda>t. remove1 l (active_wake_locks st t)) = active_wake_locks st"
    using assms(2) by (auto simp: registered_def remove1_idem)
  ultimately show "wl_inv st'"
    using lists_ok_retire [OF assms(1) [unfolded wl_inv_def], of l "unat (type AND WAKE_LOCK_TYPE_MASK)"]
    unfolding wl_inv_def r by simp
  show "registered st' = insert l (registered st)" "others_kept l st st'"
    using r by (auto simp: registered_def others_kept_def)
qed (use assms(3) in \<open>auto simp: wake_lock_init_def Let_def split: if_splits\<close>)

lemma wake_lock_destroy_spec:
  assumes "wl_inv st"
  shows "wl_inv (wake_lock_destroy l st)" "registered (wake_lock_destroy l st) = registered st - {l}"
    "others_kept l st (wake_lock_destroy l st)"
proof -
  let ?st = "wake_lock_destroy l st"
  have r: "inactive_locks ?st = remove1 l (inactive_locks st)"
    "active_wake_locks ?st = (\<lambda>t. remove1 l (active_wake_locks st t))"
    "\<And>x. x \<noteq> l \<Longrightarrow> key (locks ?st x) = key (locks st x)"
    by (simp_all add: wake_lock_destroy_def Let_def)
  then have "key \<circ> locks ?st = (key \<circ> locks st)(l := key (locks ?st l))" by auto
  then show "wl_inv ?st"
    using lists_ok_drop [OF assms [unfolded wl_inv_def], of l "key (locks ?st l)"] unfolding wl_inv_def r by simp
  have "distinct (inactive_locks st)" "\<And>t. distinct (active_wake_locks st t)"
    using assms by (auto simp: wl_inv_def lists_ok_def act_ok_def)
  then show "registered ?st = registered st - {l}" by (auto simp: registered_def r)
  show "others_kept l st ?st" using r by (simp add: others_kept_def)
qed

section \<open>Reachable states\<close>

text \<open>
  The calls drivers, the timer and the power management make, in any order: a lock is initialised once
  before it is used, and the three static locks are not destroyed.
\<close>

inductive wl_op :: "ptr \<Rightarrow> wakelocks \<Rightarrow> wakelocks \<Rightarrow> bool" where
  inits: "l \<notin> registered st \<Longrightarrow> wake_lock_init l type name st = Some st' \<Longrightarrow> wl_op l st st'"
| destroys: "l \<in> registered st \<Longrightarrow> l \<notin> {main_wake_lock, unknown_wakeup, deleted_wake_locks} \<Longrightarrow>
    wl_op l st (wake_lock_destroy l st)"
| takes: "l \<in> registered st \<Longrightarrow> wake_lock clk l st = Some st' \<Longrightarrow> wl_op l st st'"
| takes_timeout: "l \<in> registered st \<Longrightarrow> wake_lock_timeout clk l timeout st = Some st' \<Longrightarrow> wl_op l st st'"
| releases: "l \<in> registered st \<Longrightarrow> wake_unlock clk l st = Some st' \<Longrightarrow> wl_op l st st'"
| checks: "has_wake_lock clk type st = Some (ret, st') \<Longrightarrow> wl_op NULL st st'"
| fires: "expire_timer st \<noteq> None \<Longrightarrow> expire_wake_locks clk st = Some st' \<Longrightarrow> wl_op NULL st st'"
| late: "power_suspend_late clk st = Some (ret, st') \<Longrightarrow> wl_op NULL st st'"
| work: "wl_op NULL st (st\<lparr>suspend_work := False\<rparr>)"

definition wl_step :: "wakelocks \<Rightarrow> wakelocks \<Rightarrow> bool" where
  "wl_step st st' \<longleftrightarrow> (\<exists>l. wl_op l st st')"

definition wl_reachable :: "wakelocks \<Rightarrow> bool" where
  "wl_reachable st \<longleftrightarrow>
     (\<exists>clk dev drv wq st0. wakelocks_init clk dev drv wq wakelocks_start = Some (0, st0) \<and> wl_step\<^sup>*\<^sup>* st0 st)"

lemma wl_reachable_op: "wl_reachable st \<Longrightarrow> wl_op l st st' \<Longrightarrow> wl_reachable st'"
  unfolding wl_reachable_def using rtranclp.rtrancl_into_rtrancl wl_step_def by metis

lemma wl_inv_start: "wl_inv wakelocks_start" "registered wakelocks_start = {}"
  by (simp_all add: wl_inv_def lists_ok_def act_ok_def wakelocks_start_def registered_def)

lemma wake_lock_Some_type: "wake_lock_internal clk l timeout has_timeout st = Some st' \<Longrightarrow>
  lock_type (locks st l) < WAKE_LOCK_TYPE_COUNT"
  by (auto simp: wake_lock_internal_def Let_def split: if_splits)

lemma wake_lock_internal_Some:
  assumes "wl_inv st" "l \<in> registered st" "wake_lock_internal clk l timeout has_timeout st = Some st'"
  shows "wl_inv st'" "registered st' = registered st" "others_kept l st st'"
    "\<not> has_timeout \<Longrightarrow> key (locks st' l) = (True, True, False, lock_type (locks st l))"
    "lock_type (locks st l) = WAKE_LOCK_SUSPEND \<Longrightarrow> decided clk st'"
  using wake_lock_internal_spec [OF assms(1,2) wake_lock_Some_type [OF assms(3)], of clk timeout has_timeout] assms(3)
  by auto

lemma has_wake_lock_Some:
  assumes "wl_inv st" "has_wake_lock clk t st = Some (ret, st')"
  shows "wl_inv st'" "registered st' = registered st" "\<not> is_timed st x \<Longrightarrow> key (locks st' x) = key (locks st x)"
    "ret = lock_answer clk t st"
proof -
  have "t < WAKE_LOCK_TYPE_COUNT"
    using assms(2) by (auto simp: has_wake_lock_def has_wake_lock_locked_def split: if_splits)
  from has_wake_lock_locked_spec [OF assms(1) this, of clk]
  have ret: "ret = lock_answer clk t st" and
    c: "if \<exists>l\<in>set (active_wake_locks st t). \<not> is_timed st l then st' = st
        else checked clk t [] (active_wake_locks st t) st st'"
    using assms(2) by (auto simp: has_wake_lock_def)
  show "wl_inv st'" using c assms(1) by (auto simp: checked_def split: if_splits)
  show "registered st' = registered st" "\<not> is_timed st x \<Longrightarrow> key (locks st' x) = key (locks st x)"
    using checked_kept [OF c] by auto
  show "ret = lock_answer clk t st" by (rule ret)
qed

lemma wl_inv_upd [simp]:
  "wl_inv (st\<lparr>suspend_work := b\<rparr>) = wl_inv st" "wl_inv (st\<lparr>expire_timer := t\<rparr>) = wl_inv st"
  "wl_inv (st\<lparr>wait_for_wakeup := b\<rparr>) = wl_inv st"
  by (simp_all add: wl_inv_def)

lemma registered_upd [simp]:
  "registered (st\<lparr>suspend_work := b\<rparr>) = registered st" "registered (st\<lparr>expire_timer := t\<rparr>) = registered st"
  "registered (st\<lparr>wait_for_wakeup := b\<rparr>) = registered st"
  by (simp_all add: registered_def)

lemma is_timed_upd [simp]:
  "is_timed (st\<lparr>suspend_work := b\<rparr>) x = is_timed st x" "is_timed (st\<lparr>expire_timer := t\<rparr>) x = is_timed st x"
  "is_timed (st\<lparr>wait_for_wakeup := b\<rparr>) x = is_timed st x"
  by (simp_all add: is_timed_def)

lemma expire_wake_locks_spec:
  assumes "wl_inv st" "expire_wake_locks clk st = Some st'"
  shows "wl_inv st'" "registered st' = registered st" "\<not> is_timed st x \<Longrightarrow> key (locks st' x) = key (locks st x)"
proof -
  obtain ret st1 where h: "has_wake_lock clk WAKE_LOCK_SUSPEND (st\<lparr>expire_timer := None\<rparr>) = Some (ret, st1)"
    and st': "st' = (if ret = 0 then st1\<lparr>suspend_work := True\<rparr> else st1)"
    using assms(2) by (auto simp: expire_wake_locks_def has_wake_lock_def bind_eq_Some_conv)
  from has_wake_lock_Some [OF _ h] assms(1) st'
  show "wl_inv st'" "registered st' = registered st" "\<not> is_timed st x \<Longrightarrow> key (locks st' x) = key (locks st x)"
    by auto
qed

lemma power_suspend_late_spec:
  assumes "wl_inv st" "power_suspend_late clk st = Some (ret, st')"
  shows "wl_inv st'" "registered st' = registered st" "\<not> is_timed st x \<Longrightarrow> key (locks st' x) = key (locks st x)"
proof -
  obtain r st1 where h: "has_wake_lock clk WAKE_LOCK_SUSPEND st = Some (r, st1)"
    and st': "st' = st1\<lparr>wait_for_wakeup := True\<rparr>"
    using assms(2) by (auto simp: power_suspend_late_def bind_eq_Some_conv)
  from has_wake_lock_Some [OF assms(1) h] st'
  show "wl_inv st'" "registered st' = registered st" "\<not> is_timed st x \<Longrightarrow> key (locks st' x) = key (locks st x)"
    by auto
qed

lemma wake_unlock_Some:
  assumes "wl_inv st" "l \<in> registered st" "wake_unlock clk l st = Some st'"
  shows "wl_inv st'" "registered st' = registered st" "others_kept l st st'"
    "key (locks st' l) = (True, False, False, lock_type (locks st l))"
  using wake_unlock_spec [OF assms(1,2), of clk] assms(3) by auto

lemma wl_op_spec:
  assumes "wl_op l st st'" "wl_inv st"
  shows "wl_inv st' \<and> others_kept l st st' \<and> registered st - {l} \<subseteq> registered st' \<and>
    (l \<in> {main_wake_lock, unknown_wakeup, deleted_wake_locks} \<longrightarrow> registered st \<subseteq> registered st')"
  using assms
proof (induction rule: wl_op.induct)
  case (inits l st type name st')
  then show ?case using wake_lock_init_spec [OF inits(3,1,2)] by auto
next
  case (destroys l st)
  then show ?case using wake_lock_destroy_spec [OF destroys(3), of l] by auto
next
  case (takes l st clk st')
  then show ?case using wake_lock_internal_Some [of st l clk 0 False st'] by (auto simp: wake_lock_def)
next
  case (takes_timeout l st clk timeout st')
  then show ?case using wake_lock_internal_Some [of st l clk timeout True st'] by (auto simp: wake_lock_timeout_def)
next
  case (releases l st clk st')
  then show ?case using wake_unlock_Some [of st l clk st'] by auto
next
  case (checks clk type st ret st')
  then show ?case using has_wake_lock_Some [OF checks(2,1)] by (auto simp: others_kept_def)
next
  case (fires st clk st')
  then show ?case using expire_wake_locks_spec [OF fires(3,2)] by (auto simp: others_kept_def)
next
  case (late clk st ret st')
  then show ?case using power_suspend_late_spec [OF late(2,1)] by (auto simp: others_kept_def)
next
  case (work st)
  then show ?case by (simp add: others_kept_def)
qed

lemma wl_step_inv: "wl_step st st' \<Longrightarrow> wl_inv st \<Longrightarrow> wl_inv st'"
  using wl_op_spec by (auto simp: wl_step_def)

lemma static_locks: "main_wake_lock \<noteq> unknown_wakeup" "main_wake_lock \<noteq> deleted_wake_locks"
  "unknown_wakeup \<noteq> deleted_wake_locks"
  by (simp_all add: main_wake_lock_def unknown_wakeup_def deleted_wake_locks_def)

lemma wakelocks_init_spec:
  assumes "wakelocks_init clk dev drv wq wakelocks_start = Some (0, st)"
  shows "wl_inv st" "registered st = {main_wake_lock, unknown_wakeup, deleted_wake_locks}"
    "key (locks st main_wake_lock) = (True, True, False, WAKE_LOCK_SUSPEND)"
proof -
  have start: "wakelocks_start\<lparr>active_wake_locks := (\<lambda>_. [])\<rparr> = wakelocks_start" by (simp add: wakelocks_start_def)
  obtain st1 st2 st3 where
    1: "wake_lock_init deleted_wake_locks (of_nat WAKE_LOCK_SUSPEND) (Some ''deleted_wake_locks'') wakelocks_start = Some st1"
    and 2: "wake_lock_init main_wake_lock (of_nat WAKE_LOCK_SUSPEND) (Some ''main'') st1 = Some st2"
    and 3: "wake_lock_internal clk main_wake_lock 0 False st2 = Some st3"
    and 4: "wake_lock_init unknown_wakeup (of_nat WAKE_LOCK_SUSPEND) (Some ''unknown_wakeups'') st3 = Some st"
    using assms unfolding wakelocks_init_def start
    by (auto simp: bind_eq_Some_conv wake_lock_def Let_def split: if_splits)
  note i1 = wake_lock_init_spec [OF wl_inv_start(1) _ 1, unfolded wl_inv_start(2)]
  have i1: "wl_inv st1" "registered st1 = {deleted_wake_locks}" using i1 by auto
  have n2: "main_wake_lock \<notin> registered st1" using i1(2) static_locks by simp
  note i2 = wake_lock_init_spec [OF i1(1) n2 2]
  have r2: "main_wake_lock \<in> registered st2" using i2(2) by simp
  note i3 = wake_lock_internal_Some [OF i2(1) r2 3]
  have t2: "lock_type (locks st2 main_wake_lock) = WAKE_LOCK_SUSPEND"
    using i2(4) by (simp add: bit_flags_key WAKE_LOCK_SUSPEND_def)
  have n4: "unknown_wakeup \<notin> registered st3" using i3(2) i2(2) i1(2) static_locks by auto
  note i4 = wake_lock_init_spec [OF i3(1) n4 4]
  show "wl_inv st" by (rule i4)
  show "registered st = {main_wake_lock, unknown_wakeup, deleted_wake_locks}"
    using i4(2) i3(2) i2(2) i1(2) by auto
  show "key (locks st main_wake_lock) = (True, True, False, WAKE_LOCK_SUSPEND)"
    using i4(3) i3(4) t2 static_locks by (auto simp: others_kept_def is_timed_key timed_def)
qed

lemma wl_reachable_inv: "wl_reachable st \<Longrightarrow> wl_inv st"
proof -
  assume "wl_reachable st"
  then obtain st0 where "wl_inv st0" "wl_step\<^sup>*\<^sup>* st0 st" using wakelocks_init_spec(1) unfolding wl_reachable_def by blast
  from this(2,1) show ?thesis by (induction rule: rtranclp_induct) (auto intro: wl_step_inv)
qed

section \<open>Properties\<close>


lemma wakelocks_init_succeeds: "\<exists>st. wakelocks_init clk 0 0 True wakelocks_start = Some (0, st)"
proof -
  have start: "wakelocks_start\<lparr>active_wake_locks := (\<lambda>_. [])\<rparr> = wakelocks_start" by (simp add: wakelocks_start_def)
  have named: "\<exists>st'. wake_lock_init l ty (Some n) st = Some st'" for l ty n st by (simp add: wake_lock_init_def Let_def)
  obtain st1 where
    1: "wake_lock_init deleted_wake_locks (of_nat WAKE_LOCK_SUSPEND) (Some ''deleted_wake_locks'') wakelocks_start = Some st1"
    using named by blast
  obtain st2 where 2: "wake_lock_init main_wake_lock (of_nat WAKE_LOCK_SUSPEND) (Some ''main'') st1 = Some st2"
    using named by blast
  have i1: "wl_inv st1" "registered st1 = {deleted_wake_locks}"
    using wake_lock_init_spec [OF wl_inv_start(1) _ 1] wl_inv_start(2) by auto
  have n2: "main_wake_lock \<notin> registered st1" using i1(2) static_locks by simp
  note i2 = wake_lock_init_spec [OF i1(1) n2 2]
  have "lock_type (locks st2 main_wake_lock) < WAKE_LOCK_TYPE_COUNT"
    using i2(4) by (simp add: bit_flags_key WAKE_LOCK_SUSPEND_def WAKE_LOCK_TYPE_COUNT_def)
  then obtain st3 where 3: "wake_lock_internal clk main_wake_lock 0 False st2 = Some st3"
    using wake_lock_internal_spec [OF i2(1), of main_wake_lock clk 0 False] i2(2) by auto
  obtain st4 where "wake_lock_init unknown_wakeup (of_nat WAKE_LOCK_SUSPEND) (Some ''unknown_wakeups'') st3 = Some st4"
    using named by blast
  with 1 2 3 show ?thesis unfolding wakelocks_init_def start by (simp add: wake_lock_def)
qed

text \<open>The state after initialisation, for the witnesses.\<close>

definition demo_clock :: clock where
  "demo_clock = \<lparr>jiffies = 1000, ktime_get = 0, current_kernel_time = \<lparr>tv_sec = 0, tv_nsec = 0\<rparr>,
     wall_to_monotonic = \<lparr>tv_sec = 0, tv_nsec = 0\<rparr>, tick_nsec = 3906250\<rparr>"

definition demo_locks :: wakelocks where
  "demo_locks = snd (the (wakelocks_init demo_clock 0 0 True wakelocks_start))"

lemma demo_locks_init: "wakelocks_init demo_clock 0 0 True wakelocks_start = Some (0, demo_locks)"
  using wakelocks_init_succeeds [of demo_clock] by (auto simp: demo_locks_def)

lemma demo_locks_reachable: "wl_reachable demo_locks"
  unfolding wl_reachable_def using demo_locks_init by blast

lemma demo_locks_registered: "main_wake_lock \<in> registered demo_locks" "unknown_wakeup \<in> registered demo_locks"
  using wakelocks_init_spec(2) [OF demo_locks_init] by auto




text \<open>
  (C16) Releasing a suspend lock makes it inactive and decides what happens next: no timer while a lock
  without timeout is active, the timer at the last expiry while only live timeouts are left, and the
  suspend work queued when nothing is.
\<close>

theorem wake_unlock_decides:
  assumes "wl_reachable st" "l \<in> registered st" "lock_type (locks st l) = WAKE_LOCK_SUSPEND"
  shows "\<exists>st'. wake_unlock clk l st = Some st' \<and> \<not> wake_lock_active l st' \<and> decided clk st'"
  using wake_unlock_spec [OF wl_reachable_inv [OF assms(1)] assms(2), of clk] assms(3)
  by (auto simp: wake_lock_active_key)

theorem wake_unlock_decides_witness:
  "\<exists>st'. wake_unlock demo_clock main_wake_lock demo_locks = Some st' \<and> \<not> wake_lock_active main_wake_lock st' \<and>
     decided demo_clock st'"
  using wake_unlock_decides [OF demo_locks_reachable demo_locks_registered(1), of demo_clock]
    wakelocks_init_spec(3) [OF demo_locks_init]
  by (simp add: bit_flags_key)

lemma timeout_after:
  assumes "0 < timeout_of clk L" "timeout_of clk L \<le> m" "m < 2 ^ 31" "jiffies clk' = jiffies clk + of_int m"
  shows "timeout_of clk' L \<le> 0"
proof -
  have "expires L - jiffies clk' = of_int (timeout_of clk L - m)"
    unfolding assms(4) by (simp add: timeout_of_def)
  moreover have "sint (of_int (timeout_of clk L - m) :: u32) = timeout_of clk L - m"
    using assms(1-3) by (intro sint_of_int_u32) auto
  ultimately show ?thesis using assms(2) unfolding timeout_of_def [of clk'] by simp
qed

lemma timeout_of_less: "timeout_of clk L < 2 ^ 31"
  unfolding timeout_of_def using sint_lt [of "expires L - jiffies clk"] by simp

text \<open>
  (C17) Timeouts lead to suspend: when only locks with timeouts were left after the last decision and the
  timer fires at its time, it finds all of them expired, makes them inactive and queues the suspend work.
\<close>

theorem expire_timer_suspends:
  assumes "wl_reachable st" "decided clk st" "expire_timer st = Some T" "jiffies clk' = T"
  shows "\<exists>st'. expire_wake_locks clk' st = Some st' \<and> suspend_work st' \<and>
    active_wake_locks st' WAKE_LOCK_SUSPEND = []"
proof -
  let ?S = WAKE_LOCK_SUSPEND and ?st = "st\<lparr>expire_timer := None\<rparr>"
  define M where "M = Max ((\<lambda>l. timeout_of clk (locks st l)) ` set (active_wake_locks st ?S))"
  have timed: "\<forall>l\<in>set (active_wake_locks st ?S). is_timed st l \<and> live clk st l"
    and ne: "active_wake_locks st ?S \<noteq> []" and T: "T = jiffies clk + of_int M"
    using assms(2,3) by (auto simp: decided_def Let_def M_def split: if_splits)
  have "M \<in> (\<lambda>l. timeout_of clk (locks st l)) ` set (active_wake_locks st ?S)"
    unfolding M_def using ne by (intro Max_in) auto
  then have M: "M < 2 ^ 31" using timeout_of_less by auto
  have "timeout_of clk' (locks st l) \<le> 0" if "l \<in> set (active_wake_locks st ?S)" for l
    using timed that T assms(4) M by (intro timeout_after [of clk _ M]) (auto simp: live_def M_def)
  then have dead: "\<not> live clk' ?st l \<and> is_timed ?st l" if "l \<in> set (active_wake_locks st ?S)" for l
    using that timed by (auto simp: live_def not_less)
  then have a: "lock_answer clk' ?S ?st = 0" by (simp add: lock_answer_0_iff)
  have inv: "wl_inv ?st" using wl_reachable_inv [OF assms(1)] by simp
  obtain st1 where h: "has_wake_lock_locked clk' ?S ?st = Some (0, st1)"
    and c: "checked clk' ?S [] (active_wake_locks st ?S) ?st st1"
    using has_wake_lock_locked_spec [OF inv, of ?S clk'] dead a
    by (auto simp: WAKE_LOCK_SUSPEND_def WAKE_LOCK_TYPE_COUNT_def split: if_splits)
  have "active_wake_locks st1 ?S = filter (live clk' ?st) (active_wake_locks st ?S)"
    using c unfolding checked_def by simp
  also have "\<dots> = []" using dead by (simp add: filter_empty_conv)
  finally show ?thesis using h by (simp add: expire_wake_locks_def)
qed

definition demo_timer :: wakelocks where
  "demo_timer = the (wake_lock_timeout demo_clock unknown_wakeup 10
     (the (wake_unlock demo_clock main_wake_lock demo_locks)))"

lemma demo_timer_expires: "expire_timer demo_timer = Some 1010"
  by code_simp

lemma demo_unlocked:
  "wake_unlock demo_clock main_wake_lock demo_locks = Some (the (wake_unlock demo_clock main_wake_lock demo_locks))"
  "unknown_wakeup \<in> registered (the (wake_unlock demo_clock main_wake_lock demo_locks))"
  using wake_unlock_spec [OF wl_reachable_inv [OF demo_locks_reachable] demo_locks_registered(1), of demo_clock]
    demo_locks_registered(2)
  by auto

lemma demo_timer_locked:
  "wake_lock_timeout demo_clock unknown_wakeup 10 (the (wake_unlock demo_clock main_wake_lock demo_locks)) =
     Some demo_timer"
  "lock_type (locks (the (wake_unlock demo_clock main_wake_lock demo_locks)) unknown_wakeup) = WAKE_LOCK_SUSPEND"
proof -
  show t: "lock_type (locks (the (wake_unlock demo_clock main_wake_lock demo_locks)) unknown_wakeup) = WAKE_LOCK_SUSPEND"
    by code_simp
  have "wl_reachable (the (wake_unlock demo_clock main_wake_lock demo_locks))"
    using demo_locks_reachable releases [OF demo_locks_registered(1) demo_unlocked(1)] by (rule wl_reachable_op)
  then show "wake_lock_timeout demo_clock unknown_wakeup 10
      (the (wake_unlock demo_clock main_wake_lock demo_locks)) = Some demo_timer"
    using wake_lock_internal_spec [OF wl_reachable_inv demo_unlocked(2), of demo_clock 10 True] t
    by (auto simp: demo_timer_def wake_lock_timeout_def WAKE_LOCK_SUSPEND_def WAKE_LOCK_TYPE_COUNT_def)
qed

lemma demo_timer_reachable: "wl_reachable demo_timer"
  using demo_locks_reachable releases [OF demo_locks_registered(1) demo_unlocked(1)]
    takes_timeout [OF demo_unlocked(2) demo_timer_locked(1)]
  by (blast intro: wl_reachable_op)

lemma demo_timer_decided: "decided demo_clock demo_timer"
proof -
  have "wl_inv (the (wake_unlock demo_clock main_wake_lock demo_locks))"
    using wake_unlock_spec [OF wl_reachable_inv [OF demo_locks_reachable] demo_locks_registered(1), of demo_clock]
    by auto
  from wake_lock_internal_Some(5) [OF this demo_unlocked(2) demo_timer_locked(1) [unfolded wake_lock_timeout_def]
      demo_timer_locked(2)]
  show ?thesis .
qed

theorem expire_timer_suspends_witness:
  "\<exists>st'. expire_wake_locks (demo_clock\<lparr>jiffies := 1010\<rparr>) demo_timer = Some st' \<and> suspend_work st' \<and>
     active_wake_locks st' WAKE_LOCK_SUSPEND = []"
  by (rule expire_timer_suspends [OF demo_timer_reachable demo_timer_decided demo_timer_expires]) simp

section \<open>Deviations\<close>

text \<open>Destroying the only active suspend lock queues no suspend work and sets no timer.\<close>

lemma destroy_active_stalls:
  assumes "active_wake_locks st WAKE_LOCK_SUSPEND = [l]"
  shows "active_wake_locks (wake_lock_destroy l st) WAKE_LOCK_SUSPEND = []"
    "suspend_work (wake_lock_destroy l st) = suspend_work st"
    "expire_timer (wake_lock_destroy l st) = expire_timer st"
  using assms by (simp_all add: wake_lock_destroy_def Let_def)

text \<open>The longest time of the deleted locks is the sum of their longest times.\<close>

lemma deleted_max_time_sums: "max_time (add_deleted_stat s d) = max_time d + max_time s"
  by (simp add: add_deleted_stat_def)

text \<open>A lock that stays on its list for half the range of the tick counter after it expired looks live again.\<close>

lemma timeout_wraps:
  assumes "expires L = 0" "jiffies clk = 2 ^ 31 + 1"
  shows "timeout_of clk L = 2 ^ 31 - 1"
  using assms by (simp add: timeout_of_def)

end
