(* ===== verification/Early_Suspend.thy ===== *)
theory Early_Suspend
  imports Wakelock
begin

text \<open>
  Early suspend, \<open>kernel/power/earlysuspend.c\<close>, together with the suspend work of \<open>Wakelock\<close>: what the user
  asks for, the handlers that are called when the screen goes off and on, and the main wake lock that
  keeps the system from sleeping in between.

  The three kinds of work run on one worker thread.  \<open>early_suspend\<close> and \<open>suspend\<close> are split at the points
  where other threads can run; requests, registrations and the wake lock calls of drivers come in between.
  The handlers themselves are parameters of which only the order of the calls is kept.
\<close>

section \<open>Data\<close>

definition SUSPEND_REQUESTED :: u32 where "SUSPEND_REQUESTED = 0x1"
definition SUSPENDED :: u32 where "SUSPENDED = 0x2"
definition SUSPEND_REQUESTED_AND_SUSPENDED :: u32 where
  "SUSPEND_REQUESTED_AND_SUSPENDED = SUSPEND_REQUESTED OR SUSPENDED"
definition PM_SUSPEND_ON :: nat where "PM_SUSPEND_ON = 0"
definition PM_SUSPEND_MEM :: nat where "PM_SUSPEND_MEM = 3"

text \<open>Whether a handler has the two functions, and its level.\<close>

record early_suspend_handler =
  level :: int
  has_suspend :: bool
  has_resume :: bool

datatype handler_event = Registered ptr | Suspend_Call ptr | Resume_Call ptr

text \<open>Where the worker is: nowhere, in \<open>early_suspend\<close> before its last check, or in \<open>pm_suspend\<close>.\<close>

datatype worker = Worker_Idle | Early_Running | Sleeping u32

record early_suspend_state =
  wl :: wakelocks
  es_state :: u32
  early_suspend_handlers :: "ptr list"
  requested_suspend_state :: nat
  early_suspend_work :: bool
  late_resume_work :: bool
  worker :: worker
  events :: "handler_event list"

type_synonym handlers = "ptr \<Rightarrow> early_suspend_handler"

section \<open>Operations\<close>

text \<open>A handler is put before the first one of a higher level.\<close>

fun insert_handler :: "handlers \<Rightarrow> ptr \<Rightarrow> ptr list \<Rightarrow> ptr list" where
  "insert_handler H h [] = [h]"
| "insert_handler H h (e # es) = (if level (H e) > level (H h) then h # e # es else e # insert_handler H h es)"

definition register_early_suspend_actual :: "handlers \<Rightarrow> ptr \<Rightarrow> early_suspend_state \<Rightarrow> early_suspend_state" where
  "register_early_suspend_actual H h st =
     st\<lparr>early_suspend_handlers := insert_handler H h (early_suspend_handlers st),
        events := events st @ [Registered h] @
          (if es_state st AND SUSPENDED \<noteq> 0 \<and> has_suspend (H h) then [Suspend_Call h] else [])\<rparr>"

definition unregister_early_suspend :: "ptr \<Rightarrow> early_suspend_state \<Rightarrow> early_suspend_state" where
  "unregister_early_suspend h st = st\<lparr>early_suspend_handlers := remove1 h (early_suspend_handlers st)\<rparr>"

definition early_suspend_begin :: "handlers \<Rightarrow> early_suspend_state \<Rightarrow> early_suspend_state" where
  "early_suspend_begin H st =
     (if es_state st = SUSPEND_REQUESTED
      then st\<lparr>es_state := es_state st OR SUSPENDED,
              events := events st @ map Suspend_Call (filter (\<lambda>h. has_suspend (H h)) (early_suspend_handlers st))\<rparr>
      else st)"

definition early_suspend_end :: "clock \<Rightarrow> early_suspend_state \<Rightarrow> early_suspend_state option" where
  "early_suspend_end clk st =
     (if es_state st = SUSPEND_REQUESTED_AND_SUSPENDED
      then map_option (\<lambda>w. st\<lparr>wl := w\<rparr>) (wake_unlock clk main_wake_lock (wl st))
      else Some st)"

text \<open>\<open>meanwhile\<close> is what other threads do while the handlers and \<open>sys_sync\<close> run.\<close>

definition early_suspend ::
    "handlers \<Rightarrow> (early_suspend_state \<Rightarrow> clock \<times> early_suspend_state) \<Rightarrow> early_suspend_state \<Rightarrow>
     early_suspend_state option" where
  "early_suspend H meanwhile st =
     (let (clk, st) = meanwhile (early_suspend_begin H st) in early_suspend_end clk st)"

definition late_resume :: "handlers \<Rightarrow> early_suspend_state \<Rightarrow> early_suspend_state" where
  "late_resume H st =
     (if es_state st = SUSPENDED
      then st\<lparr>es_state := es_state st AND NOT SUSPENDED,
              events := events st @ map Resume_Call (filter (\<lambda>h. has_resume (H h)) (rev (early_suspend_handlers st)))\<rparr>
      else st)"

definition request_suspend_state :: "clock \<Rightarrow> nat \<Rightarrow> early_suspend_state \<Rightarrow> early_suspend_state option" where
  "request_suspend_state clk new_state st =
     (let old_sleep = es_state st AND SUSPEND_REQUESTED in
      map_option (\<lambda>st. st\<lparr>requested_suspend_state := new_state\<rparr>)
       (if old_sleep = 0 \<and> new_state \<noteq> PM_SUSPEND_ON then
          Some (st\<lparr>es_state := es_state st OR SUSPEND_REQUESTED, early_suspend_work := True\<rparr>)
        else if old_sleep \<noteq> 0 \<and> new_state = PM_SUSPEND_ON then
          map_option (\<lambda>w. st\<lparr>es_state := es_state st AND NOT SUSPEND_REQUESTED, wl := w, late_resume_work := True\<rparr>)
            (wake_lock clk main_wake_lock (wl st))
        else Some st))"

definition get_suspend_state :: "early_suspend_state \<Rightarrow> nat" where
  "get_suspend_state st = requested_suspend_state st"

section \<open>The system\<close>

text \<open>
  Everything that can happen: requests, registrations, calls of drivers on locks other than the main one,
  and the worker, which takes up queued work when it is idle.
\<close>

inductive es_step :: "handlers \<Rightarrow> early_suspend_state \<Rightarrow> early_suspend_state \<Rightarrow> bool" for H where
  request: "request_suspend_state clk new_state st = Some st' \<Longrightarrow> es_step H st st'"
| register: "h \<notin> set (early_suspend_handlers st) \<Longrightarrow> es_step H st (register_early_suspend_actual H h st)"
| unregister: "h \<in> set (early_suspend_handlers st) \<Longrightarrow> es_step H st (unregister_early_suspend h st)"
| driver: "wl_op l (wl st) w \<Longrightarrow> l \<noteq> main_wake_lock \<Longrightarrow> es_step H st (st\<lparr>wl := w\<rparr>)"
| early_start: "worker st = Worker_Idle \<Longrightarrow> early_suspend_work st \<Longrightarrow>
    es_step H st (early_suspend_begin H (st\<lparr>worker := Early_Running, early_suspend_work := False\<rparr>))"
| early_finish: "worker st = Early_Running \<Longrightarrow> early_suspend_end clk st = Some st' \<Longrightarrow>
    es_step H st (st'\<lparr>worker := Worker_Idle\<rparr>)"
| late_run: "worker st = Worker_Idle \<Longrightarrow> late_resume_work st \<Longrightarrow>
    es_step H st (late_resume H (st\<lparr>late_resume_work := False\<rparr>))"
| suspend_abort: "worker st = Worker_Idle \<Longrightarrow> suspend_work (wl st) \<Longrightarrow>
    suspend_check clk ((wl st)\<lparr>suspend_work := False\<rparr>) = Some (None, w) \<Longrightarrow> es_step H st (st\<lparr>wl := w\<rparr>)"
| suspend_start: "worker st = Worker_Idle \<Longrightarrow> suspend_work (wl st) \<Longrightarrow>
    suspend_check clk ((wl st)\<lparr>suspend_work := False\<rparr>) = Some (Some n, w) \<Longrightarrow>
    es_step H st (st\<lparr>wl := w, worker := Sleeping n\<rparr>)"
| suspend_finish: "worker st = Sleeping n \<Longrightarrow> suspend_exit clk n (wl st) = Some w \<Longrightarrow>
    es_step H st (st\<lparr>wl := w, worker := Worker_Idle\<rparr>)"

text \<open>The system starts with the wake locks initialised, the user state on and no handler.\<close>

definition es_start :: "wakelocks \<Rightarrow> early_suspend_state" where
  "es_start w = \<lparr>wl = w, es_state = 0, early_suspend_handlers = [], requested_suspend_state = PM_SUSPEND_MEM,
     early_suspend_work = False, late_resume_work = False, worker = Worker_Idle, events = []\<rparr>"

definition es_reachable :: "handlers \<Rightarrow> early_suspend_state \<Rightarrow> bool" where
  "es_reachable H st \<longleftrightarrow>
     (\<exists>clk dev drv wq w. wakelocks_init clk dev drv wq wakelocks_start = Some (0, w) \<and>
        (es_step H)\<^sup>*\<^sup>* (es_start w) st)"

section \<open>The main lock\<close>

text \<open>The state is one of four; the main lock has no timeout and is inactive only when sleep is requested and the handlers are called.\<close>

definition es_inv :: "early_suspend_state \<Rightarrow> bool" where
  "es_inv st \<longleftrightarrow> wl_inv (wl st) \<and> {main_wake_lock, unknown_wakeup} \<subseteq> registered (wl st) \<and>
     es_state st \<in> {0, SUSPEND_REQUESTED, SUSPENDED, SUSPEND_REQUESTED_AND_SUSPENDED} \<and>
     (\<exists>act. key (locks (wl st) main_wake_lock) = (True, act, False, WAKE_LOCK_SUSPEND) \<and>
        (act \<or> es_state st = SUSPEND_REQUESTED_AND_SUSPENDED))"

lemmas state_defs = SUSPEND_REQUESTED_def SUSPENDED_def SUSPEND_REQUESTED_AND_SUSPENDED_def

lemma es_inv_wl:
  assumes "es_inv st" "others_kept l (wl st) w" "l \<noteq> main_wake_lock" "wl_inv w"
    and "registered (wl st) - {l} \<subseteq> registered w"
    and "l \<in> {main_wake_lock, unknown_wakeup, deleted_wake_locks} \<longrightarrow> registered (wl st) \<subseteq> registered w"
  shows "es_inv (st\<lparr>wl := w\<rparr>)"
proof -
  obtain act where "key (locks (wl st) main_wake_lock) = (True, act, False, WAKE_LOCK_SUSPEND)"
    "act \<or> es_state st = SUSPEND_REQUESTED_AND_SUSPENDED"
    using assms(1) by (auto simp: es_inv_def)
  moreover from this have "key (locks w main_wake_lock) = key (locks (wl st) main_wake_lock)"
    using assms(2,3) by (auto simp: others_kept_def is_timed_key timed_def)
  ultimately show ?thesis using assms by (auto simp: es_inv_def)
qed

lemma es_inv_frame [simp]:
  "es_inv (st\<lparr>worker := p\<rparr>) = es_inv st" "es_inv (st\<lparr>early_suspend_work := b\<rparr>) = es_inv st"
  "es_inv (st\<lparr>late_resume_work := b\<rparr>) = es_inv st" "es_inv (st\<lparr>events := ev\<rparr>) = es_inv st"
  "es_inv (st\<lparr>early_suspend_handlers := hs\<rparr>) = es_inv st" "es_inv (st\<lparr>requested_suspend_state := n\<rparr>) = es_inv st"
  by (simp_all add: es_inv_def)

lemma suspend_check_Some:
  assumes "wl_inv w" "suspend_check clk w = Some (r, w')"
  shows "wl_inv w'" "registered w' = registered w" "others_kept NULL w w'"
    "r \<noteq> None \<Longrightarrow> lock_answer clk WAKE_LOCK_SUSPEND w = 0"
proof -
  obtain a w1 where h: "has_wake_lock clk WAKE_LOCK_SUSPEND w = Some (a, w1)" and w: "w' = w1"
    and r: "r \<noteq> None \<Longrightarrow> a = 0"
    using assms(2) by (auto simp: suspend_check_def bind_eq_Some_conv split: if_splits)
  note hs = has_wake_lock_Some [OF assms(1) h]
  show "wl_inv w'" "registered w' = registered w" "others_kept NULL w w'"
    "r \<noteq> None \<Longrightarrow> lock_answer clk WAKE_LOCK_SUSPEND w = 0"
    using hs r w by (auto simp: others_kept_def)
qed

lemma es_inv_state:
  assumes "es_inv st" "s \<in> {0, SUSPEND_REQUESTED, SUSPENDED, SUSPEND_REQUESTED_AND_SUSPENDED}"
    and "es_state st = SUSPEND_REQUESTED_AND_SUSPENDED \<Longrightarrow> s = SUSPEND_REQUESTED_AND_SUSPENDED"
  shows "es_inv (st\<lparr>es_state := s\<rparr>)"
  using assms by (auto simp: es_inv_def)

lemma es_inv_cases:
  assumes "es_inv st"
  obtains "es_state st = 0" | "es_state st = 1" | "es_state st = 2" | "es_state st = 3"
  using assms by (auto simp: es_inv_def state_defs)

lemma es_inv_main:
  assumes "es_inv st"
  shows "wl_inv (wl st)" "main_wake_lock \<in> registered (wl st)" "unknown_wakeup \<in> registered (wl st)"
    "lock_type (locks (wl st) main_wake_lock) = WAKE_LOCK_SUSPEND"
  using assms by (auto simp: es_inv_def bit_flags_key)

lemma request_inv:
  assumes "es_inv st" "request_suspend_state clk new_state st = Some st'"
  shows "es_inv st'"
proof -
  note m = es_inv_main [OF assms(1)]
  have lock: "es_inv (st\<lparr>es_state := s, wl := w, late_resume_work := True, requested_suspend_state := new_state\<rparr>)"
    if "wake_lock clk main_wake_lock (wl st) = Some w" "s \<in> {0, SUSPENDED}" for w s
    using wake_lock_internal_Some [OF m(1,2) that(1) [unfolded wake_lock_def]] that(2) m by (auto simp: es_inv_def)
  have ask: "es_inv (st\<lparr>es_state := s, early_suspend_work := True, requested_suspend_state := new_state\<rparr>)"
    if "s = es_state st OR SUSPEND_REQUESTED" "es_state st AND SUSPEND_REQUESTED = 0" for s
    using es_inv_cases [OF assms(1)] assms(1) that by cases (auto simp: es_inv_def state_defs)
  have off: "es_state st AND NOT SUSPEND_REQUESTED \<in> {0, SUSPENDED}"
    using es_inv_cases [OF assms(1)] by cases (simp_all add: state_defs)
  show ?thesis
    using assms lock [OF _ off] ask [OF refl]
    by (auto simp: request_suspend_state_def Let_def split: if_splits)
qed

lemma es_step_inv:
  assumes "es_step H st st'" "es_inv st"
  shows "es_inv st'"
  using assms
proof (induction rule: es_step.induct)
  case (request clk new_state st st')
  then show ?case by (blast intro: request_inv)
next
  case (register h st)
  then show ?case by (simp add: register_early_suspend_actual_def)
next
  case (unregister h st)
  then show ?case by (simp add: unregister_early_suspend_def)
next
  case (driver l st w)
  then show ?case using wl_op_spec [OF driver(1) es_inv_main(1) [OF driver(3)]] by (intro es_inv_wl [of st l w]) auto
next
  case (early_start st)
  then show ?case by (auto simp: early_suspend_begin_def es_inv_def state_defs)
next
  case (early_finish st clk st')
  note m = es_inv_main [OF early_finish(3)]
  show ?case
  proof (cases "es_state st = SUSPEND_REQUESTED_AND_SUSPENDED")
    case True
    then obtain w where w: "wake_unlock clk main_wake_lock (wl st) = Some w" "st' = st\<lparr>wl := w\<rparr>"
      using early_finish(2) by (auto simp: early_suspend_end_def)
    show ?thesis using wake_unlock_Some [OF m(1,2) w(1)] early_finish(3) True m w(2) by (auto simp: es_inv_def)
  next
    case False
    then show ?thesis using early_finish by (auto simp: early_suspend_end_def)
  qed
next
  case (late_run st)
  then show ?case by (auto simp: late_resume_def es_inv_def state_defs)
next
  case (suspend_abort st clk w)
  then show ?case
    using suspend_check_Some [OF _ suspend_abort(3)] es_inv_main(1) [OF suspend_abort(4)]
    by (intro es_inv_wl [of st NULL w]) (auto simp: others_kept_def main_wake_lock_def)
next
  case (suspend_start st clk n w)
  then have "es_inv (st\<lparr>wl := w\<rparr>)"
    using suspend_check_Some [OF _ suspend_start(3)] es_inv_main(1) [OF suspend_start(4)]
    by (intro es_inv_wl [of st NULL w]) (auto simp: others_kept_def main_wake_lock_def)
  then show ?case by (simp add: es_inv_def)
next
  case (suspend_finish st n clk w)
  note m = es_inv_main [OF suspend_finish(3)]
  have "es_inv (st\<lparr>wl := w\<rparr>)"
  proof (cases "current_event_num (wl st) = n")
    case True
    then have "wake_lock_internal clk unknown_wakeup (of_nat (HZ div 2)) True (wl st) = Some w"
      using suspend_finish(2) by (simp add: suspend_exit_def wake_lock_timeout_def)
    from wake_lock_internal_Some [OF m(1,3) this] suspend_finish(3) show ?thesis
      by (intro es_inv_wl [of st unknown_wakeup w]) (auto simp: static_locks [symmetric] static_locks(1) [THEN not_sym])
  next
    case False
    then have "st\<lparr>wl := w\<rparr> = st" using suspend_finish(2) by (simp add: suspend_exit_def)
    then show ?thesis using suspend_finish(3) by simp
  qed
  then show ?case by (simp add: es_inv_def)
qed

lemma es_start_inv: "wakelocks_init clk dev drv wq wakelocks_start = Some (0, w) \<Longrightarrow> es_inv (es_start w)"
  using wakelocks_init_spec by (auto simp: es_inv_def es_start_def)

lemma es_reachable_inv: "es_reachable H st \<Longrightarrow> es_inv st"
proof -
  assume "es_reachable H st"
  then obtain w where "es_inv (es_start w)" "(es_step H)\<^sup>*\<^sup>* (es_start w) st"
    using es_start_inv unfolding es_reachable_def by blast
  from this(2,1) show ?thesis by (induction rule: rtranclp_induct) (auto intro: es_step_inv)
qed

section \<open>Handlers\<close>

text \<open>Whether the last call of a handler since its registration was the one to suspend.\<close>

fun is_down :: "ptr \<Rightarrow> handler_event list \<Rightarrow> bool \<Rightarrow> bool" where
  "is_down h [] b = b"
| "is_down h (Registered x # ev) b = is_down h ev (if x = h then False else b)"
| "is_down h (Suspend_Call x # ev) b = is_down h ev (if x = h then True else b)"
| "is_down h (Resume_Call x # ev) b = is_down h ev (if x = h then False else b)"

definition handlers_inv :: "handlers \<Rightarrow> early_suspend_state \<Rightarrow> bool" where
  "handlers_inv H st \<longleftrightarrow> distinct (early_suspend_handlers st) \<and>
     sorted_wrt (\<lambda>h h'. level (H h) \<le> level (H h')) (early_suspend_handlers st) \<and>
     (\<forall>h\<in>set (early_suspend_handlers st). has_suspend (H h) \<longrightarrow> has_resume (H h) \<longrightarrow>
        is_down h (events st) False = (es_state st AND SUSPENDED \<noteq> 0))"

lemma is_down_append: "is_down h (xs @ ys) b = is_down h ys (is_down h xs b)"
  by (induction h xs b rule: is_down.induct) auto

lemma is_down_calls:
  "is_down h (map Suspend_Call hs) b = (h \<in> set hs \<or> b)" "is_down h (map Resume_Call hs) b = (h \<notin> set hs \<and> b)"
  by (induction hs arbitrary: b) auto

lemma set_insert_handler: "set (insert_handler H h hs) = insert h (set hs)"
  by (induction hs) auto

lemma distinct_insert_handler: "h \<notin> set hs \<Longrightarrow> distinct hs \<Longrightarrow> distinct (insert_handler H h hs)"
  by (induction hs) (auto simp: set_insert_handler)

lemma sorted_insert_handler:
  "sorted_wrt (\<lambda>h h'. level (H h) \<le> level (H h')) hs \<Longrightarrow>
   sorted_wrt (\<lambda>h h'. level (H h) \<le> level (H h')) (insert_handler H h hs)"
  by (induction hs) (auto simp: set_insert_handler)

lemma early_suspend_end_frame:
  "early_suspend_end clk st = Some st' \<Longrightarrow> es_state st' = es_state st \<and> events st' = events st \<and>
   early_suspend_handlers st' = early_suspend_handlers st"
  by (auto simp: early_suspend_end_def split: if_splits)

lemma request_frame:
  assumes "es_inv st" "request_suspend_state clk new_state st = Some st'"
  shows "events st' = events st" "early_suspend_handlers st' = early_suspend_handlers st"
    "es_state st' AND SUSPENDED = es_state st AND SUSPENDED"
  using es_inv_cases [OF assms(1)] assms(2)
  by (cases; auto simp: request_suspend_state_def Let_def state_defs split: if_splits)+

lemma es_step_handlers:
  assumes "es_step H st st'" "es_inv st" "handlers_inv H st"
  shows "handlers_inv H st'"
  using assms
proof (induction rule: es_step.induct)
  case (request clk new_state st st')
  then show ?case using request_frame [OF request(2,1)] by (simp add: handlers_inv_def)
next
  case (register h st)
  then show ?case
    by (auto simp: handlers_inv_def register_early_suspend_actual_def set_insert_handler is_down_append
        intro: distinct_insert_handler sorted_insert_handler)
next
  case (unregister h st)
  then show ?case
    using set_remove1_subset [of h "early_suspend_handlers st"]
    by (auto simp: handlers_inv_def unregister_early_suspend_def intro: sorted_wrt_remove1)
next
  case (early_start st)
  then show ?case
    by (auto simp: handlers_inv_def early_suspend_begin_def is_down_append is_down_calls state_defs)
next
  case (early_finish st clk st')
  then show ?case using early_suspend_end_frame [OF early_finish(2)] by (simp add: handlers_inv_def)
next
  case (late_run st)
  then show ?case by (auto simp: handlers_inv_def late_resume_def is_down_append is_down_calls state_defs)
qed (simp_all add: handlers_inv_def)

lemma es_reachable_handlers: "es_reachable H st \<Longrightarrow> handlers_inv H st"
proof -
  assume "es_reachable H st"
  then obtain w where i: "es_inv (es_start w)" and s: "(es_step H)\<^sup>*\<^sup>* (es_start w) st"
    using es_start_inv unfolding es_reachable_def by blast
  have h: "handlers_inv H (es_start w)" by (simp add: handlers_inv_def es_start_def)
  from s have "es_inv st \<and> handlers_inv H st"
    by (induction rule: rtranclp_induct) (use i h in \<open>blast intro: es_step_inv es_step_handlers\<close>)+
  then show ?thesis by blast
qed

section \<open>Properties\<close>


text \<open>A run for the witness: sleep is requested, the work runs, and the main lock is released.\<close>

definition demo_es :: early_suspend_state where
  "demo_es = (the (early_suspend_end demo_clock (early_suspend_begin (\<lambda>_. \<lparr>level = 0, has_suspend = True, has_resume = True\<rparr>)
     ((the (request_suspend_state demo_clock PM_SUSPEND_MEM (es_start demo_locks)))
        \<lparr>worker := Early_Running, early_suspend_work := False\<rparr>))))\<lparr>worker := Worker_Idle\<rparr>"

definition demo_handlers :: handlers where
  "demo_handlers = (\<lambda>_. \<lparr>level = 0, has_suspend = True, has_resume = True\<rparr>)"

lemma demo_es_eq:
  "demo_es = \<lparr>wl = the (wake_unlock demo_clock main_wake_lock demo_locks), es_state = 3, early_suspend_handlers = [],
     requested_suspend_state = PM_SUSPEND_MEM, early_suspend_work = False, late_resume_work = False,
     worker = Worker_Idle, events = []\<rparr>"
proof -
  obtain w where "wake_unlock demo_clock main_wake_lock demo_locks = Some w" using demo_unlocked(1) by blast
  then show ?thesis
    unfolding demo_es_def
    by (simp add: es_start_def request_suspend_state_def early_suspend_begin_def early_suspend_end_def state_defs
        PM_SUSPEND_MEM_def PM_SUSPEND_ON_def)
qed

lemma demo_es_reachable: "es_reachable demo_handlers demo_es"
proof -
  let ?s0 = "es_start demo_locks" and ?s1 = "the (request_suspend_state demo_clock PM_SUSPEND_MEM (es_start demo_locks))"
  let ?s2 = "early_suspend_begin demo_handlers (?s1\<lparr>worker := Early_Running, early_suspend_work := False\<rparr>)"
  have r: "request_suspend_state demo_clock PM_SUSPEND_MEM ?s0 = Some ?s1"
    by (simp add: es_start_def request_suspend_state_def PM_SUSPEND_MEM_def PM_SUSPEND_ON_def)
  have "es_step demo_handlers ?s0 ?s1" by (rule request) (rule r)
  moreover have "es_step demo_handlers ?s1 ?s2"
    by (rule early_start) (simp_all add: es_start_def request_suspend_state_def PM_SUSPEND_MEM_def PM_SUSPEND_ON_def)
  moreover have "worker ?s2 = Early_Running" by (simp add: early_suspend_begin_def)
  moreover have "\<exists>st'. early_suspend_end demo_clock ?s2 = Some st'"
  proof -
    obtain w where "wake_unlock demo_clock main_wake_lock demo_locks = Some w" using demo_unlocked(1) by blast
    then show ?thesis
      by (simp add: early_suspend_end_def early_suspend_begin_def es_start_def request_suspend_state_def
          PM_SUSPEND_MEM_def PM_SUSPEND_ON_def state_defs)
  qed
  then have "early_suspend_end demo_clock ?s2 = Some (the (early_suspend_end demo_clock ?s2))" by auto
  ultimately have "(es_step demo_handlers)\<^sup>*\<^sup>* ?s0 ((the (early_suspend_end demo_clock ?s2))\<lparr>worker := Worker_Idle\<rparr>)"
    using early_finish [of ?s2 demo_clock] by (meson converse_rtranclp_into_rtranclp rtranclp.rtrancl_refl)
  then show ?thesis
    unfolding es_reachable_def demo_es_def demo_handlers_def [symmetric] using demo_locks_init by blast
qed

lemma demo_es_check:
  "suspend_check demo_clock ((wl demo_es)\<lparr>suspend_work := False\<rparr>) =
     Some (Some 1, snd (the (suspend_check demo_clock ((wl demo_es)\<lparr>suspend_work := False\<rparr>))))"
proof -
  have "map_option fst (suspend_check demo_clock ((wl demo_es)\<lparr>suspend_work := False\<rparr>)) = Some (Some 1)"
    unfolding demo_es_eq early_suspend_state.simps by code_simp
  then show ?thesis by (cases "suspend_check demo_clock ((wl demo_es)\<lparr>suspend_work := False\<rparr>)") auto
qed


text \<open>
  (C18) The handlers stay sorted by level, so that they are suspended from low to high and resumed from
  high to low, and the calls of a handler that has both functions are balanced: it was last told to
  suspend exactly when the state is suspended, also when it was registered while suspended.
\<close>

theorem early_suspend_handlers_balanced:
  assumes "es_reachable H st"
  shows "sorted_wrt (\<lambda>h h'. level (H h) \<le> level (H h')) (early_suspend_handlers st) \<and>
    (\<forall>h\<in>set (early_suspend_handlers st). has_suspend (H h) \<longrightarrow> has_resume (H h) \<longrightarrow>
       is_down h (events st) False = (es_state st AND SUSPENDED \<noteq> 0))"
  using es_reachable_handlers [OF assms] by (simp add: handlers_inv_def)

theorem early_suspend_handlers_balanced_witness:
  "is_down 7 (events (register_early_suspend_actual demo_handlers 7 demo_es)) False"
proof -
  have "es_step demo_handlers demo_es (register_early_suspend_actual demo_handlers 7 demo_es)"
    by (rule register) (simp add: demo_es_eq)
  then have "es_reachable demo_handlers (register_early_suspend_actual demo_handlers 7 demo_es)"
    using demo_es_reachable unfolding es_reachable_def by (blast intro: rtranclp.rtrancl_into_rtrancl)
  from early_suspend_handlers_balanced [OF this] show ?thesis
    by (simp add: register_early_suspend_actual_def demo_es_eq demo_handlers_def state_defs)
qed

end
