(* ===== verification/Spec2Isabelle.thy ===== *)
theory Spec2Isabelle
  imports Noop_Iosched Sio_Iosched Deadline_Contract Vr_Contract Kernel_Time Vsprintf Logger Kernel_Math Ashmem Early_Suspend Rbtree_Iter
begin

text \<open>
  A verification library for parts of the Linux 2.6.35 kernel of the Samsung GT-S5360.
\<close>

end
